(* ===== verification/Prelude.thy ===== *)
theory Prelude
  imports Main "HOL-Library.Word"
begin

text \<open>
  What every component of the firmware model shares: the machine integers of the target, the two
  build profiles of \<^verbatim>\<open>Cargo.toml\<close> (which differ in what an arithmetic overflow does), panics as
  values, memory regions of an array, and generic lemmas on lists and words.

  The target is \<^verbatim>\<open>xtensa-esp32\<close>, whose \<^verbatim>\<open>usize\<close> has 32 bits.
\<close>

unbundle bit_operations_syntax

subsection \<open>Machine integers\<close>

type_synonym u8 = "8 word"
type_synonym u16 = "16 word"
type_synonym u32 = "32 word"
type_synonym u64 = "64 word"
type_synonym i8 = "8 word"
type_synonym i32 = "32 word"
type_synonym usize = "32 word"

subsection \<open>Build profiles and panics\<close>

text \<open>
  The \<^verbatim>\<open>dev\<close> profile compiles integer overflow to a panic, the \<^verbatim>\<open>release\<close> profile to
  two's-complement wrap-around. Operations that can overflow take the profile as an argument.
\<close>

datatype profile = Dev | Release

datatype panic =
    ArithmeticOverflow
  | RemainderByZero
  | DivisionByZero
  | IndexOutOfBounds
  | UnwrapFailed
  | ExplicitPanic string

datatype 'a outcome = Ok 'a | Panic panic

fun bind_outcome :: "'a outcome \<Rightarrow> ('a \<Rightarrow> 'b outcome) \<Rightarrow> 'b outcome" where
  "bind_outcome (Ok x) f = f x"
| "bind_outcome (Panic p) f = Panic p"

definition add_word :: "profile \<Rightarrow> 'l::len word \<Rightarrow> 'l word \<Rightarrow> 'l word outcome" where
  "add_word p a b =
     (if p = Dev \<and> 2 ^ LENGTH('l) \<le> unat a + unat b then Panic ArithmeticOverflow
      else Ok (a + b))"

definition sub_word :: "profile \<Rightarrow> 'l::len word \<Rightarrow> 'l word \<Rightarrow> 'l word outcome" where
  "sub_word p a b = (if p = Dev \<and> a < b then Panic ArithmeticOverflow else Ok (a - b))"

definition mul_word :: "profile \<Rightarrow> 'l::len word \<Rightarrow> 'l word \<Rightarrow> 'l word outcome" where
  "mul_word p a b =
     (if p = Dev \<and> 2 ^ LENGTH('l) \<le> unat a * unat b then Panic ArithmeticOverflow else Ok (a * b))"

text \<open>Division panics on a zero divisor in both profiles.\<close>

definition div_word :: "'l::len word \<Rightarrow> 'l word \<Rightarrow> 'l word outcome" where
  "div_word a b = (if b = 0 then Panic DivisionByZero else Ok (a div b))"

text \<open>\<^verbatim>\<open>checked_sub\<close> does not depend on the profile.\<close>

definition checked_sub :: "'l::len word \<Rightarrow> 'l word \<Rightarrow> 'l word option" where
  "checked_sub a b = (if b \<le> a then Some (a - b) else None)"

text \<open>Remainder panics on a zero divisor in both profiles.\<close>

definition rem_nat :: "nat \<Rightarrow> nat \<Rightarrow> nat outcome" where
  "rem_nat a b = (if b = 0 then Panic RemainderByZero else Ok (a mod b))"

text \<open>What a computation that returned went through: the rules that open its binds.\<close>

named_theorems return_ok

lemma bind_outcome_eq_Ok [return_ok]:
  "bind_outcome m f = Ok y \<longleftrightarrow> (\<exists>x. m = Ok x \<and> f x = Ok y)"
  by (cases m) auto

lemma bind_outcome_eq_Panic:
  "bind_outcome m f = Panic p \<longleftrightarrow> m = Panic p \<or> (\<exists>x. m = Ok x \<and> f x = Panic p)"
  by (cases m) auto

declare bind_eq_Some_conv [return_ok]

lemma case_outcome_Ok [return_ok]:
  "(case r of Ok x \<Rightarrow> f x | Panic e \<Rightarrow> Some (Panic e)) = Some (Ok y) \<longleftrightarrow> (\<exists>x. r = Ok x \<and> f x = Some (Ok y))"
  by (cases r) auto

lemma rem_nat_pos [simp]: "0 < b \<Longrightarrow> rem_nat a b = Ok (a mod b)"
  by (simp add: rem_nat_def)

lemma add_word_Release [simp]: "add_word Release a b = Ok (a + b)"
  by (simp add: add_word_def)

lemma add_word_no_overflow:
  "unat a + unat b < 2 ^ LENGTH('l) \<Longrightarrow> add_word p (a :: 'l::len word) b = Ok (a + b)"
  by (simp add: add_word_def)

lemma sub_word_Release [simp]: "sub_word Release a b = Ok (a - b)"
  by (simp add: sub_word_def)

lemma checked_sub_Some_unat:
  "checked_sub a b = Some d \<Longrightarrow> unat d = unat a - unat b \<and> unat b \<le> unat a"
  by (auto simp: checked_sub_def unat_sub word_le_nat_alt split: if_splits)

lemma unat_bounds:
  "unat (a :: u8) < 256" "unat (b :: u16) < 65536" "unat (c :: u32) < 4294967296"
  "unat (d :: u64) < 18446744073709551616"
  using unsigned_less [of a] unsigned_less [of b] unsigned_less [of c] unsigned_less [of d]
  by simp_all

text \<open>A byte read as a signed value.\<close>

lemma sint_i8: "sint (v :: i8) = (if uint v < 128 then uint v else uint v - 256)"
proof -
  have v: "uint v < 256" "0 \<le> uint v" using uint_bounded [of v] by simp_all
  have b: "bit (uint v) 7 \<longleftrightarrow> 128 \<le> uint v"
  proof -
    have "uint v div 128 = 0 \<or> uint v div 128 = 1" using v by arith
    then show ?thesis by (auto simp: bit_iff_odd)
  qed
  have "sint v = signed_take_bit 7 (uint v)" by (simp add: sint_uint)
  also have "\<dots> = take_bit 8 (uint v) - 256 * of_bool (bit (uint v) 7)"
    using signed_take_bit_eq_take_bit_minus [of 7 "uint v"] by simp
  also have "\<dots> = uint v - 256 * of_bool (128 \<le> uint v)"
    using v b by (simp add: take_bit_int_eq_self)
  finally show ?thesis by auto
qed

subsection \<open>Polling\<close>

text \<open>\<^verbatim>\<open>Poll\<close>, the result of one attempt of an asynchronous operation.\<close>

datatype 'a poll = Pending | Ready 'a

subsection \<open>Regions of an array\<close>

text \<open>
  A Rust slice made by \<^verbatim>\<open>from_raw_parts (ptr.add off, n)\<close> is a region of the array behind
  \<^verbatim>\<open>ptr\<close>: \<open>load_region\<close> reads its elements, \<open>store_region\<close> writes new ones in place.
\<close>

type_synonym region = "nat \<times> nat"

definition load_region :: "'a list \<Rightarrow> region \<Rightarrow> 'a list" where
  "load_region buf r = take (snd r) (drop (fst r) buf)"

definition store_region :: "'a list \<Rightarrow> region \<Rightarrow> 'a list \<Rightarrow> 'a list" where
  "store_region buf r xs = take (fst r) buf @ xs @ drop (fst r + length xs) buf"

definition region_in :: "'a list \<Rightarrow> region \<Rightarrow> bool" where
  "region_in buf r \<longleftrightarrow> fst r + snd r \<le> length buf"

lemma length_load_region:
  "region_in buf r \<Longrightarrow> length (load_region buf r) = snd r"
  by (simp add: load_region_def region_in_def)

lemma nth_load_region:
  "region_in buf r \<Longrightarrow> i < snd r \<Longrightarrow> load_region buf r ! i = buf ! (fst r + i)"
  by (simp add: load_region_def region_in_def)

lemma length_store_region:
  "region_in buf r \<Longrightarrow> length xs = snd r \<Longrightarrow> length (store_region buf r xs) = length buf"
  by (simp add: store_region_def region_in_def)

lemma nth_store_region:
  assumes "region_in buf r" "length xs = snd r" "j < length buf"
  shows "store_region buf r xs ! j =
    (if fst r \<le> j \<and> j < fst r + snd r then xs ! (j - fst r) else buf ! j)"
  using assms by (auto simp: store_region_def region_in_def nth_append)

subsection \<open>Lists\<close>

lemma take_eq_prefix_nth:
  assumes "length ys \<le> length xs" "\<And>i. i < length ys \<Longrightarrow> xs ! i = ys ! i"
  shows "take (length ys) xs = ys"
  using assms by (auto intro: nth_equalityI)

lemma nth_overwrite_prefix:
  assumes "k \<le> length xs" "k \<le> length ys" "d < length ys"
  shows "(take k xs @ drop k ys) ! d = (if d < k then xs ! d else ys ! d)"
  using assms by (simp add: nth_append)

lemma take_min_length [simp]: "take (min (length xs) n) xs = take n xs"
  by (simp add: min_def)

lemma map_filter_append: "List.map_filter f (xs @ ys) = List.map_filter f xs @ List.map_filter f ys"
  by (simp add: List.map_filter_def)

lemma set_map_filter: "y \<in> set (List.map_filter f xs) \<longleftrightarrow> (\<exists>x\<in>set xs. f x = Some y)"
  by (induction xs) (auto simp: List.map_filter_simps split: option.splits)

lemma remove_nth_distinct:
  assumes "distinct xs" "i < length xs"
  shows "set (take i xs @ drop (Suc i) xs) = set xs - {xs ! i}" "distinct (take i xs @ drop (Suc i) xs)"
proof -
  obtain as bs where s: "take i xs = as" "drop (Suc i) xs = bs" "xs = as @ xs ! i # bs"
    using id_take_nth_drop [OF assms(2)] by blast
  have d: "distinct (as @ xs ! i # bs)" using assms(1) s(3) by metis
  have "set xs = set (as @ xs ! i # bs)" using s(3) by metis
  with d show "set (take i xs @ drop (Suc i) xs) = set xs - {xs ! i}"
    "distinct (take i xs @ drop (Suc i) xs)"
    by (auto simp: s(1,2))
qed

lemma mod_add_less_twice:
  "(r::nat) < N \<Longrightarrow> i < N \<Longrightarrow> (r + i) mod N = (if r + i < N then r + i else r + i - N)"
  by (auto simp: mod_if)

end
