(* ===== verification/Stats.thy ===== *)
theory Stats
  imports Prelude
begin

text \<open>
  The counters of \<^verbatim>\<open>src/stats.rs\<close>: one 32-bit atomic per event, incremented by the tasks and by
  interrupts (\<^verbatim>\<open>fetch_add\<close>, which wraps in both profiles) and read and reset in one atomic step by
  the task that prints them (\<^verbatim>\<open>swap(0)\<close>).
\<close>

record stats =
  wifi_packets_received :: u32
  packets_dropped_in_protocol_queue :: u32
  audio_packets_received_on_time :: u32
  audio_packets_received_late :: u32
  audio_packets_received_early :: u32
  stream_hit :: u32
  stream_miss :: u32
  dac_frames_sent :: u32
  dac_underruns :: u32

definition counter_new :: u32 where
  "counter_new = 0"

definition stats_new :: stats where
  "stats_new = \<lparr>wifi_packets_received = counter_new, packets_dropped_in_protocol_queue = counter_new,
     audio_packets_received_on_time = counter_new, audio_packets_received_late = counter_new,
     audio_packets_received_early = counter_new, stream_hit = counter_new, stream_miss = counter_new,
     dac_frames_sent = counter_new, dac_underruns = counter_new\<rparr>"

definition counter_add :: "u32 \<Rightarrow> u32 \<Rightarrow> u32" where
  "counter_add n value = value + n"

definition counter_increment :: "u32 \<Rightarrow> u32" where
  "counter_increment value = counter_add 1 value"

definition counter_take :: "u32 \<Rightarrow> u32 \<times> u32" where
  "counter_take value = (value, 0)"

text \<open>One round of the printing task: every counter is taken, in the order of the output lines.\<close>

definition stats_report :: "stats \<Rightarrow> u32 list \<times> stats" where
  "stats_report s =
     (let (recv, s) = (let (v, c) = counter_take (wifi_packets_received s) in (v, s\<lparr>wifi_packets_received := c\<rparr>));
          (drop, s) = (let (v, c) = counter_take (packets_dropped_in_protocol_queue s)
                       in (v, s\<lparr>packets_dropped_in_protocol_queue := c\<rparr>));
          (on_time, s) = (let (v, c) = counter_take (audio_packets_received_on_time s)
                          in (v, s\<lparr>audio_packets_received_on_time := c\<rparr>));
          (late, s) = (let (v, c) = counter_take (audio_packets_received_late s)
                       in (v, s\<lparr>audio_packets_received_late := c\<rparr>));
          (early, s) = (let (v, c) = counter_take (audio_packets_received_early s)
                        in (v, s\<lparr>audio_packets_received_early := c\<rparr>));
          (hit, s) = (let (v, c) = counter_take (stream_hit s) in (v, s\<lparr>stream_hit := c\<rparr>));
          (miss, s) = (let (v, c) = counter_take (stream_miss s) in (v, s\<lparr>stream_miss := c\<rparr>));
          (frames, s) = (let (v, c) = counter_take (dac_frames_sent s) in (v, s\<lparr>dac_frames_sent := c\<rparr>));
          (underruns, s) = (let (v, c) = counter_take (dac_underruns s) in (v, s\<lparr>dac_underruns := c\<rparr>))
      in ([recv, drop, on_time, late, early, hit, miss, frames, underruns], s))"

lemma stats_report_resets:
  "stats_report s = ([wifi_packets_received s, packets_dropped_in_protocol_queue s,
     audio_packets_received_on_time s, audio_packets_received_late s, audio_packets_received_early s,
     stream_hit s, stream_miss s, dac_frames_sent s, dac_underruns s], stats_new)"
  by (cases s) (simp add: stats_report_def counter_take_def stats_new_def counter_new_def)

text \<open>The life of one counter: additions by any task interleaved with takes by the printing task.\<close>

datatype counter_op = CounterAdd u32 | CounterTake

fun counter_run :: "counter_op list \<Rightarrow> u32 \<Rightarrow> u32 list \<times> u32" where
  "counter_run [] v = ([], v)"
| "counter_run (CounterAdd n # ops) v = counter_run ops (counter_add n v)"
| "counter_run (CounterTake # ops) v =
     (let (t, v') = counter_take v; (ts, v'') = counter_run ops v' in (t # ts, v''))"

fun counter_added :: "counter_op list \<Rightarrow> u32 list" where
  "counter_added [] = []"
| "counter_added (CounterAdd n # ops) = n # counter_added ops"
| "counter_added (CounterTake # ops) = counter_added ops"

text \<open>No event is counted twice or lost between two reports: whatever the interleaving of
  additions and takes, the reported values plus what the counter still holds add up to the initial
  value plus all additions (modulo \<open>2 ^ 32\<close>, the counter's width).\<close>

theorem counter_conservation:
  "sum_list (fst (counter_run ops v)) + snd (counter_run ops v) = v + sum_list (counter_added ops)"
  by (induction ops v rule: counter_run.induct)
    (auto simp: counter_add_def counter_take_def algebra_simps split: prod.splits)

end
