(* ===== verification/PacketQueue.thy ===== *)
theory PacketQueue
  imports Stats
begin

text \<open>
  The packet queue of \<^verbatim>\<open>src/app/queue.rs\<close>: audio packets held by sequence number until they are
  played. The container is the \<^verbatim>\<open>Deque\<close> of the \<^verbatim>\<open>heapless\<close> crate, a parameter of the model:
  \<open>deque_ops\<close> are the operations the code calls and \<open>deque_laws\<close> is what its documentation promises.
  The sequence number in a packet's header is the parameter \<open>seq_of\<close>.
\<close>

subsection \<open>The deque\<close>

record ('q, 'a) deque_ops =
  dq_default :: 'q
  dq_capacity :: nat
  dq_len :: "'q \<Rightarrow> nat"
  dq_push_back :: "'a \<Rightarrow> 'q \<Rightarrow> 'a + 'q"
  dq_pop_front :: "'q \<Rightarrow> 'a option \<times> 'q"
  dq_as_mut_slices :: "'q \<Rightarrow> 'a list \<times> 'a list"
  dq_store :: "bool \<times> nat \<Rightarrow> 'a \<Rightarrow> 'q \<Rightarrow> 'q"

definition MAX_QUEUED_PACKETS :: nat where
  "MAX_QUEUED_PACKETS = 50"

text \<open>
  \<open>dq_store (second, i) x\<close> writes element \<open>i\<close> of the first or the second slice of
  \<^verbatim>\<open>as_mut_slices\<close>. The laws are stated with \<open>items\<close>, the elements from front to back.
\<close>

definition deque_laws :: "('q, 'a) deque_ops \<Rightarrow> ('q \<Rightarrow> 'a list) \<Rightarrow> bool" where
  "deque_laws ops items \<longleftrightarrow>
     dq_capacity ops = MAX_QUEUED_PACKETS \<and> items (dq_default ops) = [] \<and>
     (\<forall>q. dq_len ops q = length (items q)) \<and>
     (\<forall>x q. case dq_push_back ops x q of
        Inl _ \<Rightarrow> dq_capacity ops \<le> length (items q)
      | Inr q' \<Rightarrow> length (items q) < dq_capacity ops \<and> items q' = items q @ [x]) \<and>
     (\<forall>q. case dq_pop_front ops q of
        (None, q') \<Rightarrow> items q = [] \<and> items q' = []
      | (Some x, q') \<Rightarrow> items q = x # items q') \<and>
     (\<forall>q. fst (dq_as_mut_slices ops q) @ snd (dq_as_mut_slices ops q) = items q) \<and>
     (\<forall>q i x. i < length (fst (dq_as_mut_slices ops q)) \<longrightarrow>
        items (dq_store ops (False, i) x q)
          = (fst (dq_as_mut_slices ops q))[i := x] @ snd (dq_as_mut_slices ops q)) \<and>
     (\<forall>q i x. i < length (snd (dq_as_mut_slices ops q)) \<longrightarrow>
        items (dq_store ops (True, i) x q)
          = fst (dq_as_mut_slices ops q) @ (snd (dq_as_mut_slices ops q))[i := x])"

subsection \<open>Operations\<close>

record 'q pq_shared =
  pq_queue :: 'q
  pq_head_seq :: u64

datatype no_slot = InPast | TooFarInFuture

definition pq_new :: "('q, 'a option) deque_ops \<Rightarrow> u64 \<Rightarrow> 'q pq_shared" where
  "pq_new ops start_seq = \<lparr>pq_queue = dq_default ops, pq_head_seq = start_seq\<rparr>"

text \<open>The expansion loop ends when the deque's operations keep their promises; \<open>None\<close> is a loop that does not.\<close>

partial_function (option) pq_expand :: "('q, 'a option) deque_ops \<Rightarrow> nat \<Rightarrow> 'q \<Rightarrow> 'q outcome option" where
  "pq_expand ops idx q =
     (if dq_len ops q \<le> idx then
        (case dq_push_back ops None q of
           Inl _ \<Rightarrow> Some (Panic (ExplicitPanic ''bounds check above implies this push always succeeds''))
         | Inr q' \<Rightarrow> pq_expand ops idx q')
      else Some (Ok q))"

text \<open>
  \<^verbatim>\<open>queue_slot_mut\<close> returns a reference into one of the two slices: which slice and the index in it,
  with the value there. The offset is cast to \<^verbatim>\<open>usize\<close> before it is compared with the capacity.
\<close>

definition queue_slot_mut ::
    "('q, 'a option) deque_ops \<Rightarrow> u64 \<Rightarrow> 'q pq_shared \<Rightarrow>
     ((no_slot + (bool \<times> nat) \<times> 'a option) \<times> 'q pq_shared) outcome option" where
  "queue_slot_mut ops seq shared =
     (case checked_sub seq (pq_head_seq shared) of
        None \<Rightarrow> Some (Ok (Inl InPast, shared))
      | Some offset \<Rightarrow>
          let idx = unat (ucast offset :: usize)
          in if idx \<ge> dq_capacity ops then Some (Ok (Inl TooFarInFuture, shared))
             else map_option (\<lambda>expanded. bind_outcome expanded (\<lambda>q.
               let (s0, s1) = dq_as_mut_slices ops q; shared' = shared\<lparr>pq_queue := q\<rparr>
               in if idx < length s0 then Ok (Inr ((False, idx), s0 ! idx), shared')
                  else if idx - length s0 < length s1
                       then Ok (Inr ((True, idx - length s0), s1 ! (idx - length s0)), shared')
                       else Panic IndexOutOfBounds)) (pq_expand ops idx (pq_queue shared)))"

definition insert_packet ::
    "profile \<Rightarrow> ('q, 'a option) deque_ops \<Rightarrow> ('a \<Rightarrow> u64) \<Rightarrow> 'a \<Rightarrow> 'q pq_shared \<Rightarrow> stats \<Rightarrow>
     ('q pq_shared \<times> stats) outcome option" where
  "insert_packet p ops seq_of packet shared stats =
     (case add_word p (pq_head_seq shared) (of_nat (dq_capacity ops)) of
        Panic e \<Rightarrow> Some (Panic e)
      | Ok tail_seq \<Rightarrow>
          map_option (\<lambda>found. bind_outcome found (\<lambda>(slot, shared').
            case slot of
              Inr (ref, None) \<Rightarrow>
                Ok (shared'\<lparr>pq_queue := dq_store ops ref (Some packet) (pq_queue shared')\<rparr>,
                    stats\<lparr>audio_packets_received_on_time :=
                      counter_increment (audio_packets_received_on_time stats)\<rparr>)
            | Inr (ref, Some _) \<Rightarrow> Ok (shared', stats)
            | Inl InPast \<Rightarrow>
                Ok (shared', stats\<lparr>audio_packets_received_late :=
                      counter_increment (audio_packets_received_late stats)\<rparr>)
            | Inl TooFarInFuture \<Rightarrow>
                Ok (shared', stats\<lparr>audio_packets_received_early :=
                      counter_increment (audio_packets_received_early stats)\<rparr>)))
            (queue_slot_mut ops (seq_of packet) shared))"

definition pq_pop_front ::
    "profile \<Rightarrow> ('q, 'a option) deque_ops \<Rightarrow> 'q pq_shared \<Rightarrow> ('a option \<times> 'q pq_shared) outcome" where
  "pq_pop_front p ops shared =
     bind_outcome (add_word p (pq_head_seq shared) 1) (\<lambda>head.
       let (front, q) = dq_pop_front ops (pq_queue shared)
       in Ok (Option.bind front (\<lambda>x. x), shared\<lparr>pq_queue := q, pq_head_seq := head\<rparr>))"

definition pq_tail_seq :: "profile \<Rightarrow> ('q, 'a option) deque_ops \<Rightarrow> 'q pq_shared \<Rightarrow> u64 outcome" where
  "pq_tail_seq p ops shared = add_word p (pq_head_seq shared) (of_nat (dq_capacity ops))"

subsection \<open>Abstraction\<close>

text \<open>What the queue holds for an offset from the head, and what the deque holds once it is padded.\<close>

definition slot_at :: "'a option list \<Rightarrow> nat \<Rightarrow> 'a option" where
  "slot_at xs i = (if i < length xs then xs ! i else None)"

definition pad_to :: "nat \<Rightarrow> 'a option list \<Rightarrow> 'a option list" where
  "pad_to n xs = xs @ replicate (n - length xs) None"

lemma slot_at_pad [simp]: "slot_at (pad_to n xs) = slot_at xs"
  by (auto simp: slot_at_def pad_to_def nth_append fun_eq_iff)

lemma length_pad_to [simp]: "length (pad_to n xs) = max n (length xs)"
  by (simp add: pad_to_def)

lemma slot_at_update:
  "i < length xs \<Longrightarrow> slot_at (xs[i := x]) = (slot_at xs)(i := x)"
  by (auto simp: slot_at_def fun_eq_iff nth_list_update)

lemma slot_at_tl: "slot_at (tl xs) i = slot_at xs (Suc i)"
  by (cases xs) (auto simp: slot_at_def)

definition pq_wf :: "('q, 'a option) deque_ops \<Rightarrow> ('q \<Rightarrow> 'a option list) \<Rightarrow> 'q pq_shared \<Rightarrow> bool" where
  "pq_wf ops items shared \<longleftrightarrow> length (items (pq_queue shared)) \<le> dq_capacity ops"

lemma pq_expand_spec:
  assumes laws: "deque_laws ops items" and idx: "idx < dq_capacity ops"
  shows "\<exists>q'. pq_expand ops idx q = Some (Ok q') \<and> items q' = pad_to (Suc idx) (items q)"
proof (induction "Suc idx - length (items q)" arbitrary: q)
  case 0
  then have "\<not> dq_len ops q \<le> idx" using laws by (simp add: deque_laws_def)
  then show ?case using 0 by (subst pq_expand.simps) (simp add: pad_to_def)
next
  case (Suc n)
  have len: "dq_len ops q \<le> idx" using laws Suc.hyps(2) by (simp add: deque_laws_def)
  have "case dq_push_back ops None q of
        Inl _ \<Rightarrow> dq_capacity ops \<le> length (items q)
      | Inr q' \<Rightarrow> length (items q) < dq_capacity ops \<and> items q' = items q @ [None]"
    using laws by (simp add: deque_laws_def)
  then obtain q1 where q1: "dq_push_back ops None q = Inr q1" "items q1 = items q @ [None]"
    using Suc.hyps(2) idx by (auto split: sum.splits)
  have "n = Suc idx - length (items q1)" using Suc.hyps(2) q1(2) by simp
  from Suc.hyps(1) [OF this]
  obtain q' where q': "pq_expand ops idx q1 = Some (Ok q')" "items q' = pad_to (Suc idx) (items q1)"
    by blast
  have "pq_expand ops idx q = Some (Ok q')"
    using Suc.hyps(2) q1(1) q'(1) len by (subst pq_expand.simps) (simp add: less_eq_Suc_le)
  moreover have "pad_to (Suc idx) (items q1) = pad_to (Suc idx) (items q)"
    using Suc.hyps(2) q1(2) by (simp add: pad_to_def Suc_diff_le flip: replicate_Suc)
  ultimately show ?case using q'(2) by simp
qed

lemma deque_slices:
  "deque_laws ops items \<Longrightarrow> fst (dq_as_mut_slices ops q) @ snd (dq_as_mut_slices ops q) = items q"
  by (simp add: deque_laws_def)

lemma deque_store:
  assumes "deque_laws ops items" "idx < length (items q)"
  defines "s0 \<equiv> fst (dq_as_mut_slices ops q)" and "s1 \<equiv> snd (dq_as_mut_slices ops q)"
  defines "ref \<equiv> if idx < length s0 then (False, idx) else (True, idx - length s0)"
  shows "items (dq_store ops ref x q) = (items q)[idx := x]"
    and "(if idx < length s0 then s0 ! idx else s1 ! (idx - length s0)) = items q ! idx"
    and "idx < length s0 \<or> idx - length s0 < length s1"
proof -
  have law0: "items (dq_store ops (False, i) x q) = s0[i := x] @ s1" if "i < length s0" for i
    using assms(1) that by (simp add: deque_laws_def s0_def s1_def)
  have law1: "items (dq_store ops (True, i) x q) = s0 @ s1[i := x]" if "i < length s1" for i
    using assms(1) that by (simp add: deque_laws_def s0_def s1_def)
  have sl: "items q = s0 @ s1" using deque_slices [OF assms(1)] by (simp add: s0_def s1_def)
  show "(if idx < length s0 then s0 ! idx else s1 ! (idx - length s0)) = items q ! idx"
    by (simp add: sl nth_append)
  show bound: "idx < length s0 \<or> idx - length s0 < length s1"
    using assms(2) by (auto simp: sl)
  have "items (dq_store ops ref x q) =
      (if idx < length s0 then s0[idx := x] @ s1 else s0 @ s1[idx - length s0 := x])"
    using bound law0 law1 by (auto simp: ref_def)
  then show "items (dq_store ops ref x q) = (items q)[idx := x]"
    by (simp add: sl list_update_append)
qed

lemma unat_offset:
  fixes offset :: u64
  assumes "unat offset < 2 ^ 32"
  shows "unat (ucast offset :: usize) = unat offset"
  using assms by (simp add: unsigned_ucast_eq take_bit_nat_eq_self)

lemma queue_slot_mut_in_window:
  assumes laws: "deque_laws ops items" and offset: "checked_sub seq (pq_head_seq shared) = Some offset"
    and idx: "idx = unat (ucast offset :: usize)" "idx < dq_capacity ops"
  shows "\<exists>ref q'. queue_slot_mut ops seq shared
      = Some (Ok (Inr (ref, slot_at (items (pq_queue shared)) idx), shared\<lparr>pq_queue := q'\<rparr>))
    \<and> items q' = pad_to (Suc idx) (items (pq_queue shared))
    \<and> (\<forall>x. items (dq_store ops ref x q') = (items q')[idx := x])"
proof -
  obtain q' where q': "pq_expand ops idx (pq_queue shared) = Some (Ok q')"
    "items q' = pad_to (Suc idx) (items (pq_queue shared))"
    using pq_expand_spec [OF laws idx(2)] by blast
  obtain s0 s1 where sl: "dq_as_mut_slices ops q' = (s0, s1)" by fastforce
  have len: "idx < length (items q')" using q'(2) by simp
  note st = deque_store [OF laws len, unfolded sl fst_conv snd_conv]
  have v: "slot_at (items (pq_queue shared)) idx = items q' ! idx"
    using len slot_at_pad [of "Suc idx" "items (pq_queue shared)"] q'(2) by (metis slot_at_def)
  show ?thesis
  proof (cases "idx < length s0")
    case True
    then have "queue_slot_mut ops seq shared
      = Some (Ok (Inr ((False, idx), slot_at (items (pq_queue shared)) idx), shared\<lparr>pq_queue := q'\<rparr>))"
      using idx offset q'(1) sl st(2) v by (simp add: queue_slot_mut_def Let_def)
    then show ?thesis using q'(2) st(1) True by auto
  next
    case False
    then have "queue_slot_mut ops seq shared
      = Some (Ok (Inr ((True, idx - length s0), slot_at (items (pq_queue shared)) idx), shared\<lparr>pq_queue := q'\<rparr>))"
      using idx offset q'(1) sl st(2,3) v by (simp add: queue_slot_mut_def Let_def)
    then show ?thesis using q'(2) st(1) False by auto
  qed
qed

subsection \<open>The abstract queue\<close>

text \<open>
  The specification: the sequence number played next and the packets held by their sequence number.
  A packet is accepted when its number is in the window of \<open>MAX_QUEUED_PACKETS\<close> from the next one on
  and no packet with its number is held.
\<close>

record 'a play_queue =
  next_seq :: nat
  held :: "nat \<Rightarrow> 'a option"

datatype verdict = OnTime | Duplicate | Late | Early

definition play_insert :: "('a \<Rightarrow> u64) \<Rightarrow> 'a \<Rightarrow> 'a play_queue \<Rightarrow> verdict \<times> 'a play_queue" where
  "play_insert seq_of packet pq =
     (let s = unat (seq_of packet)
      in if s < next_seq pq then (Late, pq)
         else if next_seq pq + MAX_QUEUED_PACKETS \<le> s then (Early, pq)
         else if held pq s \<noteq> None then (Duplicate, pq)
         else (OnTime, pq\<lparr>held := (held pq)(s := Some packet)\<rparr>))"

definition play_pop :: "'a play_queue \<Rightarrow> 'a option \<times> 'a play_queue" where
  "play_pop pq =
     (held pq (next_seq pq), pq\<lparr>next_seq := Suc (next_seq pq), held := (held pq)(next_seq pq := None)\<rparr>)"

fun count_verdict :: "verdict \<Rightarrow> stats \<Rightarrow> stats" where
  "count_verdict OnTime s = s\<lparr>audio_packets_received_on_time := audio_packets_received_on_time s + 1\<rparr>"
| "count_verdict Duplicate s = s"
| "count_verdict Late s = s\<lparr>audio_packets_received_late := audio_packets_received_late s + 1\<rparr>"
| "count_verdict Early s = s\<lparr>audio_packets_received_early := audio_packets_received_early s + 1\<rparr>"

definition pq_abs :: "('q \<Rightarrow> 'a option list) \<Rightarrow> 'q pq_shared \<Rightarrow> 'a play_queue" where
  "pq_abs items shared =
     \<lparr>next_seq = unat (pq_head_seq shared),
      held = (\<lambda>s. if s < unat (pq_head_seq shared) then None
                  else slot_at (items (pq_queue shared)) (s - unat (pq_head_seq shared)))\<rparr>"

lemma pq_abs_new:
  "deque_laws ops items \<Longrightarrow> pq_abs items (pq_new ops start_seq) = \<lparr>next_seq = unat start_seq, held = (\<lambda>_. None)\<rparr>
    \<and> pq_wf ops items (pq_new ops start_seq)"
  by (auto simp: pq_abs_def pq_new_def deque_laws_def slot_at_def pq_wf_def)

lemma insert_packet_refines:
  assumes laws: "deque_laws ops items" and wf: "pq_wf ops items shared"
    and head: "unat (pq_head_seq shared) + MAX_QUEUED_PACKETS < 2 ^ 64"
    and near: "unat (seq_of packet) < unat (pq_head_seq shared) + 2 ^ 32"
  shows "\<exists>shared'. insert_packet p ops seq_of packet shared stats
      = Some (Ok (shared', count_verdict (fst (play_insert seq_of packet (pq_abs items shared))) stats))
    \<and> pq_abs items shared' = snd (play_insert seq_of packet (pq_abs items shared))
    \<and> pq_wf ops items shared' \<and> pq_head_seq shared' = pq_head_seq shared"
proof -
  let ?h = "unat (pq_head_seq shared)" and ?s = "unat (seq_of packet)"
  have cap: "dq_capacity ops = MAX_QUEUED_PACKETS" using laws by (simp add: deque_laws_def)
  have tail: "\<exists>t. add_word p (pq_head_seq shared) (of_nat (dq_capacity ops)) = Ok t"
    using head by (simp add: cap add_word_def MAX_QUEUED_PACKETS_def)
  show ?thesis
  proof (cases "?s < ?h")
    case True
    then have "checked_sub (seq_of packet) (pq_head_seq shared) = None"
      by (simp add: checked_sub_def word_le_nat_alt)
    then show ?thesis using tail True wf
      by (auto simp: insert_packet_def queue_slot_mut_def play_insert_def Let_def pq_abs_def
          counter_increment_def counter_add_def add.commute)
  next
    case False
    then obtain offset where off: "checked_sub (seq_of packet) (pq_head_seq shared) = Some offset"
      "unat offset = ?s - ?h"
      by (simp add: checked_sub_def word_le_nat_alt unat_sub)
    have idx: "unat (ucast offset :: usize) = ?s - ?h"
      using unat_offset [of offset] off(2) near False by simp
    show ?thesis
    proof (cases "?h + MAX_QUEUED_PACKETS \<le> ?s")
      case True
      then have "dq_capacity ops \<le> unat (ucast offset :: usize)" using idx cap by simp
      then show ?thesis using tail True False wf off(1)
        by (auto simp: insert_packet_def queue_slot_mut_def play_insert_def Let_def pq_abs_def
            counter_increment_def counter_add_def add.commute)
    next
      case in_window: False
      then have "?s - ?h < dq_capacity ops" using False cap by simp
      from queue_slot_mut_in_window [OF laws off(1) idx [symmetric] this]
      obtain ref q' where slot: "queue_slot_mut ops (seq_of packet) shared
          = Some (Ok (Inr (ref, slot_at (items (pq_queue shared)) (?s - ?h)), shared\<lparr>pq_queue := q'\<rparr>))"
        "items q' = pad_to (Suc (?s - ?h)) (items (pq_queue shared))"
        "\<And>x. items (dq_store ops ref x q') = (items q')[?s - ?h := x]" by blast
      have len: "length (items q') \<le> dq_capacity ops" "?s - ?h < length (items q')"
        using slot(2) wf in_window False cap by (auto simp: pq_wf_def)
      have same: "pq_abs items (shared\<lparr>pq_queue := q'\<rparr>) = pq_abs items shared"
        by (auto simp: pq_abs_def slot(2) fun_eq_iff)
      have held: "held (pq_abs items shared) ?s = slot_at (items (pq_queue shared)) (?s - ?h)"
        "next_seq (pq_abs items shared) = ?h"
        using False by (simp_all add: pq_abs_def)
      show ?thesis
      proof (cases "slot_at (items (pq_queue shared)) (?s - ?h)")
        case (Some old)
        then have "play_insert seq_of packet (pq_abs items shared) = (Duplicate, pq_abs items shared)"
          using held False in_window by (simp add: play_insert_def Let_def)
        then show ?thesis using tail slot(1) Some same len(1)
          by (auto simp: insert_packet_def pq_wf_def)
      next
        case None
        let ?q'' = "dq_store ops ref (Some packet) q'"
        have "play_insert seq_of packet (pq_abs items shared)
            = (OnTime, (pq_abs items shared)\<lparr>held := (held (pq_abs items shared))(?s := Some packet)\<rparr>)"
          using held False in_window None by (simp add: play_insert_def Let_def)
        moreover have "pq_abs items (shared\<lparr>pq_queue := ?q''\<rparr>)
            = (pq_abs items shared)\<lparr>held := (held (pq_abs items shared))(?s := Some packet)\<rparr>"
          using len(2) False by (auto simp: pq_abs_def slot(2,3) slot_at_update fun_eq_iff)
        ultimately show ?thesis using tail slot(1,3) None len(1)
          by (auto simp: insert_packet_def pq_wf_def counter_increment_def counter_add_def add.commute)
      qed
    qed
  qed
qed

text \<open>Whatever the packet, the call returns, and the deque stays within its capacity.\<close>

lemma insert_packet_total:
  assumes laws: "deque_laws ops items" and wf: "pq_wf ops items shared"
  shows "(\<exists>e. insert_packet p ops seq_of packet shared stats = Some (Panic e))
    \<or> (\<exists>shared' stats'. insert_packet p ops seq_of packet shared stats = Some (Ok (shared', stats'))
        \<and> pq_wf ops items shared')"
proof (cases "add_word p (pq_head_seq shared) (of_nat (dq_capacity ops))")
  case (Panic e)
  then show ?thesis by (simp add: insert_packet_def)
next
  case (Ok tail)
  show ?thesis
  proof (cases "checked_sub (seq_of packet) (pq_head_seq shared)")
    case None
    then show ?thesis using Ok wf by (simp add: insert_packet_def queue_slot_mut_def)
  next
    case (Some offset)
    define idx where "idx = unat (ucast offset :: usize)"
    show ?thesis
    proof (cases "idx < dq_capacity ops")
      case False
      then show ?thesis using Ok Some wf
        by (simp add: insert_packet_def queue_slot_mut_def Let_def idx_def)
    next
      case True
      from queue_slot_mut_in_window [OF laws Some idx_def True]
      obtain ref q' where slot: "queue_slot_mut ops (seq_of packet) shared
          = Some (Ok (Inr (ref, slot_at (items (pq_queue shared)) idx), shared\<lparr>pq_queue := q'\<rparr>))"
        "items q' = pad_to (Suc idx) (items (pq_queue shared))"
        "\<And>x. items (dq_store ops ref x q') = (items q')[idx := x]" by blast
      have "length (items q') \<le> dq_capacity ops" using slot(2) True wf by (simp add: pq_wf_def)
      then show ?thesis using Ok slot(1,3)
        by (cases "slot_at (items (pq_queue shared)) idx") (simp_all add: insert_packet_def pq_wf_def)
    qed
  qed
qed

lemma pop_front_total:
  assumes laws: "deque_laws ops items" and wf: "pq_wf ops items shared"
  shows "(\<exists>e. pq_pop_front p ops shared = Panic e)
    \<or> (\<exists>out shared'. pq_pop_front p ops shared = Ok (out, shared') \<and> pq_wf ops items shared')"
proof -
  obtain front q' where pop: "dq_pop_front ops (pq_queue shared) = (front, q')" by fastforce
  have "case dq_pop_front ops (pq_queue shared) of
        (None, q') \<Rightarrow> items (pq_queue shared) = [] \<and> items q' = []
      | (Some x, q') \<Rightarrow> items (pq_queue shared) = x # items q'"
    using laws by (simp add: deque_laws_def)
  then have "length (items q') \<le> dq_capacity ops"
    using pop wf by (auto simp: pq_wf_def split: option.splits)
  then show ?thesis
    by (cases "add_word p (pq_head_seq shared) 1") (auto simp: pq_pop_front_def pop pq_wf_def)
qed

lemma pop_front_refines:
  assumes laws: "deque_laws ops items" and wf: "pq_wf ops items shared"
    and head: "unat (pq_head_seq shared) + 1 < 2 ^ 64"
  shows "\<exists>shared'. pq_pop_front p ops shared = Ok (fst (play_pop (pq_abs items shared)), shared')
    \<and> pq_abs items shared' = snd (play_pop (pq_abs items shared))
    \<and> pq_wf ops items shared' \<and> unat (pq_head_seq shared') = Suc (unat (pq_head_seq shared))"
proof -
  obtain front q' where pop: "dq_pop_front ops (pq_queue shared) = (front, q')" by fastforce
  have "case dq_pop_front ops (pq_queue shared) of
        (None, q') \<Rightarrow> items (pq_queue shared) = [] \<and> items q' = []
      | (Some x, q') \<Rightarrow> items (pq_queue shared) = x # items q'"
    using laws by (simp add: deque_laws_def)
  then have q': "items q' = tl (items (pq_queue shared))"
    "Option.bind front (\<lambda>x. x) = slot_at (items (pq_queue shared)) 0"
    using pop by (auto simp: slot_at_def split: option.splits)
  have add: "add_word p (pq_head_seq shared) 1 = Ok (pq_head_seq shared + 1)"
    using head by (simp add: add_word_def)
  have unat: "unat (pq_head_seq shared + 1) = Suc (unat (pq_head_seq shared))"
    using head by (simp add: unat_word_ariths)
  let ?s' = "shared\<lparr>pq_queue := q', pq_head_seq := pq_head_seq shared + 1\<rparr>"
  have "pq_pop_front p ops shared = Ok (slot_at (items (pq_queue shared)) 0, ?s')"
    by (simp add: pq_pop_front_def add pop q'(2))
  moreover have "play_pop (pq_abs items shared) = (slot_at (items (pq_queue shared)) 0, pq_abs items ?s')"
    by (auto simp: play_pop_def pq_abs_def unat q'(1) slot_at_tl fun_eq_iff Suc_diff_Suc not_less_eq
        less_Suc_eq)
  moreover have "pq_wf ops items ?s'"
    using wf q'(1) by (auto simp: pq_wf_def)
  ultimately show ?thesis using unat by auto
qed

subsection \<open>Runs\<close>

datatype 'a pq_act = Receive 'a | PopFront

fun pq_run ::
    "profile \<Rightarrow> ('q, 'a option) deque_ops \<Rightarrow> ('a \<Rightarrow> u64) \<Rightarrow> 'a pq_act list \<Rightarrow> 'q pq_shared \<Rightarrow> stats \<Rightarrow>
     ('a option list \<times> 'q pq_shared \<times> stats) outcome option" where
  "pq_run p ops seq_of [] shared stats = Some (Ok ([], shared, stats))"
| "pq_run p ops seq_of (Receive packet # acts) shared stats =
     (case insert_packet p ops seq_of packet shared stats of
        None \<Rightarrow> None
      | Some (Panic e) \<Rightarrow> Some (Panic e)
      | Some (Ok (shared', stats')) \<Rightarrow> pq_run p ops seq_of acts shared' stats')"
| "pq_run p ops seq_of (PopFront # acts) shared stats =
     (case pq_pop_front p ops shared of
        Panic e \<Rightarrow> Some (Panic e)
      | Ok (out, shared') \<Rightarrow> map_option (\<lambda>r. bind_outcome r (\<lambda>(outs, s). Ok (out # outs, s)))
          (pq_run p ops seq_of acts shared' stats))"

fun play_run :: "('a \<Rightarrow> u64) \<Rightarrow> 'a pq_act list \<Rightarrow> 'a play_queue \<Rightarrow> 'a option list" where
  "play_run seq_of [] pq = []"
| "play_run seq_of (Receive packet # acts) pq = play_run seq_of acts (snd (play_insert seq_of packet pq))"
| "play_run seq_of (PopFront # acts) pq = fst (play_pop pq) # play_run seq_of acts (snd (play_pop pq))"

fun pops :: "'a pq_act list \<Rightarrow> nat" where
  "pops [] = 0"
| "pops (Receive _ # acts) = pops acts"
| "pops (PopFront # acts) = Suc (pops acts)"

definition received :: "'a pq_act list \<Rightarrow> 'a set" where
  "received acts = {packet. Receive packet \<in> set acts}"

text \<open>
  The first packet with sequence number \<open>s\<close> to arrive while \<open>s\<close> is in the window, with \<open>head\<close> the
  number played next: what ought to be played at position \<open>s\<close>.
\<close>

fun first_arrival :: "('a \<Rightarrow> u64) \<Rightarrow> nat \<Rightarrow> nat \<Rightarrow> 'a pq_act list \<Rightarrow> 'a option" where
  "first_arrival seq_of head s [] = None"
| "first_arrival seq_of head s (Receive packet # acts) =
     (if unat (seq_of packet) = s \<and> head \<le> s \<and> s < head + MAX_QUEUED_PACKETS then Some packet
      else first_arrival seq_of head s acts)"
| "first_arrival seq_of head s (PopFront # acts) =
     (if s = head then None else first_arrival seq_of (Suc head) s acts)"

lemma length_play_run: "length (play_run seq_of acts pq) = pops acts"
  by (induction seq_of acts pq rule: play_run.induct) auto

lemma play_run_first_arrival:
  assumes "k < pops acts"
  shows "play_run seq_of acts pq ! k = (case held pq (next_seq pq + k) of
      Some packet \<Rightarrow> Some packet
    | None \<Rightarrow> first_arrival seq_of (next_seq pq) (next_seq pq + k) acts)"
  using assms
proof (induction seq_of acts pq arbitrary: k rule: play_run.induct)
  case (1 seq_of pq)
  then show ?case by simp
next
  case (2 seq_of packet acts pq)
  then show ?case
    by (auto simp: play_insert_def Let_def split: option.splits)
next
  case (3 seq_of acts pq)
  show ?case
  proof (cases k)
    case 0
    then show ?thesis by (simp add: play_pop_def split: option.splits)
  next
    case (Suc j)
    then show ?thesis using "3.IH" [of j] "3.prems" by (simp add: play_pop_def split: option.splits)
  qed
qed

lemma pq_run_refines:
  assumes laws: "deque_laws ops items"
  shows "pq_wf ops items shared \<Longrightarrow> base \<le> unat (pq_head_seq shared) \<Longrightarrow>
    unat (pq_head_seq shared) + pops acts + MAX_QUEUED_PACKETS < 2 ^ 64 \<Longrightarrow>
    \<forall>packet\<in>received acts. unat (seq_of packet) < base + 2 ^ 32 \<Longrightarrow>
    \<exists>shared' stats'. pq_run p ops seq_of acts shared stats
      = Some (Ok (play_run seq_of acts (pq_abs items shared), shared', stats'))"
proof (induction acts arbitrary: shared stats)
  case Nil
  then show ?case by simp
next
  case (Cons act acts)
  show ?case
  proof (cases act)
    case (Receive packet)
    have "unat (pq_head_seq shared) + MAX_QUEUED_PACKETS < 2 ^ 64"
      "unat (seq_of packet) < unat (pq_head_seq shared) + 2 ^ 32"
      using Cons.prems by (auto simp: Receive received_def)
    from insert_packet_refines [where seq_of = seq_of, OF laws Cons.prems(1) this, of p stats]
    obtain shared1 stats1 where s1: "insert_packet p ops seq_of packet shared stats = Some (Ok (shared1, stats1))"
      "pq_abs items shared1 = snd (play_insert seq_of packet (pq_abs items shared))"
      "pq_wf ops items shared1" "pq_head_seq shared1 = pq_head_seq shared" by blast
    have "\<forall>packet\<in>received acts. unat (seq_of packet) < base + 2 ^ 32"
      using Cons.prems(4) by (auto simp: received_def)
    then show ?thesis
      using Cons.IH [OF s1(3)] Cons.prems(2,3) s1(1,2,4) by (simp add: Receive)
  next
    case PopFront
    have "unat (pq_head_seq shared) + 1 < 2 ^ 64"
      using Cons.prems(3) by (simp add: PopFront MAX_QUEUED_PACKETS_def)
    from pop_front_refines [OF laws Cons.prems(1) this, of p]
    obtain shared1 where s1: "pq_pop_front p ops shared = Ok (fst (play_pop (pq_abs items shared)), shared1)"
      "pq_abs items shared1 = snd (play_pop (pq_abs items shared))"
      "pq_wf ops items shared1" "unat (pq_head_seq shared1) = Suc (unat (pq_head_seq shared))" by blast
    have "\<forall>packet\<in>received acts. unat (seq_of packet) < base + 2 ^ 32"
      using Cons.prems(4) by (auto simp: received_def)
    then obtain shared' stats' where "pq_run p ops seq_of acts shared1 stats
        = Some (Ok (play_run seq_of acts (pq_abs items shared1), shared', stats'))"
      using Cons.IH [OF s1(3), of stats] Cons.prems(2,3) s1(4) by (auto simp: PopFront)
    then show ?thesis using s1(1,2) by (simp add: PopFront)
  qed
qed

subsection \<open>A deque that keeps the laws\<close>

text \<open>An array-backed deque splits its elements where the buffer wraps; here the first slice has one element.\<close>

definition list_deque :: "('a list, 'a) deque_ops" where
  "list_deque = \<lparr>dq_default = [], dq_capacity = 50, dq_len = length,
     dq_push_back = (\<lambda>x q. if length q < 50 then Inr (q @ [x]) else Inl x),
     dq_pop_front = (\<lambda>q. case q of [] \<Rightarrow> (None, []) | x # xs \<Rightarrow> (Some x, xs)),
     dq_as_mut_slices = (\<lambda>q. (take 1 q, drop 1 q)),
     dq_store = (\<lambda>(second, i) x q. q[if second then Suc i else i := x])\<rparr>"

lemma list_deque_laws: "deque_laws list_deque (\<lambda>q. q)"
proof -
  have "(take 1 q)[i := x] @ drop 1 q = q[i := x]" if "i < length (take 1 q)" for q :: "'a list" and i x
    using that by (cases q) auto
  moreover have "take 1 q @ (drop 1 q)[i := x] = q[Suc i := x]" for q :: "'a list" and i x
    by (cases q) auto
  ultimately show ?thesis
    unfolding deque_laws_def list_deque_def MAX_QUEUED_PACKETS_def
    by (auto split: list.splits)
qed

subsection \<open>Properties\<close>

text \<open>C6: \<^verbatim>\<open>insert_packet\<close> implements the abstract queue: it returns, the slot loop included, keeps the
  deque within its capacity, files the packet under its sequence number exactly when that number is in
  the window and free (the first of two duplicates stays), and counts on-time, late and early packets
  accordingly. This needs the window not to pass the end of the 64-bit numbers, and the packet to be
  less than \<open>2 ^ 32\<close> ahead.\<close>

theorem insert_packet_implements_window:
  assumes "deque_laws ops items" "pq_wf ops items shared"
    and "unat (pq_head_seq shared) + MAX_QUEUED_PACKETS < 2 ^ 64"
    and "unat (seq_of packet) < unat (pq_head_seq shared) + 2 ^ 32"
  shows "\<exists>shared'. insert_packet p ops seq_of packet shared stats
      = Some (Ok (shared', count_verdict (fst (play_insert seq_of packet (pq_abs items shared))) stats))
    \<and> pq_abs items shared' = snd (play_insert seq_of packet (pq_abs items shared))
    \<and> pq_wf ops items shared' \<and> pq_head_seq shared' = pq_head_seq shared"
  by (rule insert_packet_refines [where seq_of = seq_of, OF assms])

theorem insert_packet_implements_window_witness:
  "\<exists>shared'. insert_packet Dev list_deque fst (107 :: u64, ''b'') \<lparr>pq_queue = [None, Some (106, ''a'')], pq_head_seq = 105\<rparr> stats_new
      = Some (Ok (shared', count_verdict OnTime stats_new)) \<and> pq_head_seq shared' = 105"
  using insert_packet_implements_window [OF list_deque_laws,
      of "\<lparr>pq_queue = [None, Some (106 :: u64, ''a'')], pq_head_seq = 105\<rparr>" fst "(107, ''b'')" Dev stats_new]
  by (auto simp: pq_wf_def list_deque_def MAX_QUEUED_PACKETS_def play_insert_def pq_abs_def slot_at_def)

text \<open>Playback is in sequence order without gaps in time: whatever the arrivals and pops, the \<open>k\<close>-th
  pop gives the first packet with number \<open>start + k\<close> that arrived while that number was in the window,
  and nothing when there was none. In particular no packet is played twice or out of order.\<close>

theorem playback_is_first_arrival:
  assumes "deque_laws ops items"
    and "unat start_seq + pops acts + MAX_QUEUED_PACKETS < 2 ^ 64"
    and "\<forall>packet\<in>received acts. unat (seq_of packet) < unat start_seq + 2 ^ 32"
  shows "\<exists>outs shared' stats'. pq_run p ops seq_of acts (pq_new ops start_seq) stats
      = Some (Ok (outs, shared', stats')) \<and> length outs = pops acts
    \<and> (\<forall>k<pops acts. outs ! k = first_arrival seq_of (unat start_seq) (unat start_seq + k) acts)"
proof -
  have new: "pq_abs items (pq_new ops start_seq) = \<lparr>next_seq = unat start_seq, held = (\<lambda>_. None)\<rparr>"
    "pq_wf ops items (pq_new ops start_seq)"
    using pq_abs_new [OF assms(1)] by auto
  have head: "pq_head_seq (pq_new ops start_seq) = start_seq" by (simp add: pq_new_def)
  obtain shared' stats' where "pq_run p ops seq_of acts (pq_new ops start_seq) stats
      = Some (Ok (play_run seq_of acts \<lparr>next_seq = unat start_seq, held = (\<lambda>_. None)\<rparr>, shared', stats'))"
    using pq_run_refines [OF assms(1) new(2), of "unat start_seq" acts seq_of p stats] assms(2,3) new(1) head
    by auto
  then show ?thesis by (simp add: length_play_run play_run_first_arrival)
qed

definition example_acts :: "(u64 \<times> string) pq_act list" where
  "example_acts = [Receive (8, ''second''), Receive (7, ''first''), PopFront, Receive (7, ''late''),
     Receive (8, ''copy''), PopFront, PopFront, Receive (70, ''early'')]"

theorem playback_is_first_arrival_witness:
  "\<exists>outs shared' stats'. pq_run Dev list_deque fst example_acts (pq_new list_deque 7) stats_new
      = Some (Ok (outs, shared', stats')) \<and> outs = [Some (7, ''first''), Some (8, ''second''), None]"
proof -
  have "unat (7 :: u64) + pops example_acts + MAX_QUEUED_PACKETS < 2 ^ 64"
    "\<forall>packet\<in>received example_acts. unat (fst packet) < unat (7 :: u64) + 2 ^ 32"
    by (auto simp: example_acts_def MAX_QUEUED_PACKETS_def received_def)
  from playback_is_first_arrival [OF list_deque_laws this, of Dev stats_new]
  obtain outs shared' stats' where run: "pq_run Dev list_deque fst example_acts (pq_new list_deque 7) stats_new
      = Some (Ok (outs, shared', stats'))" "length outs = 3"
    and out: "\<forall>k<3. outs ! k = first_arrival fst 7 (7 + k) example_acts"
    by (auto simp: example_acts_def)
  have "outs = [outs ! 0, outs ! 1, outs ! 2]"
    using run(2) by (auto simp: numeral_3_eq_3 length_Suc_conv)
  also have "\<dots> = [Some (7, ''first''), Some (8, ''second''), None]"
    using out by (simp add: example_acts_def MAX_QUEUED_PACKETS_def)
  finally show ?thesis using run(1) by blast
qed

text \<open>C35: the offset of a packet from the head is cut to 32 bits before it is compared with the capacity,
  so a packet more than \<open>2 ^ 32\<close> ahead is not rejected as too early: it is filed, and counted on time,
  under the number that lies its offset modulo \<open>2 ^ 32\<close> from the head.\<close>

theorem far_future_packet_is_accepted:
  assumes laws: "deque_laws ops items" and wf: "pq_wf ops items shared"
    and head: "unat (pq_head_seq shared) + MAX_QUEUED_PACKETS < 2 ^ 64"
    and ahead: "unat (seq_of packet) = unat (pq_head_seq shared) + 2 ^ 32 * m + i" "i < MAX_QUEUED_PACKETS"
    and free: "held (pq_abs items shared) (unat (pq_head_seq shared) + i) = None"
  shows "\<exists>shared'. insert_packet p ops seq_of packet shared stats
      = Some (Ok (shared', count_verdict OnTime stats))
    \<and> held (pq_abs items shared') (unat (pq_head_seq shared) + i) = Some packet"
proof -
  let ?h = "unat (pq_head_seq shared)"
  have cap: "dq_capacity ops = MAX_QUEUED_PACKETS" using laws by (simp add: deque_laws_def)
  have tail: "\<exists>t. add_word p (pq_head_seq shared) (of_nat (dq_capacity ops)) = Ok t"
    using head by (simp add: cap add_word_def MAX_QUEUED_PACKETS_def)
  obtain offset where off: "checked_sub (seq_of packet) (pq_head_seq shared) = Some offset"
    "unat offset = 2 ^ 32 * m + i"
    using ahead(1) by (simp add: checked_sub_def word_le_nat_alt unat_sub)
  have idx: "i = unat (ucast offset :: usize)"
    using off(2) ahead(2) by (simp add: unsigned_ucast_eq take_bit_eq_mod MAX_QUEUED_PACKETS_def)
  have "i < dq_capacity ops" using ahead(2) cap by simp
  from queue_slot_mut_in_window [OF laws off(1) idx this]
  obtain ref q' where slot: "queue_slot_mut ops (seq_of packet) shared
      = Some (Ok (Inr (ref, slot_at (items (pq_queue shared)) i), shared\<lparr>pq_queue := q'\<rparr>))"
    "items q' = pad_to (Suc i) (items (pq_queue shared))"
    "\<And>x. items (dq_store ops ref x q') = (items q')[i := x]" by blast
  have "slot_at (items (pq_queue shared)) i = None" using free by (simp add: pq_abs_def)
  then have "insert_packet p ops seq_of packet shared stats
      = Some (Ok (shared\<lparr>pq_queue := dq_store ops ref (Some packet) q'\<rparr>, count_verdict OnTime stats))"
    using tail slot(1) by (auto simp: insert_packet_def counter_increment_def counter_add_def add.commute)
  moreover have "held (pq_abs items (shared\<lparr>pq_queue := dq_store ops ref (Some packet) q'\<rparr>)) (?h + i) = Some packet"
    by (simp add: pq_abs_def slot(2,3) slot_at_def)
  ultimately show ?thesis by blast
qed

theorem far_future_packet_is_accepted_witness:
  "\<exists>shared'. insert_packet Release list_deque (\<lambda>s. s) (4294967303 :: u64) \<lparr>pq_queue = [], pq_head_seq = 5\<rparr> stats_new
      = Some (Ok (shared', count_verdict OnTime stats_new))
    \<and> held (pq_abs (\<lambda>q. q) shared') (unat (5 :: u64) + 2) = Some 4294967303"
  using far_future_packet_is_accepted [OF list_deque_laws, of "\<lparr>pq_queue = [], pq_head_seq = 5\<rparr>"
      "\<lambda>s. s" 4294967303 1 2 Release stats_new]
  by (simp add: pq_wf_def pq_abs_def slot_at_def MAX_QUEUED_PACKETS_def)

text \<open>Near the end of the 64-bit numbers the unused \<^verbatim>\<open>tail_seq\<close> still overflows: in the \<^verbatim>\<open>dev\<close>
  profile every packet that arrives then panics, whatever its own number.\<close>

theorem insert_packet_panics_near_end:
  assumes "deque_laws ops items" "2 ^ 64 \<le> unat (pq_head_seq shared) + MAX_QUEUED_PACKETS"
  shows "insert_packet Dev ops seq_of packet shared stats = Some (Panic ArithmeticOverflow)"
proof -
  have "dq_capacity ops = MAX_QUEUED_PACKETS" using assms(1) by (simp add: deque_laws_def)
  then show ?thesis using assms(2) by (simp add: insert_packet_def add_word_def MAX_QUEUED_PACKETS_def)
qed

theorem insert_packet_panics_near_end_witness:
  "insert_packet Dev list_deque (\<lambda>s. s) 3 (pq_new list_deque 18446744073709551600) stats_new = Some (Panic ArithmeticOverflow)"
  by (rule insert_packet_panics_near_end [OF list_deque_laws])
    (simp add: pq_new_def MAX_QUEUED_PACKETS_def)

end
