(* ===== verification/Heap.thy ===== *)
theory Heap
  imports Prelude
begin

text \<open>
  The allocator and its two owning pointers (\<^verbatim>\<open>src/system/heap.rs\<close>, \<^verbatim>\<open>heap/boxed.rs\<close>,
  \<^verbatim>\<open>heap/arc.rs\<close>). The memory is a store from addresses to values; the C library's \<^verbatim>\<open>malloc\<close> is
  the parameter \<open>malloc\<close>, which gives the address for a size (0 is null). An access to an address
  that holds no live value is undefined behaviour in the code; here it is \<^const>\<open>None\<close>, so that a proof
  that an operation gives \<^const>\<open>Some\<close> is a proof that it touches live memory only.
\<close>

subsection \<open>The allocator\<close>

datatype malloc_error = MallocError nat

text \<open>The address of the static that stands for allocations of no bytes.\<close>

definition SENTINEL :: nat where
  "SENTINEL = 1"

definition system_alloc :: "(nat \<Rightarrow> nat) \<Rightarrow> nat \<Rightarrow> nat" where
  "system_alloc malloc sz =
     (if sz < 2 ^ 32 then (if sz = 0 then SENTINEL else malloc sz) else 0)"

definition alloc_layout :: "(nat \<Rightarrow> nat) \<Rightarrow> nat \<Rightarrow> malloc_error + nat" where
  "alloc_layout malloc sz =
     (let ptr = system_alloc malloc sz in if ptr = 0 then Inl (MallocError sz) else Inr ptr)"

type_synonym 'a store = "nat \<Rightarrow> 'a option"

definition free_layout :: "nat \<Rightarrow> nat \<Rightarrow> nat list \<Rightarrow> nat list" where
  "free_layout sz ptr frees = (if sz = 0 then frees else frees @ [ptr])"

text \<open>The memory: the live values, and the addresses handed to \<^verbatim>\<open>free\<close> so far.\<close>

record 'a memory =
  mem_live :: "'a store"
  mem_frees :: "nat list"

subsection \<open>Boxes\<close>

definition box_alloc ::
    "(nat \<Rightarrow> nat) \<Rightarrow> nat \<Rightarrow> 'a \<Rightarrow> 'a memory \<Rightarrow> (malloc_error + nat) \<times> 'a memory" where
  "box_alloc malloc sz value m =
     (case alloc_layout malloc sz of
        Inl e \<Rightarrow> (Inl e, m)
      | Inr ptr \<Rightarrow> (Inr ptr, m\<lparr>mem_live := (mem_live m)(ptr \<mapsto> value)\<rparr>))"

definition box_deref :: "nat \<Rightarrow> 'a memory \<Rightarrow> 'a option" where
  "box_deref ptr m = mem_live m ptr"

definition box_deref_mut :: "nat \<Rightarrow> 'a \<Rightarrow> 'a memory \<Rightarrow> 'a memory option" where
  "box_deref_mut ptr value m =
     (if mem_live m ptr = None then None else Some (m\<lparr>mem_live := (mem_live m)(ptr \<mapsto> value)\<rparr>))"

definition drop_free :: "nat \<Rightarrow> nat \<Rightarrow> 'a memory \<Rightarrow> 'a memory option" where
  "drop_free sz ptr m =
     (if mem_live m ptr = None then None
      else Some (m\<lparr>mem_live := (mem_live m)(ptr := None), mem_frees := free_layout sz ptr (mem_frees m)\<rparr>))"

definition box_into_inner :: "nat \<Rightarrow> nat \<Rightarrow> 'a memory \<Rightarrow> ('a \<times> 'a memory) option" where
  "box_into_inner sz ptr m =
     (case mem_live m ptr of
        None \<Rightarrow> None
      | Some inner \<Rightarrow> Some (inner, m\<lparr>mem_live := (mem_live m)(ptr := None),
                                   mem_frees := free_layout sz ptr (mem_frees m)\<rparr>))"

subsection \<open>Shared boxes\<close>

record 'a shared_inner =
  sb_data :: 'a
  sb_refcount :: usize

definition shared_alloc ::
    "(nat \<Rightarrow> nat) \<Rightarrow> nat \<Rightarrow> 'a \<Rightarrow> 'a shared_inner memory \<Rightarrow> (malloc_error + nat) \<times> 'a shared_inner memory" where
  "shared_alloc malloc sz value m = box_alloc malloc sz \<lparr>sb_data = value, sb_refcount = 1\<rparr> m"

definition shared_unique :: "nat \<Rightarrow> 'a shared_inner memory \<Rightarrow> bool option" where
  "shared_unique ptr m = map_option (\<lambda>inner. sb_refcount inner = 1) (box_deref ptr m)"

definition shared_deref :: "nat \<Rightarrow> 'a shared_inner memory \<Rightarrow> 'a option" where
  "shared_deref ptr m = map_option sb_data (box_deref ptr m)"

definition shared_update :: "nat \<Rightarrow> 'a \<Rightarrow> 'a shared_inner memory \<Rightarrow> 'a shared_inner memory option" where
  "shared_update ptr value m =
     Option.bind (box_deref ptr m) (\<lambda>inner. box_deref_mut ptr (inner\<lparr>sb_data := value\<rparr>) m)"

definition shared_clone :: "nat \<Rightarrow> 'a shared_inner memory \<Rightarrow> 'a shared_inner memory option" where
  "shared_clone ptr m =
     Option.bind (box_deref ptr m) (\<lambda>inner.
       box_deref_mut ptr (inner\<lparr>sb_refcount := sb_refcount inner + 1\<rparr>) m)"

definition shared_drop :: "nat \<Rightarrow> nat \<Rightarrow> 'a shared_inner memory \<Rightarrow> 'a shared_inner memory option" where
  "shared_drop sz ptr m =
     Option.bind (box_deref ptr m) (\<lambda>inner.
     Option.bind (box_deref_mut ptr (inner\<lparr>sb_refcount := sb_refcount inner - 1\<rparr>) m) (\<lambda>m'.
       if sb_refcount inner = 1 then drop_free sz ptr m' else Some m'))"

subsection \<open>Counted handles\<close>

text \<open>
  What the reference count promises: as long as \<open>n\<close> handles exist, the value is live, its count is
  \<open>n\<close>, and the memory has not been freed. \<open>counted ptr n m\<close> says so, with \<open>n = 0\<close> once freed.
\<close>

definition counted :: "nat \<Rightarrow> nat \<Rightarrow> 'a shared_inner memory \<Rightarrow> bool" where
  "counted ptr n m \<longleftrightarrow> n < 2 ^ 32 \<and>
     (case mem_live m ptr of None \<Rightarrow> n = 0 | Some inner \<Rightarrow> n = unat (sb_refcount inner) \<and> 0 < n)"

lemma counted_alloc:
  "fst (shared_alloc malloc sz value m) = Inr ptr \<Longrightarrow> counted ptr 1 (snd (shared_alloc malloc sz value m))"
  by (auto simp: shared_alloc_def box_alloc_def counted_def split: sum.splits)

lemma counted_live: "counted ptr n m \<Longrightarrow> 0 < n \<Longrightarrow> \<exists>inner. mem_live m ptr = Some inner"
  by (auto simp: counted_def split: option.splits)

lemma unat_eq_one: "unat w = 1 \<longleftrightarrow> w = 1" for w :: usize
  by (simp add: word_unat_eq_iff)

lemma counted_unique: "counted ptr n m \<Longrightarrow> 0 < n \<Longrightarrow> shared_unique ptr m = Some (n = 1)"
  by (auto simp: counted_def shared_unique_def box_deref_def simp flip: unat_eq_one split: option.splits)

lemma counted_clone:
  assumes "counted ptr n m" "0 < n" "Suc n < 2 ^ 32"
  shows "\<exists>m'. shared_clone ptr m = Some m' \<and> counted ptr (Suc n) m' \<and> shared_deref ptr m' = shared_deref ptr m
    \<and> mem_frees m' = mem_frees m \<and> (\<forall>a. a \<noteq> ptr \<longrightarrow> mem_live m' a = mem_live m a)"
proof -
  obtain inner where inner: "mem_live m ptr = Some inner" "unat (sb_refcount inner) = n"
    using assms(1,2) by (auto simp: counted_def split: option.splits)
  have "unat (sb_refcount inner + 1) = Suc n"
    using assms(3) inner(2) by (simp add: unat_word_ariths)
  then show ?thesis
    using inner(1) assms(3)
    by (simp add: shared_clone_def box_deref_def box_deref_mut_def counted_def shared_deref_def)
qed

lemma counted_drop:
  assumes "counted ptr n m" "0 < n"
  shows "\<exists>m'. shared_drop sz ptr m = Some m' \<and> counted ptr (n - 1) m'
    \<and> (\<forall>a. a \<noteq> ptr \<longrightarrow> mem_live m' a = mem_live m a)
    \<and> (if n = 1 then mem_frees m' = free_layout sz ptr (mem_frees m) \<and> mem_live m' ptr = None
       else mem_frees m' = mem_frees m \<and> shared_deref ptr m' = shared_deref ptr m)"
proof -
  obtain inner where inner: "mem_live m ptr = Some inner" "unat (sb_refcount inner) = n"
    using assms(1,2) by (auto simp: counted_def split: option.splits)
  have one: "sb_refcount inner = 1 \<longleftrightarrow> n = 1" using inner(2) unat_eq_one by blast
  have less: "n < 2 ^ 32" using assms(1) by (simp add: counted_def)
  show ?thesis
  proof (cases "n = 1")
    case True
    then show ?thesis using inner(1) one
      by (simp add: shared_drop_def box_deref_def box_deref_mut_def drop_free_def counted_def)
  next
    case False
    have "unat (sb_refcount inner - 1) = n - 1"
      using inner(2) assms(2) by (simp add: unat_sub word_le_nat_alt)
    then show ?thesis using inner(1) one False less assms(2)
      by (simp add: shared_drop_def box_deref_def box_deref_mut_def counted_def shared_deref_def)
  qed
qed

subsection \<open>Runs of handle operations\<close>

datatype handle_op = CloneHandle | DropHandle

fun handle_run :: "nat \<Rightarrow> nat \<Rightarrow> handle_op list \<Rightarrow> 'a shared_inner memory \<Rightarrow> 'a shared_inner memory option" where
  "handle_run sz ptr [] m = Some m"
| "handle_run sz ptr (CloneHandle # ops) m = Option.bind (shared_clone ptr m) (handle_run sz ptr ops)"
| "handle_run sz ptr (DropHandle # ops) m = Option.bind (shared_drop sz ptr m) (handle_run sz ptr ops)"

text \<open>
  Ownership makes every operation act through a handle that exists: the number of handles, if every
  step of the run has one to act on and it stays in range.
\<close>

fun handles_after :: "nat \<Rightarrow> handle_op list \<Rightarrow> nat option" where
  "handles_after n [] = Some n"
| "handles_after n (CloneHandle # ops) = (if 0 < n \<and> Suc n < 2 ^ 32 then handles_after (Suc n) ops else None)"
| "handles_after n (DropHandle # ops) = (if 0 < n then handles_after (n - 1) ops else None)"

lemma handles_after_0: "handles_after 0 ops = Some k \<Longrightarrow> k = 0 \<and> ops = []"
  by (cases ops rule: list.exhaust; cases "hd ops") auto

lemma handle_run_counted:
  assumes "counted ptr n m" "handles_after n ops = Some k" "sz \<noteq> 0" "0 < n"
  shows "\<exists>m'. handle_run sz ptr ops m = Some m' \<and> counted ptr k m'
    \<and> mem_frees m' = mem_frees m @ (if k = 0 then [ptr] else [])
    \<and> (0 < k \<longrightarrow> shared_deref ptr m' = shared_deref ptr m)"
  using assms
proof (induction sz ptr ops m arbitrary: n rule: handle_run.induct)
  case (1 sz ptr m)
  then show ?case by simp
next
  case (2 sz ptr ops m)
  have n: "0 < n" "Suc n < 2 ^ 32" "handles_after (Suc n) ops = Some k"
    using "2.prems"(2) by (auto split: if_splits)
  obtain m1 where m1: "shared_clone ptr m = Some m1" "counted ptr (Suc n) m1"
    "shared_deref ptr m1 = shared_deref ptr m" "mem_frees m1 = mem_frees m"
    using counted_clone [OF "2.prems"(1) n(1,2)] by blast
  show ?case
    using "2.IH" [OF m1(1) m1(2) n(3) "2.prems"(3)] m1 by simp
next
  case (3 sz ptr ops m)
  have n: "handles_after (n - 1) ops = Some k"
    using "3.prems"(2) by (auto split: if_splits)
  obtain m1 where m1: "shared_drop sz ptr m = Some m1" "counted ptr (n - 1) m1"
    "if n = 1 then mem_frees m1 = free_layout sz ptr (mem_frees m) \<and> mem_live m1 ptr = None
     else mem_frees m1 = mem_frees m \<and> shared_deref ptr m1 = shared_deref ptr m"
    using counted_drop [OF "3.prems"(1,4), of sz] by blast
  show ?case
  proof (cases "n = 1")
    case True
    then have "k = 0" "ops = []" using handles_after_0 n by auto
    then show ?thesis using m1 True "3.prems"(3) by (simp add: free_layout_def)
  next
    case False
    then have "0 < n - 1" using "3.prems"(4) by simp
    from "3.IH" [OF m1(1) m1(2) n "3.prems"(3) this] m1 False show ?thesis by simp
  qed
qed

subsection \<open>Properties\<close>

text \<open>A shared value is freed exactly once and never used after: along any interleaving of clones
  and drops of its handles, in which every step acts on a handle that exists, the memory operations
  succeed, the value is there unchanged while a handle is left, and its address is freed once, when
  the last handle goes.\<close>

theorem shared_box_freed_once:
  assumes "fst (shared_alloc malloc sz value m) = Inr ptr" "sz \<noteq> 0" "handles_after 1 ops = Some k"
  shows "\<exists>m'. handle_run sz ptr ops (snd (shared_alloc malloc sz value m)) = Some m'
    \<and> mem_frees m' = mem_frees m @ (if k = 0 then [ptr] else [])
    \<and> (if k = 0 then mem_live m' ptr = None else shared_deref ptr m' = Some value)
    \<and> (0 < k \<longrightarrow> shared_unique ptr m' = Some (k = 1))"
proof -
  let ?m = "snd (shared_alloc malloc sz value m)"
  have m: "mem_frees ?m = mem_frees m" "shared_deref ptr ?m = Some value"
    using assms(1)
    by (auto simp: shared_alloc_def box_alloc_def shared_deref_def box_deref_def split: sum.splits)
  obtain m' where m': "handle_run sz ptr ops ?m = Some m'" "counted ptr k m'"
    "mem_frees m' = mem_frees ?m @ (if k = 0 then [ptr] else [])"
    "0 < k \<longrightarrow> shared_deref ptr m' = shared_deref ptr ?m"
    using handle_run_counted [OF counted_alloc [OF assms(1)] assms(3,2)] by auto
  have "k = 0 \<Longrightarrow> mem_live m' ptr = None"
    using m'(2) by (auto simp: counted_def split: option.splits)
  then show ?thesis using m m' counted_unique [OF m'(2)] by auto
qed

theorem shared_box_freed_once_witness:
  "\<exists>m'. handle_run 16 4096 [CloneHandle, DropHandle, DropHandle]
      (snd (shared_alloc (\<lambda>_. 4096) 16 ''queue'' \<lparr>mem_live = (\<lambda>_. None), mem_frees = []\<rparr>)) = Some m'
    \<and> mem_frees m' = [4096] \<and> mem_live m' 4096 = None"
  using shared_box_freed_once [of "\<lambda>_. 4096" 16 "''queue''" "\<lparr>mem_live = (\<lambda>_. None), mem_frees = []\<rparr>" 4096
      "[CloneHandle, DropHandle, DropHandle]" 0]
  by (simp add: shared_alloc_def box_alloc_def alloc_layout_def system_alloc_def)

end
