(* ===== verification/Timing.thy ===== *)
theory Timing
  imports Prelude "HOL-Library.Multiset"
begin

text \<open>
  The timing estimates of \<^verbatim>\<open>src/app/timing.rs\<close>: the median of the last 64 samples of the network
  latency and of the clock difference. The sample store is the \<^verbatim>\<open>HistoryBuffer\<close> of the
  \<^verbatim>\<open>heapless\<close> crate, a parameter with documented laws; how a clock difference is computed from a
  packet belongs to \<^verbatim>\<open>bark_protocol\<close> and is a parameter too.
\<close>

subsection \<open>Durations\<close>

text \<open>\<^verbatim>\<open>core::time::Duration\<close>: seconds and nanoseconds below a second, ordered as its derived \<^verbatim>\<open>Ord\<close>.\<close>

datatype duration = Duration (dur_secs: u64) (dur_nanos: u32)

definition duration_from_micros :: "u64 \<Rightarrow> duration" where
  "duration_from_micros micros = Duration (micros div 1000000) (ucast (micros mod 1000000) * 1000)"

instantiation duration :: linorder
begin

definition less_eq_duration :: "duration \<Rightarrow> duration \<Rightarrow> bool" where
  "less_eq_duration a b \<longleftrightarrow>
     dur_secs a < dur_secs b \<or> dur_secs a = dur_secs b \<and> dur_nanos a \<le> dur_nanos b"

definition less_duration :: "duration \<Rightarrow> duration \<Rightarrow> bool" where
  "less_duration a b \<longleftrightarrow>
     dur_secs a < dur_secs b \<or> dur_secs a = dur_secs b \<and> dur_nanos a < dur_nanos b"

instance
  by standard (auto simp: less_eq_duration_def less_duration_def duration.expand)

end

definition duration_nanos :: "duration \<Rightarrow> nat" where
  "duration_nanos d = unat (dur_secs d) * 1000000000 + unat (dur_nanos d)"

lemma duration_from_micros_exact:
  "duration_nanos (duration_from_micros m) = unat m * 1000"
  "unat (dur_nanos (duration_from_micros m)) < 1000000000"
proof -
  have r: "unat (m mod 1000000) = unat m mod 1000000" by (simp add: unat_mod)
  have u: "unat (ucast (m mod 1000000) :: u32) = unat m mod 1000000"
    using r by (simp add: unsigned_ucast_eq take_bit_nat_eq_self)
  have n: "unat (ucast (m mod 1000000) * 1000 :: u32) = unat m mod 1000000 * 1000"
    using u by (simp add: unat_word_ariths)
  show "unat (dur_nanos (duration_from_micros m)) < 1000000000"
    by (simp add: duration_from_micros_def n)
  have "unat m div 1000000 * 1000000000 + unat m mod 1000000 * 1000
      = (unat m div 1000000 * 1000000 + unat m mod 1000000) * 1000" by (simp only: distrib_right)
  then show "duration_nanos (duration_from_micros m) = unat m * 1000"
    by (simp add: duration_nanos_def duration_from_micros_def n unat_div)
qed

subsection \<open>Aggregates\<close>

definition SAMPLE_HISTORY :: nat where
  "SAMPLE_HISTORY = 64"

record ('h, 'v) history_ops =
  hb_default :: 'h
  hb_write :: "'v \<Rightarrow> 'h \<Rightarrow> 'h"
  hb_slice :: "'h \<Rightarrow> 'v list"

text \<open>The last \<open>n\<close> elements of a list.\<close>

definition last_n :: "nat \<Rightarrow> 'a list \<Rightarrow> 'a list" where
  "last_n n xs = drop (length xs - n) xs"

text \<open>A write replaces the oldest value of a full buffer; the slice is in no particular order.\<close>

definition history_laws :: "('h, 'v) history_ops \<Rightarrow> bool" where
  "history_laws ops \<longleftrightarrow>
     (\<forall>vs. mset (hb_slice ops (fold (hb_write ops) vs (hb_default ops))) = mset (last_n SAMPLE_HISTORY vs))"

definition observe :: "('h, 'v) history_ops \<Rightarrow> 'v \<Rightarrow> 'h \<Rightarrow> 'h" where
  "observe ops value samples = hb_write ops value samples"

definition median :: "('h, 'v::linorder) history_ops \<Rightarrow> 'h \<Rightarrow> 'v option outcome" where
  "median ops h =
     (let slice = hb_slice ops h
      in if SAMPLE_HISTORY < length slice then Panic UnwrapFailed
         else let samples = sort slice; i = length samples div 2
              in Ok (if i < length samples then Some (samples ! i) else None))"

subsection \<open>The estimates\<close>

record ('h, 'g) timing =
  latency :: 'h
  clock_delta :: 'g

record 'd time_fields =
  stream_1 :: u64
  stream_3 :: u64
  time_delta :: 'd

definition timing_default :: "('h, duration) history_ops \<Rightarrow> ('g, 'd) history_ops \<Rightarrow> ('h, 'g) timing" where
  "timing_default lops dops = \<lparr>latency = hb_default lops, clock_delta = hb_default dops\<rparr>"

definition timing_receive_packet ::
    "('h, duration) history_ops \<Rightarrow> ('g, 'd) history_ops \<Rightarrow> 'd time_fields \<Rightarrow> ('h, 'g) timing \<Rightarrow> ('h, 'g) timing" where
  "timing_receive_packet lops dops packet t =
     (case checked_sub (stream_3 packet) (stream_1 packet) of
        None \<Rightarrow> t
      | Some rtt_usec \<Rightarrow>
          t\<lparr>latency := observe lops (duration_from_micros (rtt_usec div 2)) (latency t),
            clock_delta := observe dops (time_delta packet) (clock_delta t)\<rparr>)"

definition network_latency :: "('h, duration) history_ops \<Rightarrow> ('h, 'g) timing \<Rightarrow> duration option outcome" where
  "network_latency lops t = median lops (latency t)"

definition timing_clock_delta :: "('g, 'd::linorder) history_ops \<Rightarrow> ('h, 'g) timing \<Rightarrow> 'd option outcome" where
  "timing_clock_delta dops t = median dops (clock_delta t)"

subsection \<open>The median\<close>

lemma sorted_count_less:
  "sorted xs \<Longrightarrow> i < length xs \<Longrightarrow> length (filter (\<lambda>x. x < xs ! i) xs) \<le> i"
proof (induction xs arbitrary: i)
  case (Cons x xs)
  show ?case
  proof (cases i)
    case 0
    have "filter (\<lambda>y. y < x) xs = []" using Cons.prems(1) by (auto simp: filter_empty_conv)
    then show ?thesis using 0 by simp
  next
    case (Suc j)
    then show ?thesis using Cons.IH [of j] Cons.prems by auto
  qed
qed simp

lemma sorted_count_greater:
  "sorted xs \<Longrightarrow> i < length xs \<Longrightarrow> length (filter (\<lambda>x. xs ! i < x) xs) \<le> length xs - Suc i"
proof (induction xs arbitrary: i)
  case (Cons x xs)
  show ?case
  proof (cases i)
    case 0
    then show ?thesis by (simp add: le_SucI)
  next
    case (Suc j)
    then have "\<not> xs ! j < x" using Cons.prems by (auto simp: leD)
    then show ?thesis using Suc Cons.IH [of j] Cons.prems by auto
  qed
qed simp

lemma filter_length_mset: "mset xs = mset ys \<Longrightarrow> length (filter P xs) = length (filter P ys)"
  by (metis mset_filter size_mset)

definition is_median :: "'v::linorder \<Rightarrow> 'v list \<Rightarrow> bool" where
  "is_median v xs \<longleftrightarrow> v \<in> set xs \<and> length (filter (\<lambda>x. x < v) xs) \<le> length xs div 2
     \<and> length (filter (\<lambda>x. v < x) xs) \<le> (length xs - 1) div 2"

lemma median_spec:
  assumes "mset (hb_slice ops h) = mset xs" "length xs \<le> SAMPLE_HISTORY"
  shows "case xs of [] \<Rightarrow> median ops h = Ok None
    | _ \<Rightarrow> \<exists>v. median ops h = Ok (Some v) \<and> is_median v xs"
proof (cases "xs = []")
  case True
  then show ?thesis using assms by (simp add: median_def)
next
  case False
  let ?s = "sort (hb_slice ops h)" and ?n = "length xs"
  have n: "length ?s = ?n" "length (hb_slice ops h) = ?n" "0 < ?n"
    using mset_eq_length [OF assms(1)] False by simp_all
  have s: "mset ?s = mset xs" "sorted ?s" using assms(1) by simp_all
  let ?v = "?s ! (?n div 2)"
  have i: "?n div 2 < length ?s" using n by simp
  have "median ops h = Ok (Some ?v)"
    using assms(2) n by (simp add: median_def Let_def)
  moreover have "?v \<in> set xs" using nth_mem [OF i] mset_eq_setD [OF s(1)] by simp
  moreover have "length (filter (\<lambda>x. x < ?v) xs) \<le> ?n div 2"
    using sorted_count_less [OF s(2) i] filter_length_mset [OF s(1), of "\<lambda>x. x < ?v"] by simp
  moreover have "length (filter (\<lambda>x. ?v < x) xs) \<le> (?n - 1) div 2"
    using sorted_count_greater [OF s(2) i] filter_length_mset [OF s(1), of "\<lambda>x. ?v < x"] n by simp
  ultimately show ?thesis using False by (cases xs) (auto simp: is_median_def)
qed

subsection \<open>Properties\<close>

definition latency_samples :: "'d time_fields list \<Rightarrow> duration list" where
  "latency_samples packets =
     List.map_filter (\<lambda>p. if stream_1 p \<le> stream_3 p
       then Some (duration_from_micros ((stream_3 p - stream_1 p) div 2)) else None) packets"

lemma latency_after:
  "latency (fold (timing_receive_packet lops dops) packets t)
    = fold (hb_write lops) (latency_samples packets) (latency t)"
  by (induction packets arbitrary: t)
    (simp_all add: latency_samples_def List.map_filter_simps timing_receive_packet_def checked_sub_def observe_def)

lemma length_last_n: "length (last_n n xs) \<le> n"
  by (simp add: last_n_def)

text \<open>C38: the latency estimate is a median of the recent past: after any time packets it is one of the
  last 64 valid samples, with at most half of them below and less than half of them above; packets
  whose clock ran backwards are ignored, and without a sample there is no estimate.\<close>

theorem network_latency_is_median:
  assumes "history_laws lops"
  defines "recent \<equiv> \<lambda>packets. last_n SAMPLE_HISTORY (latency_samples packets)"
  shows "case recent packets of
      [] \<Rightarrow> network_latency lops (fold (timing_receive_packet lops dops) packets (timing_default lops dops)) = Ok None
    | _ \<Rightarrow> \<exists>v. network_latency lops (fold (timing_receive_packet lops dops) packets (timing_default lops dops))
               = Ok (Some v) \<and> is_median v (recent packets)"
proof -
  let ?h = "latency (fold (timing_receive_packet lops dops) packets (timing_default lops dops))"
  have "mset (hb_slice lops ?h) = mset (recent packets)"
    using assms(1) by (simp add: latency_after timing_default_def history_laws_def recent_def)
  moreover have "length (recent packets) \<le> SAMPLE_HISTORY" by (simp add: recent_def length_last_n)
  ultimately show ?thesis unfolding network_latency_def by (rule median_spec)
qed

definition list_history :: "('v list, 'v) history_ops" where
  "list_history = \<lparr>hb_default = [], hb_write = (\<lambda>v h. h @ [v]), hb_slice = (\<lambda>h. rev (last_n 64 h))\<rparr>"

lemma list_history_laws: "history_laws list_history"
proof -
  have "fold (\<lambda>v h. h @ [v]) vs h = h @ vs" for vs h :: "'a list"
    by (induction vs arbitrary: h) simp_all
  then show ?thesis by (simp add: history_laws_def list_history_def SAMPLE_HISTORY_def)
qed

theorem network_latency_is_median_witness:
  "\<exists>v. network_latency list_history (fold (timing_receive_packet list_history list_history)
      [\<lparr>stream_1 = 10, stream_3 = 30, time_delta = 0 :: int\<rparr>, \<lparr>stream_1 = 50, stream_3 = 40, time_delta = 0\<rparr>]
      (timing_default list_history list_history)) = Ok (Some v)
    \<and> is_median v [duration_from_micros 10]"
  using network_latency_is_median [OF list_history_laws, where dops = list_history
      and packets = "[\<lparr>stream_1 = 10, stream_3 = 30, time_delta = 0 :: int\<rparr>, \<lparr>stream_1 = 50, stream_3 = 40, time_delta = 0\<rparr>]"]
  by (simp add: latency_samples_def List.map_filter_simps last_n_def SAMPLE_HISTORY_def word_le_nat_alt)

text \<open>\<^verbatim>\<open>Duration::from_micros\<close> loses nothing and stays normalised, so the order on durations by which
  the median is taken is the order of the microseconds.\<close>

theorem duration_from_micros_faithful:
  "duration_nanos (duration_from_micros m) = unat m * 1000
    \<and> unat (dur_nanos (duration_from_micros m)) < 1000000000
    \<and> (duration_from_micros m \<le> duration_from_micros n \<longleftrightarrow> m \<le> n)"
proof -
  have le: "d \<le> e \<longleftrightarrow> duration_nanos d \<le> duration_nanos e"
    if "unat (dur_nanos d) < 1000000000" "unat (dur_nanos e) < 1000000000" for d e
    using that by (auto simp: less_eq_duration_def duration_nanos_def word_less_nat_alt word_le_nat_alt
        word_unat_eq_iff)
  show ?thesis
    using duration_from_micros_exact [of m] duration_from_micros_exact [of n]
      le [of "duration_from_micros m" "duration_from_micros n"]
    by (simp add: word_le_nat_alt)
qed

end
