(* ===== verification/Stream.thy ===== *)
theory Stream
  imports PacketQueue Heap Timing
begin

text \<open>
  Streams and their receiver (\<^verbatim>\<open>src/app/stream.rs\<close>, \<^verbatim>\<open>src/app/mod.rs\<close>): audio packets of the newest
  session go to its packet queue, and once enough have arrived a task is started that plays the queue.
  Receiver and task share the queue through a counted handle; the task ends when it holds the last one.

  Parameters: the packet accessors and constants of \<^verbatim>\<open>bark_protocol\<close>, the containers, \<^verbatim>\<open>malloc\<close>, and
  whether FreeRTOS creates a task.
\<close>

subsection \<open>State\<close>

record ('a, 'sid, 'q, 'h, 'g, 'd) app_params =
  ap_seq :: "'a \<Rightarrow> u64"
  ap_sid :: "'a \<Rightarrow> 'sid"
  ap_deque :: "('q, 'a option) deque_ops"
  ap_latency :: "('h, duration) history_ops"
  ap_delta :: "('g, 'd) history_ops"
  ap_queue_bytes :: nat
  ap_sample_rate :: nat
  ap_frames_per_packet :: nat

definition DELAY_START_MS :: nat where
  "DELAY_START_MS = 50"

definition DELAY_START_PACKETS :: "('a, 'sid, 'q, 'h, 'g, 'd) app_params \<Rightarrow> nat" where
  "DELAY_START_PACKETS P = DELAY_START_MS * ap_sample_rate P div 1000 div ap_frames_per_packet P"

datatype buffer_start = ReceivingPackets nat | Started

record ('sid, 'tm) stream =
  stream_sid :: 'sid
  stream_timing :: 'tm
  stream_queue :: nat
  stream_start :: buffer_start

text \<open>The receiver's state, the memory, the queue handles of the running stream tasks, and the counters.\<close>

record ('sid, 'tm, 'q) app =
  app_stream :: "('sid, 'tm) stream option"
  app_mem :: "'q pq_shared shared_inner memory"
  app_tasks :: "nat list"
  app_stats :: stats

type_synonym ('sid, 'h, 'g, 'q) app_state = "('sid, ('h, 'g) timing, 'q) app"

subsection \<open>The receiver\<close>

definition packet_queue_new ::
    "('a, 'sid, 'q, 'h, 'g, 'd) app_params \<Rightarrow> (nat \<Rightarrow> nat) \<Rightarrow> u64 \<Rightarrow> 'q pq_shared shared_inner memory \<Rightarrow>
     (malloc_error + nat) \<times> 'q pq_shared shared_inner memory" where
  "packet_queue_new P malloc start_seq m =
     shared_alloc malloc (ap_queue_bytes P) (pq_new (ap_deque P) start_seq) m"

definition queue_disconnected :: "nat \<Rightarrow> 'q pq_shared shared_inner memory \<Rightarrow> bool option" where
  "queue_disconnected ptr m = shared_unique ptr m"

definition stream_new ::
    "('a, 'sid, 'q, 'h, 'g, 'd) app_params \<Rightarrow> (nat \<Rightarrow> nat) \<Rightarrow> 'sid \<Rightarrow> u64 \<Rightarrow> 'q pq_shared shared_inner memory \<Rightarrow>
     (malloc_error + ('sid, ('h, 'g) timing) stream) \<times> 'q pq_shared shared_inner memory" where
  "stream_new P malloc sid seq m =
     (case packet_queue_new P malloc seq m of
        (Inl e, m') \<Rightarrow> (Inl e, m')
      | (Inr queue, m') \<Rightarrow>
          (Inr \<lparr>stream_sid = sid, stream_timing = timing_default (ap_latency P) (ap_delta P),
                stream_queue = queue, stream_start = ReceivingPackets 0\<rparr>, m'))"

definition stream_drop ::
    "('a, 'sid, 'q, 'h, 'g, 'd) app_params \<Rightarrow> ('sid, 'tm) stream option \<Rightarrow> 'q pq_shared shared_inner memory \<Rightarrow>
     'q pq_shared shared_inner memory option" where
  "stream_drop P stream m =
     (case stream of None \<Rightarrow> Some m | Some s \<Rightarrow> shared_drop (ap_queue_bytes P) (stream_queue s) m)"

definition get_stream :: "'sid \<Rightarrow> ('sid, 'tm, 'q) app \<Rightarrow> ('sid, 'tm) stream option" where
  "get_stream sid app =
     (case app_stream app of None \<Rightarrow> None | Some s \<Rightarrow> if stream_sid s = sid then Some s else None)"

text \<open>The new stream is stored over the old one, which is dropped.\<close>

definition prepare_stream ::
    "('a, 'sid::linorder, 'q, 'h, 'g, 'd) app_params \<Rightarrow> (nat \<Rightarrow> nat) \<Rightarrow> 'sid \<Rightarrow> u64 \<Rightarrow>
     ('sid, 'h, 'g, 'q) app_state \<Rightarrow> ('sid, 'h, 'g, 'q) app_state option" where
  "prepare_stream P malloc sid seq app =
     (let new_stream = (case app_stream app of Some s \<Rightarrow> stream_sid s < sid | None \<Rightarrow> True)
      in if new_stream then
           (let (made, m) = stream_new P malloc sid seq (app_mem app)
            in map_option (\<lambda>m'. app\<lparr>app_mem := m',
                 app_stream := (case made of Inr s \<Rightarrow> Some s | Inl e \<Rightarrow> None)\<rparr>)
                 (stream_drop P (app_stream app) m))
         else Some app)"

subsection \<open>Receiving audio\<close>

definition start_task ::
    "bool \<Rightarrow> ('sid, 'tm) stream \<Rightarrow> ('sid, 'tm, 'q) app \<Rightarrow> ('sid, 'tm, 'q) app outcome option" where
  "start_task spawned s app =
     map_option (\<lambda>m. if spawned
         then Ok (app\<lparr>app_mem := m, app_tasks := stream_queue s # app_tasks app,
                      app_stream := Some (s\<lparr>stream_start := Started\<rparr>)\<rparr>)
         else Panic UnwrapFailed)
       (shared_clone (stream_queue s) (app_mem app))"

text \<open>\<^verbatim>\<open>receive_packet\<close> of the queue, once its guard is held.\<close>

definition queue_receive_packet ::
    "profile \<Rightarrow> ('a, 'sid, 'q, 'h, 'g, 'd) app_params \<Rightarrow> 'a \<Rightarrow> nat \<Rightarrow> ('sid, 'tm, 'q) app \<Rightarrow>
     ('sid, 'tm, 'q) app outcome option" where
  "queue_receive_packet p P packet ptr app =
     Option.bind (shared_deref ptr (app_mem app)) (\<lambda>shared.
     Option.bind (insert_packet p (ap_deque P) (ap_seq P) packet shared (app_stats app)) (\<lambda>inserted.
       case inserted of
         Panic e \<Rightarrow> Some (Panic e)
       | Ok (shared', stats') \<Rightarrow>
           map_option (\<lambda>m. Ok (app\<lparr>app_mem := m, app_stats := stats'\<rparr>))
             (shared_update ptr shared' (app_mem app))))"

definition receive_audio ::
    "profile \<Rightarrow> ('a, 'sid, 'q, 'h, 'g, 'd) app_params \<Rightarrow> bool \<Rightarrow> 'a \<Rightarrow> ('sid, 'tm) stream \<Rightarrow>
     ('sid, 'tm, 'q) app \<Rightarrow> ('sid, 'tm, 'q) app outcome option" where
  "receive_audio p P spawned packet s app =
     Option.bind (queue_receive_packet p P packet (stream_queue s) app) (\<lambda>received.
       case received of
         Panic e \<Rightarrow> Some (Panic e)
       | Ok app1 \<Rightarrow>
           (case stream_start s of
              ReceivingPackets cnt \<Rightarrow>
                let s' = s\<lparr>stream_start := ReceivingPackets (cnt + 1)\<rparr>
                in if cnt + 1 > DELAY_START_PACKETS P then start_task spawned s' app1
                   else Some (Ok (app1\<lparr>app_stream := Some s'\<rparr>))
            | Started \<Rightarrow> Some (Ok app1)))"

text \<open>The audio branch of the application task.\<close>

definition handle_audio ::
    "profile \<Rightarrow> ('a, 'sid::linorder, 'q, 'h, 'g, 'd) app_params \<Rightarrow> (nat \<Rightarrow> nat) \<Rightarrow> bool \<Rightarrow> 'a \<Rightarrow>
     ('sid, 'h, 'g, 'q) app_state \<Rightarrow> ('sid, 'h, 'g, 'q) app_state outcome option" where
  "handle_audio p P malloc spawned audio app =
     Option.bind (prepare_stream P malloc (ap_sid P audio) (ap_seq P audio) app) (\<lambda>app1.
       case app_stream app1 of
         Some s \<Rightarrow> receive_audio p P spawned audio s app1
       | None \<Rightarrow> Some (Ok app1))"

definition stream_receive_time ::
    "('a, 'sid, 'q, 'h, 'g, 'd) app_params \<Rightarrow> 'd time_fields \<Rightarrow> ('sid, ('h, 'g) timing) stream \<Rightarrow>
     ('sid, ('h, 'g) timing) stream" where [simp]:
  "stream_receive_time P time s =
     s\<lparr>stream_timing := timing_receive_packet (ap_latency P) (ap_delta P) time (stream_timing s)\<rparr>"

text \<open>The reply branch: a time packet updates the timing of its own session only.\<close>

definition handle_stream_reply ::
    "('a, 'sid, 'q, 'h, 'g, 'd) app_params \<Rightarrow> 'sid \<Rightarrow> 'd time_fields \<Rightarrow>
     ('sid, 'h, 'g, 'q) app_state \<Rightarrow> ('sid, 'h, 'g, 'q) app_state" where
  "handle_stream_reply P sid time app =
     (case get_stream sid app of
        None \<Rightarrow> app
      | Some s \<Rightarrow> app\<lparr>app_stream := Some (stream_receive_time P time s)\<rparr>)"

subsection \<open>The stream task\<close>

text \<open>
  One turn of the loop of \<^verbatim>\<open>run_stream\<close> by the task at position \<open>i\<close>: it leaves the loop and drops its
  handle when it holds the only one, else it takes the next packet (or none) from its queue and counts
  a hit or a miss. The result says what it plays: \<open>None\<close> when it has ended.
  As \<open>queue_receive_packet\<close> does, it takes the operation on the queue from the moment the guard of
  \<^verbatim>\<open>lock().await\<close> is held: a task that waits for the lock has not taken its turn yet, and may wait forever
  (\<^verbatim>\<open>TaskMutex\<close>); that whole operations are enough is shown in \<^verbatim>\<open>LockedQueue\<close>.
\<close>

definition stream_turn ::
    "profile \<Rightarrow> ('a, 'sid, 'q, 'h, 'g, 'd) app_params \<Rightarrow> nat \<Rightarrow> ('sid, 'tm, 'q) app \<Rightarrow>
     ('a option option \<times> ('sid, 'tm, 'q) app) outcome option" where
  "stream_turn p P i app =
     (let ptr = app_tasks app ! i
      in Option.bind (queue_disconnected ptr (app_mem app)) (\<lambda>disconnected.
           if disconnected then
             map_option (\<lambda>m. Ok (None, app\<lparr>app_mem := m,
                 app_tasks := take i (app_tasks app) @ drop (Suc i) (app_tasks app)\<rparr>))
               (shared_drop (ap_queue_bytes P) ptr (app_mem app))
           else
             Option.bind (shared_deref ptr (app_mem app)) (\<lambda>shared.
               case pq_pop_front p (ap_deque P) shared of
                 Panic e \<Rightarrow> Some (Panic e)
               | Ok (packet, shared') \<Rightarrow>
                   map_option (\<lambda>m. Ok (Some packet, app\<lparr>app_mem := m,
                       app_stats := (case packet of
                           Some _ \<Rightarrow> (app_stats app)\<lparr>stream_hit := counter_increment (stream_hit (app_stats app))\<rparr>
                         | None \<Rightarrow> (app_stats app)\<lparr>stream_miss := counter_increment (stream_miss (app_stats app))\<rparr>)\<rparr>))
                     (shared_update ptr shared' (app_mem app)))))"

text \<open>A task whose calls to the DAC fail drops its handle and ends; nobody is told but the log.\<close>

definition stream_task_fails ::
    "('a, 'sid, 'q, 'h, 'g, 'd) app_params \<Rightarrow> nat \<Rightarrow> ('sid, 'tm, 'q) app \<Rightarrow> ('sid, 'tm, 'q) app option" where
  "stream_task_fails P i app =
     map_option (\<lambda>m. app\<lparr>app_mem := m, app_tasks := take i (app_tasks app) @ drop (Suc i) (app_tasks app)\<rparr>)
       (shared_drop (ap_queue_bytes P) (app_tasks app ! i) (app_mem app))"

subsection \<open>Ownership\<close>

definition stream_holds :: "('sid, 'tm) stream option \<Rightarrow> nat \<Rightarrow> nat" where
  "stream_holds stream ptr =
     (case stream of None \<Rightarrow> 0 | Some s \<Rightarrow> if stream_queue s = ptr then 1 else 0)"

definition handles :: "('sid, 'tm, 'q) app \<Rightarrow> nat \<Rightarrow> nat" where
  "handles app ptr = stream_holds (app_stream app) ptr + (if ptr \<in> set (app_tasks app) then 1 else 0)"

text \<open>
  The invariant: each queue's count is the number of its holders (the receiver's stream and at most
  one task), a stream that has not started has no task, and every queue is well-formed.
\<close>

definition stream_ok ::
    "('a, 'sid, 'q, 'h, 'g, 'd) app_params \<Rightarrow> nat list \<Rightarrow> ('sid, 'tm) stream \<Rightarrow> bool" where
  "stream_ok P tasks s \<longleftrightarrow>
     (case stream_start s of
        ReceivingPackets n \<Rightarrow> stream_queue s \<notin> set tasks \<and> n \<le> DELAY_START_PACKETS P
      | Started \<Rightarrow> True)"

definition app_inv ::
    "('a, 'sid, 'q, 'h, 'g, 'd) app_params \<Rightarrow> ('q \<Rightarrow> 'a option list) \<Rightarrow> ('sid, 'tm, 'q) app \<Rightarrow> bool" where
  "app_inv P items app \<longleftrightarrow>
     (\<forall>ptr. counted ptr (handles app ptr) (app_mem app)) \<and> distinct (app_tasks app) \<and>
     (\<forall>s. app_stream app = Some s \<longrightarrow> stream_ok P (app_tasks app) s) \<and>
     (\<forall>ptr shared. shared_deref ptr (app_mem app) = Some shared \<longrightarrow> pq_wf (ap_deque P) items shared)"

text \<open>What the C library promises of \<^verbatim>\<open>malloc\<close>: null, or an address that is not in use.\<close>

definition malloc_fresh :: "(nat \<Rightarrow> nat) \<Rightarrow> 'a memory \<Rightarrow> bool" where
  "malloc_fresh malloc m \<longleftrightarrow> (\<forall>sz. malloc sz \<noteq> 0 \<longrightarrow> mem_live m (malloc sz) = None)"

definition app_init :: "stats \<Rightarrow> ('sid, 'tm, 'q) app" where
  "app_init stats =
     \<lparr>app_stream = None, app_mem = \<lparr>mem_live = (\<lambda>_. None), mem_frees = []\<rparr>, app_tasks = [], app_stats = stats\<rparr>"

lemma app_inv_init: "app_inv P items (app_init stats)"
  by (simp add: app_inv_def app_init_def handles_def stream_holds_def counted_def shared_deref_def box_deref_def)

lemma shared_update_spec:
  assumes "shared_deref ptr m = Some old"
  shows "\<exists>m'. shared_update ptr v m = Some m' \<and> (\<forall>a n. counted a n m' = counted a n m)
    \<and> shared_deref ptr m' = Some v \<and> (\<forall>a. a \<noteq> ptr \<longrightarrow> shared_deref a m' = shared_deref a m)
    \<and> mem_frees m' = mem_frees m"
proof -
  obtain inner where "mem_live m ptr = Some inner" using assms by (auto simp: shared_deref_def box_deref_def)
  then show ?thesis
    by (simp add: shared_update_def box_deref_def box_deref_mut_def counted_def shared_deref_def)
qed

lemma counted_0: "counted ptr 0 m \<longleftrightarrow> mem_live m ptr = None"
  by (auto simp: counted_def split: option.splits)

lemma counted_deref: "counted ptr n m \<Longrightarrow> 0 < n \<Longrightarrow> \<exists>v. shared_deref ptr m = Some v"
  using counted_live [of ptr n m] by (auto simp: shared_deref_def box_deref_def)

lemma counted_cong: "mem_live m' a = mem_live m a \<Longrightarrow> counted a n m' = counted a n m"
  by (simp add: counted_def)

lemma deref_cong: "mem_live m' a = mem_live m a \<Longrightarrow> shared_deref a m' = shared_deref a m"
  by (simp add: shared_deref_def box_deref_def)

lemma deref_None: "mem_live m a = None \<Longrightarrow> shared_deref a m = None"
  by (simp add: shared_deref_def box_deref_def)

text \<open>Allocation adds one queue with one holder.\<close>

lemma queue_new_spec:
  assumes "malloc_fresh malloc m" "ap_queue_bytes P \<noteq> 0" "packet_queue_new P malloc seq m = (r, m')"
  shows "case r of Inl e \<Rightarrow> m' = m
    | Inr ptr \<Rightarrow> mem_live m ptr = None \<and> counted ptr 1 m' \<and> shared_deref ptr m' = Some (pq_new (ap_deque P) seq)
        \<and> (\<forall>a. a \<noteq> ptr \<longrightarrow> mem_live m' a = mem_live m a) \<and> mem_frees m' = mem_frees m"
  using assms
  by (auto simp: packet_queue_new_def shared_alloc_def box_alloc_def alloc_layout_def system_alloc_def Let_def
      malloc_fresh_def counted_def shared_deref_def box_deref_def split: if_splits)

lemma stream_drop_spec:
  assumes "\<forall>ptr. counted ptr (h ptr) m" "\<forall>ptr. stream_holds stream ptr \<le> h ptr"
  shows "\<exists>m'. stream_drop P stream m = Some m' \<and> (\<forall>ptr. counted ptr (h ptr - stream_holds stream ptr) m')
    \<and> (\<forall>ptr v. shared_deref ptr m' = Some v \<longrightarrow> shared_deref ptr m = Some v)"
proof (cases stream)
  case None
  then show ?thesis using assms(1) by (simp add: stream_drop_def stream_holds_def)
next
  case (Some s)
  have pos: "0 < h (stream_queue s)"
    using assms(2) [rule_format, of "stream_queue s"] by (simp add: Some stream_holds_def)
  obtain m' where m': "shared_drop (ap_queue_bytes P) (stream_queue s) m = Some m'"
    "counted (stream_queue s) (h (stream_queue s) - 1) m'"
    "\<forall>a. a \<noteq> stream_queue s \<longrightarrow> mem_live m' a = mem_live m a"
    "if h (stream_queue s) = 1
     then mem_frees m' = free_layout (ap_queue_bytes P) (stream_queue s) (mem_frees m)
       \<and> mem_live m' (stream_queue s) = None
     else mem_frees m' = mem_frees m \<and> shared_deref (stream_queue s) m' = shared_deref (stream_queue s) m"
    using counted_drop [OF assms(1) [rule_format, of "stream_queue s"] pos, of "ap_queue_bytes P"]
    by blast
  have "counted ptr (h ptr - stream_holds stream ptr) m'" for ptr
    using m'(2) counted_cong [OF m'(3) [rule_format], of ptr] assms(1)
    by (cases "ptr = stream_queue s") (auto simp: Some stream_holds_def)
  moreover have "shared_deref ptr m' = Some v \<longrightarrow> shared_deref ptr m = Some v" for ptr v
    using m'(4) deref_cong [OF m'(3) [rule_format], of ptr]
    by (cases "ptr = stream_queue s") (auto simp: deref_None split: if_splits)
  ultimately show ?thesis using m'(1) by (simp add: stream_drop_def Some)
qed

definition is_new_session :: "'sid::linorder \<Rightarrow> ('sid, 'tm, 'q) app \<Rightarrow> bool" where
  "is_new_session sid app \<longleftrightarrow> (case app_stream app of Some s \<Rightarrow> stream_sid s < sid | None \<Rightarrow> True)"

lemma pq_wf_new: "deque_laws ops items \<Longrightarrow> pq_wf ops items (pq_new ops seq)"
  using pq_abs_new by blast

lemma prepare_stream_spec:
  assumes inv: "app_inv P items app" and laws: "deque_laws (ap_deque P) items"
    and mal: "malloc_fresh malloc (app_mem app)" "ap_queue_bytes P \<noteq> 0"
  shows "\<exists>app'. prepare_stream P malloc sid seq app = Some app' \<and> app_inv P items app'
    \<and> app_tasks app' = app_tasks app \<and> app_stats app' = app_stats app
    \<and> (if is_new_session sid app then
         (case app_stream app' of None \<Rightarrow> True
          | Some s \<Rightarrow> stream_sid s = sid \<and> stream_start s = ReceivingPackets 0
              \<and> stream_queue s \<notin> set (app_tasks app)
              \<and> shared_deref (stream_queue s) (app_mem app') = Some (pq_new (ap_deque P) seq))
       else app' = app)"
proof (cases "is_new_session sid app")
  case False
  then show ?thesis using inv by (simp add: prepare_stream_def is_new_session_def)
next
  case True
  obtain r m1 where r: "packet_queue_new P malloc seq (app_mem app) = (r, m1)" by fastforce
  have cnt: "\<forall>ptr. counted ptr (handles app ptr) (app_mem app)" using inv by (simp add: app_inv_def)
  have holds: "stream_holds (app_stream app) ptr \<le> handles app ptr" for ptr by (simp add: handles_def)
  note new = queue_new_spec [OF mal r]
  show ?thesis
  proof (cases r)
    case (Inl e)
    then have m1: "m1 = app_mem app" using new by simp
    obtain m2 where m2: "stream_drop P (app_stream app) m1 = Some m2"
      "\<forall>ptr. counted ptr (handles app ptr - stream_holds (app_stream app) ptr) m2"
      "\<forall>ptr v. shared_deref ptr m2 = Some v \<longrightarrow> shared_deref ptr m1 = Some v"
      using stream_drop_spec [of "handles app" m1 "app_stream app" P] cnt holds m1 by blast
    let ?app' = "app\<lparr>app_mem := m2, app_stream := None\<rparr>"
    have op: "prepare_stream P malloc sid seq app = Some ?app'"
      using True r Inl m2(1) by (simp add: prepare_stream_def is_new_session_def stream_new_def)
    have "handles ?app' ptr = handles app ptr - stream_holds (app_stream app) ptr" for ptr
      by (simp add: handles_def stream_holds_def)
    moreover have "pq_wf (ap_deque P) items shared" if "shared_deref ptr m2 = Some shared" for ptr shared
      using that m2(3) m1 inv unfolding app_inv_def by blast
    ultimately have "app_inv P items ?app'"
      using m2(2) inv by (simp add: app_inv_def)
    then show ?thesis using op True by simp
  next
    case (Inr q)
    then have q: "mem_live (app_mem app) q = None" "counted q 1 m1"
      "shared_deref q m1 = Some (pq_new (ap_deque P) seq)"
      "\<forall>a. a \<noteq> q \<longrightarrow> mem_live m1 a = mem_live (app_mem app) a"
      using new by simp_all
    have q0: "handles app q = 0"
      using cnt q(1) by (auto simp: counted_def split: option.splits dest: spec [of _ q])
    define h where "h = (handles app)(q := 1)"
    have "\<forall>ptr. counted ptr (h ptr) m1"
      using cnt q(2) counted_cong [OF q(4) [rule_format]] by (simp add: h_def)
    moreover have "\<forall>ptr. stream_holds (app_stream app) ptr \<le> h ptr"
      using holds q0 by (auto simp: h_def handles_def)
    ultimately obtain m2 where m2: "stream_drop P (app_stream app) m1 = Some m2"
      "\<forall>ptr. counted ptr (h ptr - stream_holds (app_stream app) ptr) m2"
      "\<forall>ptr v. shared_deref ptr m2 = Some v \<longrightarrow> shared_deref ptr m1 = Some v"
      using stream_drop_spec [of h m1 "app_stream app" P] by blast
    define s where "s = \<lparr>stream_sid = sid, stream_timing = timing_default (ap_latency P) (ap_delta P),
      stream_queue = q, stream_start = ReceivingPackets 0\<rparr>"
    let ?app' = "app\<lparr>app_mem := m2, app_stream := Some s\<rparr>"
    have op: "prepare_stream P malloc sid seq app = Some ?app'"
      using True r Inr m2(1) by (simp add: prepare_stream_def is_new_session_def stream_new_def s_def)
    have hold_q: "stream_holds (app_stream app) q = 0" "q \<notin> set (app_tasks app)"
      using q0 by (auto simp: handles_def split: if_splits)
    have "handles ?app' ptr = h ptr - stream_holds (app_stream app) ptr" for ptr
      using hold_q by (auto simp: handles_def h_def s_def stream_holds_def)
    then have cnt': "\<forall>ptr. counted ptr (handles ?app' ptr) m2" using m2(2) by simp
    have "counted q 1 m2" using m2(2) [rule_format, of q] hold_q(1) by (simp add: h_def)
    then obtain v where "shared_deref q m2 = Some v" using counted_deref [of q 1 m2] by auto
    then have deref: "shared_deref q m2 = Some (pq_new (ap_deque P) seq)" using m2(3) q(3) by fastforce
    have "pq_wf (ap_deque P) items shared" if "shared_deref ptr m2 = Some shared" for ptr shared
    proof (cases "ptr = q")
      case True
      then show ?thesis using that deref pq_wf_new [OF laws, of seq] by auto
    next
      case False
      then have "shared_deref ptr (app_mem app) = Some shared"
        using that m2(3) q(4) deref_cong by metis
      then show ?thesis using inv by (simp add: app_inv_def)
    qed
    then have "app_inv P items ?app'"
      using cnt' hold_q(2) inv by (simp add: app_inv_def stream_ok_def s_def)
    then show ?thesis using op True deref hold_q(2) by (simp add: s_def)
  qed
qed

lemma app_inv_update:
  assumes inv: "app_inv P items app" and v: "pq_wf (ap_deque P) items v"
    and old: "shared_deref ptr (app_mem app) = Some old"
  shows "\<exists>m'. shared_update ptr v (app_mem app) = Some m' \<and> shared_deref ptr m' = Some v
    \<and> (\<forall>st. app_inv P items (app\<lparr>app_mem := m', app_stats := st\<rparr>))"
proof -
  obtain m' where m': "shared_update ptr v (app_mem app) = Some m'"
    "\<forall>a n. counted a n m' = counted a n (app_mem app)" "shared_deref ptr m' = Some v"
    "\<forall>a. a \<noteq> ptr \<longrightarrow> shared_deref a m' = shared_deref a (app_mem app)"
    using shared_update_spec [OF old, of v] by blast
  have "pq_wf (ap_deque P) items w" if "shared_deref a m' = Some w" for a w
    using that m'(3,4) inv v unfolding app_inv_def by (cases "a = ptr") auto
  moreover have "handles (app\<lparr>app_mem := m', app_stats := st\<rparr>) = handles app" for st
    by (simp add: handles_def fun_eq_iff)
  ultimately have "app_inv P items (app\<lparr>app_mem := m', app_stats := st\<rparr>)" for st
    using inv m'(2) by (simp add: app_inv_def)
  then show ?thesis using m'(1,3) by blast
qed

lemma held_deref:
  assumes "app_inv P items app" "0 < handles app ptr"
  shows "\<exists>shared. shared_deref ptr (app_mem app) = Some shared \<and> pq_wf (ap_deque P) items shared"
proof -
  have "counted ptr (handles app ptr) (app_mem app)" using assms(1) by (simp add: app_inv_def)
  then obtain v where "shared_deref ptr (app_mem app) = Some v" using counted_deref assms(2) by blast
  then show ?thesis using assms(1) by (auto simp: app_inv_def)
qed

lemma queue_receive_packet_spec:
  assumes inv: "app_inv P items app" and laws: "deque_laws (ap_deque P) items" and held: "0 < handles app ptr"
  shows "\<exists>r. queue_receive_packet p P packet ptr app = Some r
    \<and> (\<forall>app'. r = Ok app' \<longrightarrow> app_inv P items app' \<and> app_stream app' = app_stream app
          \<and> app_tasks app' = app_tasks app)"
proof -
  obtain shared where sh: "shared_deref ptr (app_mem app) = Some shared" "pq_wf (ap_deque P) items shared"
    using held_deref [OF inv held] by blast
  consider (panic) e where "insert_packet p (ap_deque P) (ap_seq P) packet shared (app_stats app) = Some (Panic e)"
    | (ok) shared' stats' where
      "insert_packet p (ap_deque P) (ap_seq P) packet shared (app_stats app) = Some (Ok (shared', stats'))"
      "pq_wf (ap_deque P) items shared'"
    using insert_packet_total [OF laws sh(2)] by blast
  then show ?thesis
  proof cases
    case panic
    then show ?thesis using sh(1) by (simp add: queue_receive_packet_def)
  next
    case ok
    obtain m' where "shared_update ptr shared' (app_mem app) = Some m'"
      "\<forall>st. app_inv P items (app\<lparr>app_mem := m', app_stats := st\<rparr>)"
      using app_inv_update [OF inv ok(2) sh(1)] by blast
    then show ?thesis using sh(1) ok(1) by (simp add: queue_receive_packet_def)
  qed
qed

lemma start_task_spec:
  assumes inv: "app_inv P items app" and s: "app_stream app = Some s0" "stream_queue s = stream_queue s0"
    and new: "stream_queue s \<notin> set (app_tasks app)"
  shows "\<exists>m. start_task spawned s app = Some (if spawned
      then Ok (app\<lparr>app_mem := m, app_tasks := stream_queue s # app_tasks app,
                   app_stream := Some (s\<lparr>stream_start := Started\<rparr>)\<rparr>)
      else Panic UnwrapFailed)
    \<and> app_inv P items (app\<lparr>app_mem := m, app_tasks := stream_queue s # app_tasks app,
                          app_stream := Some (s\<lparr>stream_start := Started\<rparr>)\<rparr>)"
proof -
  let ?q = "stream_queue s"
  have cnt: "\<forall>ptr. counted ptr (handles app ptr) (app_mem app)" using inv by (simp add: app_inv_def)
  have one: "handles app ?q = 1" using s new by (simp add: handles_def stream_holds_def)
  have "counted ?q 1 (app_mem app)" using cnt one by metis
  from counted_clone [OF this]
  obtain m where m: "shared_clone ?q (app_mem app) = Some m" "counted ?q (Suc 1) m"
    "shared_deref ?q m = shared_deref ?q (app_mem app)"
    "\<forall>a. a \<noteq> ?q \<longrightarrow> mem_live m a = mem_live (app_mem app) a"
    by auto
  let ?app' = "app\<lparr>app_mem := m, app_tasks := ?q # app_tasks app, app_stream := Some (s\<lparr>stream_start := Started\<rparr>)\<rparr>"
  have "counted ptr (handles ?app' ptr) m" for ptr
  proof (cases "ptr = ?q")
    case True
    have "handles ?app' ?q = Suc 1" by (simp add: handles_def stream_holds_def)
    with m(2) True show ?thesis by simp
  next
    case False
    then have "handles ?app' ptr = handles app ptr" using s by (simp add: handles_def stream_holds_def)
    then show ?thesis using counted_cong [OF m(4) [rule_format, OF False]] cnt by simp
  qed
  moreover have "pq_wf (ap_deque P) items v" if "shared_deref a m = Some v" for a v
    using that m(3) deref_cong [OF m(4) [rule_format, of a]] inv unfolding app_inv_def by (cases "a = ?q") auto
  ultimately have "app_inv P items ?app'" using inv new by (simp add: app_inv_def stream_ok_def)
  then show ?thesis using m(1) by (auto simp: start_task_def)
qed

lemma receive_audio_spec:
  assumes inv: "app_inv P items app" and laws: "deque_laws (ap_deque P) items"
    and s: "app_stream app = Some s"
  shows "\<exists>r. receive_audio p P spawned packet s app = Some r
    \<and> (\<forall>app'. r = Ok app' \<longrightarrow> app_inv P items app'
          \<and> (\<exists>s'. app_stream app' = Some s' \<and> stream_sid s' = stream_sid s \<and> stream_queue s' = stream_queue s))"
proof -
  have "0 < handles app (stream_queue s)" using s by (simp add: handles_def stream_holds_def)
  then obtain r where r: "queue_receive_packet p P packet (stream_queue s) app = Some r"
    "\<And>app'. r = Ok app' \<Longrightarrow> app_inv P items app' \<and> app_stream app' = app_stream app \<and> app_tasks app' = app_tasks app"
    using queue_receive_packet_spec [OF inv laws] by metis
  show ?thesis
  proof (cases r)
    case (Panic e)
    then show ?thesis using r(1) by (simp add: receive_audio_def)
  next
    case (Ok app1)
    then have app1: "app_inv P items app1" "app_stream app1 = Some s" using r(2) s by simp_all
    show ?thesis
    proof (cases "stream_start s")
      case Started
      then show ?thesis using r(1) Ok app1 by (simp add: receive_audio_def)
    next
      case (ReceivingPackets n)
      let ?s' = "s\<lparr>stream_start := ReceivingPackets (n + 1)\<rparr>"
      have new: "stream_queue s \<notin> set (app_tasks app1)"
        using app1 ReceivingPackets by (auto simp: app_inv_def stream_ok_def)
      show ?thesis
      proof (cases "n + 1 > DELAY_START_PACKETS P")
        case True
        have "stream_queue ?s' = stream_queue s" "stream_queue ?s' \<notin> set (app_tasks app1)" using new by simp_all
        from start_task_spec [OF app1(1,2) this, of spawned] obtain m where
          m: "start_task spawned ?s' app1 = Some (if spawned
              then Ok (app1\<lparr>app_mem := m, app_tasks := stream_queue ?s' # app_tasks app1,
                           app_stream := Some (?s'\<lparr>stream_start := Started\<rparr>)\<rparr>)
              else Panic UnwrapFailed)"
            "app_inv P items (app1\<lparr>app_mem := m, app_tasks := stream_queue ?s' # app_tasks app1,
                                  app_stream := Some (?s'\<lparr>stream_start := Started\<rparr>)\<rparr>)" by blast
        then show ?thesis using r(1) Ok True ReceivingPackets by (simp add: receive_audio_def)
      next
        case False
        have "handles (app1\<lparr>app_stream := Some ?s'\<rparr>) = handles app1"
          using app1(2) by (simp add: handles_def stream_holds_def fun_eq_iff)
        then have "app_inv P items (app1\<lparr>app_stream := Some ?s'\<rparr>)"
          using app1(1) new False by (simp add: app_inv_def stream_ok_def)
        then show ?thesis using r(1) Ok False ReceivingPackets by (simp add: receive_audio_def)
      qed
    qed
  qed
qed

lemma stream_turn_spec:
  assumes inv: "app_inv P items app" and laws: "deque_laws (ap_deque P) items"
    and i: "i < length (app_tasks app)"
  defines "ptr \<equiv> app_tasks app ! i"
  defines "orphan \<equiv> stream_holds (app_stream app) ptr = 0"
  shows "\<exists>r. stream_turn p P i app = Some r
    \<and> (\<forall>out app'. r = Ok (out, app') \<longrightarrow> app_inv P items app' \<and> app_stream app' = app_stream app
          \<and> (out = None \<longleftrightarrow> orphan)
          \<and> (if orphan then mem_live (app_mem app') ptr = None \<and> set (app_tasks app') = set (app_tasks app) - {ptr}
             else app_tasks app' = app_tasks app))
    \<and> (orphan \<longrightarrow> (\<exists>app'. r = Ok (None, app')))"
proof -
  have ptr: "ptr \<in> set (app_tasks app)" using i by (simp add: ptr_def)
  have cnt: "\<forall>a. counted a (handles app a) (app_mem app)" and dist: "distinct (app_tasks app)"
    using inv by (simp_all add: app_inv_def)
  have h: "handles app ptr = (if orphan then 1 else 2)"
    using ptr by (auto simp: handles_def orphan_def stream_holds_def split: option.splits if_splits)
  have uniq: "shared_unique ptr (app_mem app) = Some orphan"
    using counted_unique [OF cnt [rule_format, of ptr]] h by (auto split: if_splits)
  show ?thesis
  proof (cases orphan)
    case True
    then have "counted ptr 1 (app_mem app)" using cnt h by metis
    from counted_drop [OF this, of "ap_queue_bytes P"]
    obtain m where m: "shared_drop (ap_queue_bytes P) ptr (app_mem app) = Some m"
      "\<forall>a. a \<noteq> ptr \<longrightarrow> mem_live m a = mem_live (app_mem app) a" "mem_live m ptr = None" by auto
    let ?rest = "take i (app_tasks app) @ drop (Suc i) (app_tasks app)"
    let ?app' = "app\<lparr>app_mem := m, app_tasks := ?rest\<rparr>"
    have rest: "set ?rest = set (app_tasks app) - {ptr}" "distinct ?rest"
      using remove_nth_distinct [OF dist i] by (simp_all add: ptr_def)
    have hn: "handles ?app' a = (if a = ptr then 0 else handles app a)" for a
      using rest(1) True by (simp add: handles_def orphan_def)
    have "counted a (handles ?app' a) m" for a
      using counted_cong [OF m(2) [rule_format, of a]] cnt m(3) by (simp add: hn counted_0)
    moreover have "stream_ok P ?rest s" if "app_stream app = Some s" for s
    proof -
      have "stream_ok P (app_tasks app) s" "stream_queue s \<noteq> ptr"
        using inv that True by (auto simp: app_inv_def orphan_def stream_holds_def)
      then show ?thesis unfolding stream_ok_def rest(1) by (cases "stream_start s") auto
    qed
    moreover have "pq_wf (ap_deque P) items v" if "shared_deref a m = Some v" for a v
      using that deref_None [OF m(3)] deref_cong [OF m(2) [rule_format, of a]] inv
      unfolding app_inv_def by (cases "a = ptr") auto
    ultimately have "app_inv P items ?app'" using rest(2) by (simp add: app_inv_def)
    moreover have "stream_turn p P i app = Some (Ok (None, ?app'))"
      using uniq True m(1) by (simp add: stream_turn_def queue_disconnected_def ptr_def)
    ultimately show ?thesis using m(3) rest(1) True by simp
  next
    case False
    then have "0 < handles app ptr" using h by simp
    from held_deref [OF inv this] obtain shared where
      sh: "shared_deref ptr (app_mem app) = Some shared" "pq_wf (ap_deque P) items shared" by blast
    consider (panic) e where "pq_pop_front p (ap_deque P) shared = Panic e"
      | (ok) out shared' where "pq_pop_front p (ap_deque P) shared = Ok (out, shared')"
          "pq_wf (ap_deque P) items shared'"
      using pop_front_total [OF laws sh(2)] by blast
    then show ?thesis
    proof cases
      case panic
      then show ?thesis using uniq False sh(1)
        by (simp add: stream_turn_def queue_disconnected_def flip: ptr_def)
    next
      case ok
      obtain m where "shared_update ptr shared' (app_mem app) = Some m"
        "\<forall>st. app_inv P items (app\<lparr>app_mem := m, app_stats := st\<rparr>)"
        using app_inv_update [OF inv ok(2) sh(1)] by blast
      then show ?thesis using uniq False sh(1) ok(1)
        by (simp add: stream_turn_def queue_disconnected_def flip: ptr_def)
    qed
  qed
qed

lemma stream_ok_timing: "stream_ok P tasks (s\<lparr>stream_timing := t\<rparr>) = stream_ok P tasks s"
  by (cases "stream_start s") (simp_all add: stream_ok_def)

lemma stream_task_fails_spec:
  assumes inv: "app_inv P items app" and i: "i < length (app_tasks app)"
  shows "\<exists>app'. stream_task_fails P i app = Some app' \<and> app_inv P items app' \<and> app_stream app' = app_stream app
    \<and> set (app_tasks app') = set (app_tasks app) - {app_tasks app ! i}"
proof -
  let ?ptr = "app_tasks app ! i" and ?rest = "take i (app_tasks app) @ drop (Suc i) (app_tasks app)"
  have cnt: "\<forall>a. counted a (handles app a) (app_mem app)" and dist: "distinct (app_tasks app)"
    using inv by (simp_all add: app_inv_def)
  have pos: "0 < handles app ?ptr" using i by (simp add: handles_def)
  from counted_drop [OF cnt [rule_format] this, of "ap_queue_bytes P"]
  obtain m where m: "shared_drop (ap_queue_bytes P) ?ptr (app_mem app) = Some m"
    "counted ?ptr (handles app ?ptr - 1) m" "\<forall>a. a \<noteq> ?ptr \<longrightarrow> mem_live m a = mem_live (app_mem app) a"
    "if handles app ?ptr = 1
     then mem_frees m = free_layout (ap_queue_bytes P) ?ptr (mem_frees (app_mem app)) \<and> mem_live m ?ptr = None
     else mem_frees m = mem_frees (app_mem app) \<and> shared_deref ?ptr m = shared_deref ?ptr (app_mem app)"
    by blast
  let ?app' = "app\<lparr>app_mem := m, app_tasks := ?rest\<rparr>"
  have rest: "set ?rest = set (app_tasks app) - {?ptr}" "distinct ?rest"
    using remove_nth_distinct [OF dist i] by simp_all
  have "handles ?app' a = (if a = ?ptr then handles app a - 1 else handles app a)" for a
    using rest(1) i by (simp add: handles_def)
  then have "counted a (handles ?app' a) m" for a
    using counted_cong [OF m(3) [rule_format, of a]] cnt m(2) by simp
  moreover have "stream_ok P ?rest s" if "app_stream app = Some s" for s
  proof -
    have "stream_ok P (app_tasks app) s" using inv that by (simp add: app_inv_def)
    then show ?thesis unfolding stream_ok_def rest(1) by (cases "stream_start s") auto
  qed
  moreover have "pq_wf (ap_deque P) items v" if "shared_deref a m = Some v" for a v
    using that m(4) deref_None [of m ?ptr] deref_cong [OF m(3) [rule_format, of a]] inv
    unfolding app_inv_def by (cases "a = ?ptr"; cases "handles app ?ptr = 1") auto
  ultimately have "app_inv P items ?app'" using rest(2) by (simp add: app_inv_def)
  then show ?thesis using m(1) rest(1) by (simp add: stream_task_fails_def)
qed

lemma stream_reply_inv:
  assumes inv: "app_inv P items app"
  shows "app_inv P items (handle_stream_reply P sid time app)"
proof (cases "get_stream sid app")
  case None
  then show ?thesis using inv by (simp add: handle_stream_reply_def)
next
  case (Some s)
  then have s: "app_stream app = Some s" by (auto simp: get_stream_def split: option.splits if_splits)
  let ?app' = "handle_stream_reply P sid time app"
  have "handles ?app' = handles app" "app_mem ?app' = app_mem app" "app_tasks ?app' = app_tasks app"
    using Some s by (auto simp: handle_stream_reply_def handles_def stream_holds_def fun_eq_iff)
  moreover have "stream_ok P (app_tasks app) s" using inv s by (simp add: app_inv_def)
  ultimately show ?thesis
    using inv Some by (auto simp: app_inv_def handle_stream_reply_def stream_ok_timing)
qed

lemma handle_audio_spec:
  assumes inv: "app_inv P items app" and laws: "deque_laws (ap_deque P) items"
    and mal: "malloc_fresh malloc (app_mem app)" "ap_queue_bytes P \<noteq> 0"
  shows "\<exists>r. handle_audio p P malloc spawned audio app = Some r
    \<and> (\<forall>app'. r = Ok app' \<longrightarrow> app_inv P items app')"
proof -
  obtain app1 where app1: "prepare_stream P malloc (ap_sid P audio) (ap_seq P audio) app = Some app1"
    "app_inv P items app1"
    using prepare_stream_spec [OF inv laws mal] by blast
  show ?thesis
  proof (cases "app_stream app1")
    case None
    then show ?thesis using app1 by (simp add: handle_audio_def)
  next
    case (Some s)
    then show ?thesis using app1 receive_audio_spec [OF app1(2) laws Some, of p spawned audio]
      unfolding handle_audio_def by auto
  qed
qed

text \<open>Other threads change the counters; the receiver is dropped with its stream when the application task ends.\<close>

lemma app_inv_stats: "app_inv P items (app\<lparr>app_stats := st\<rparr>) \<longleftrightarrow> app_inv P items app"
  by (simp add: app_inv_def handles_def)

lemma app_inv_dropped:
  assumes inv: "app_inv P items app"
  shows "\<exists>m. stream_drop P (app_stream app) (app_mem app) = Some m
    \<and> app_inv P items (app\<lparr>app_mem := m, app_stream := None\<rparr>)"
proof -
  obtain m where m: "stream_drop P (app_stream app) (app_mem app) = Some m"
    "\<forall>ptr. counted ptr (handles app ptr - stream_holds (app_stream app) ptr) m"
    "\<forall>ptr v. shared_deref ptr m = Some v \<longrightarrow> shared_deref ptr (app_mem app) = Some v"
    using stream_drop_spec [of "handles app" "app_mem app" "app_stream app" P] inv
    by (auto simp: app_inv_def handles_def)
  have "handles (app\<lparr>app_mem := m, app_stream := None\<rparr>) ptr = handles app ptr - stream_holds (app_stream app) ptr" for ptr
    by (simp add: handles_def stream_holds_def)
  then have "app_inv P items (app\<lparr>app_mem := m, app_stream := None\<rparr>)"
    using m(2,3) inv by (fastforce simp: app_inv_def)
  then show ?thesis using m(1) by blast
qed

subsection \<open>Tasks without a receiver\<close>

lemma queue_receive_packet_stream:
  assumes "queue_receive_packet p P packet ptr app = Some (Ok app')"
  shows "app_stream app' = app_stream app \<and> app_tasks app' = app_tasks app"
proof -
  obtain shared ins where ins: "shared_deref ptr (app_mem app) = Some shared"
    "insert_packet p (ap_deque P) (ap_seq P) packet shared (app_stats app) = Some ins"
    using assms by (auto simp: queue_receive_packet_def bind_eq_Some_conv)
  then show ?thesis using assms by (cases ins) (auto simp: queue_receive_packet_def split: prod.splits)
qed

lemma handle_audio_tasks:
  assumes "handle_audio p P malloc spawned audio app = Some (Ok app')"
  shows "set (app_tasks app) \<subseteq> set (app_tasks app')"
proof -
  obtain app1 where app1: "prepare_stream P malloc (ap_sid P audio) (ap_seq P audio) app = Some app1"
    using assms by (auto simp: handle_audio_def bind_eq_Some_conv)
  then have tasks: "app_tasks app1 = app_tasks app"
    by (auto simp: prepare_stream_def Let_def split: if_splits option.splits prod.splits)
  show ?thesis
  proof (cases "app_stream app1")
    case None
    then show ?thesis using assms app1 tasks by (simp add: handle_audio_def)
  next
    case (Some s)
    then have received: "receive_audio p P spawned audio s app1 = Some (Ok app')"
      using assms app1 by (simp add: handle_audio_def)
    then obtain res where res: "queue_receive_packet p P audio (stream_queue s) app1 = Some res"
      by (auto simp: receive_audio_def bind_eq_Some_conv)
    with received obtain app2 where app2: "res = Ok app2" by (cases res) (auto simp: receive_audio_def)
    have "set (app_tasks app2) \<subseteq> set (app_tasks app')"
      using received res app2
      by (cases "stream_start s") (auto simp: receive_audio_def start_task_def Let_def split: if_splits)
    with queue_receive_packet_stream [OF res [unfolded app2]] tasks show ?thesis by simp
  qed
qed

text \<open>A running task whose queue the receiver no longer has.\<close>

definition orphaned :: "nat \<Rightarrow> ('sid, 'tm, 'q) app \<Rightarrow> bool" where
  "orphaned q app \<longleftrightarrow> q \<in> set (app_tasks app) \<and> stream_holds (app_stream app) q = 0"

lemma orphaned_audio:
  assumes inv: "app_inv P items app" and laws: "deque_laws (ap_deque P) items"
    and mal: "malloc_fresh malloc (app_mem app)" "ap_queue_bytes P \<noteq> 0"
    and h: "handle_audio p P malloc spawned audio app = Some (Ok app')" and q: "orphaned q app"
  shows "orphaned q app'"
proof -
  obtain app1 where app1: "prepare_stream P malloc (ap_sid P audio) (ap_seq P audio) app = Some app1"
    "app_inv P items app1" "app_tasks app1 = app_tasks app"
    "if is_new_session (ap_sid P audio) app then
       (case app_stream app1 of None \<Rightarrow> True | Some s \<Rightarrow> stream_queue s \<notin> set (app_tasks app)) else app1 = app"
    using prepare_stream_spec [OF inv laws mal, of "ap_sid P audio" "ap_seq P audio"] by (auto split: option.splits)
  have q1: "stream_holds (app_stream app1) q = 0"
    using app1(4) q by (auto simp: orphaned_def stream_holds_def split: option.splits if_splits)
  have "stream_holds (app_stream app') q = 0"
  proof (cases "app_stream app1")
    case None
    then show ?thesis using h app1(1) q1 by (simp add: handle_audio_def)
  next
    case (Some s)
    then have "receive_audio p P spawned audio s app1 = Some (Ok app')"
      using h app1(1) by (simp add: handle_audio_def)
    then obtain s' where "app_stream app' = Some s'" "stream_queue s' = stream_queue s"
      using receive_audio_spec [OF app1(2) laws Some, of p spawned audio] by auto
    then show ?thesis using q1 Some by (simp add: stream_holds_def)
  qed
  then show ?thesis using handle_audio_tasks [OF h] q by (auto simp: orphaned_def)
qed

lemma orphaned_reply: "orphaned q app \<Longrightarrow> orphaned q (handle_stream_reply P sid time app)"
  by (auto simp: orphaned_def handle_stream_reply_def get_stream_def stream_holds_def split: option.splits if_splits)

lemma orphaned_other:
  assumes "app_inv P items app" "deque_laws (ap_deque P) items" "i < length (app_tasks app)"
    and "app_tasks app ! i \<noteq> q" "orphaned q app"
  shows "stream_turn p P i app = Some (Ok (out, app')) \<Longrightarrow> orphaned q app'"
    and "stream_task_fails P i app = Some app' \<Longrightarrow> orphaned q app'"
proof -
  show "stream_turn p P i app = Some (Ok (out, app')) \<Longrightarrow> orphaned q app'"
    using stream_turn_spec [OF assms(1-3), of p] assms(4,5)
    by (cases "stream_holds (app_stream app) (app_tasks app ! i) = 0") (auto simp: orphaned_def)
  show "stream_task_fails P i app = Some app' \<Longrightarrow> orphaned q app'"
    using stream_task_fails_spec [OF assms(1,3)] assms(4,5) by (auto simp: orphaned_def)
qed

lemma orphaned_turn:
  assumes "app_inv P items app" "deque_laws (ap_deque P) items" "orphaned q app"
  shows "\<exists>i<length (app_tasks app). app_tasks app ! i = q \<and> (\<exists>app'. stream_turn p P i app = Some (Ok (None, app')))"
proof -
  obtain i where i: "i < length (app_tasks app)" "app_tasks app ! i = q"
    using assms(3) by (auto simp: orphaned_def in_set_conv_nth)
  then show ?thesis using stream_turn_spec [OF assms(1,2) i(1), of p] assms(3) by (auto simp: orphaned_def)
qed

subsection \<open>Reachable states\<close>

inductive app_reach ::
    "profile \<Rightarrow> ('a, 'sid::linorder, 'q, 'h, 'g, 'd) app_params \<Rightarrow> ('sid, 'h, 'g, 'q) app_state \<Rightarrow> bool"
  for p P where
  reach_init: "app_reach p P (app_init stats)"
| reach_audio: "app_reach p P app \<Longrightarrow> malloc_fresh malloc (app_mem app) \<Longrightarrow>
    handle_audio p P malloc spawned audio app = Some (Ok app') \<Longrightarrow> app_reach p P app'"
| reach_reply: "app_reach p P app \<Longrightarrow> app_reach p P (handle_stream_reply P sid time app)"
| reach_turn: "app_reach p P app \<Longrightarrow> i < length (app_tasks app) \<Longrightarrow>
    stream_turn p P i app = Some (Ok (out, app')) \<Longrightarrow> app_reach p P app'"
| reach_fail: "app_reach p P app \<Longrightarrow> i < length (app_tasks app) \<Longrightarrow>
    stream_task_fails P i app = Some app' \<Longrightarrow> app_reach p P app'"
| reach_stats: "app_reach p P app \<Longrightarrow> app_reach p P (app\<lparr>app_stats := st\<rparr>)"
| reach_drop: "app_reach p P app \<Longrightarrow> stream_drop P (app_stream app) (app_mem app) = Some m \<Longrightarrow>
    app_reach p P (app\<lparr>app_mem := m, app_stream := None\<rparr>)"

lemma app_reach_inv:
  assumes "app_reach p P app" "deque_laws (ap_deque P) items" "ap_queue_bytes P \<noteq> 0"
  shows "app_inv P items app"
  using assms(1)
proof (induction rule: app_reach.induct)
  case (reach_init stats)
  show ?case by (rule app_inv_init)
next
  case (reach_audio app malloc spawned audio app')
  then show ?case
    using handle_audio_spec [OF reach_audio.IH assms(2) reach_audio.hyps(2) assms(3), of p spawned audio] by auto
next
  case (reach_reply app sid time)
  then show ?case by (simp add: stream_reply_inv)
next
  case (reach_turn app i out app')
  then show ?case
    using stream_turn_spec [OF reach_turn.IH assms(2) reach_turn.hyps(2), of p] by auto
next
  case (reach_fail app i app')
  then show ?case using stream_task_fails_spec [OF reach_fail.IH reach_fail.hyps(2)] by auto
next
  case (reach_stats app st)
  then show ?case by (simp add: app_inv_stats)
next
  case (reach_drop app m)
  then show ?case using app_inv_dropped [OF reach_drop.IH] by simp
qed

subsection \<open>Properties\<close>

text \<open>C7: the queue shared by receiver and task is memory-safe: in every state that packets, turns of
  the tasks and their failures reach, in any order and with any allocation failures, handling a packet, a turn
  of a task and its failing touch live memory only, from the moment the lock of the queue is held. That a
  caller may wait for the lock is the matter of the theories \<^verbatim>\<open>TaskMutex\<close> and \<^verbatim>\<open>LockedQueue\<close>, and a panic, which
  stops the program, is not excluded here.\<close>

theorem queue_sharing_is_safe:
  assumes "app_reach p P app" "deque_laws (ap_deque P) items" "ap_queue_bytes P \<noteq> 0"
    and "malloc_fresh malloc (app_mem app)"
  shows "handle_audio p P malloc spawned audio app \<noteq> None
    \<and> (\<forall>i<length (app_tasks app). stream_turn p P i app \<noteq> None \<and> stream_task_fails P i app \<noteq> None)"
proof -
  note inv = app_reach_inv [OF assms(1-3)]
  have "stream_turn p P i app \<noteq> None \<and> stream_task_fails P i app \<noteq> None" if "i < length (app_tasks app)" for i
    using stream_turn_spec [OF inv assms(2) that, of p] stream_task_fails_spec [OF inv that] by auto
  moreover have "handle_audio p P malloc spawned audio app \<noteq> None"
    using handle_audio_spec [OF inv assms(2,4,3), of p spawned audio] by auto
  ultimately show ?thesis by blast
qed

definition example_params :: "(u64 \<times> nat, nat, (u64 \<times> nat) option list, duration list, int list, int) app_params" where
  "example_params = \<lparr>ap_seq = fst, ap_sid = snd, ap_deque = list_deque, ap_latency = list_history,
     ap_delta = list_history, ap_queue_bytes = 64, ap_sample_rate = 48000, ap_frames_per_packet = 4800\<rparr>"

lemma example_params_laws: "deque_laws (ap_deque example_params) (\<lambda>q. q)" "ap_queue_bytes example_params \<noteq> 0"
  using list_deque_laws by (simp_all add: example_params_def)

text \<open>With these parameters the first packet starts the task.\<close>

definition example_running :: "(nat, duration list, int list, (u64 \<times> nat) option list) app_state" where
  "example_running =
     \<lparr>app_stream = Some \<lparr>stream_sid = 3, stream_timing = timing_default list_history list_history,
        stream_queue = 4096, stream_start = Started\<rparr>,
      app_mem = \<lparr>mem_live = (\<lambda>_. None)(4096 \<mapsto>
          \<lparr>sb_data = \<lparr>pq_queue = [Some (7, 3)], pq_head_seq = 7\<rparr>, sb_refcount = 2\<rparr>), mem_frees = []\<rparr>,
      app_tasks = [4096], app_stats = stats_new\<lparr>audio_packets_received_on_time := 1\<rparr>\<rparr>"

lemma pq_expand_step:
  "dq_len ops q \<le> idx \<Longrightarrow> dq_push_back ops None q = Inr q' \<Longrightarrow> pq_expand ops idx q = pq_expand ops idx q'"
  "\<not> dq_len ops q \<le> idx \<Longrightarrow> pq_expand ops idx q = Some (Ok q)"
  by (subst pq_expand.simps, simp)+

lemma example_first_packet_any:
  "handle_audio Dev example_params (\<lambda>_. 4096) True (7, 3) (app_init st) = Some (Ok (example_running\<lparr>app_stats :=
     st\<lparr>audio_packets_received_on_time := audio_packets_received_on_time st + 1\<rparr>\<rparr>))"
proof -
  have expand: "pq_expand list_deque 0 [] = Some (Ok [None :: (u64 \<times> nat) option])"
    by (subst pq_expand_step(1) [where q' = "[None]"]) (simp_all add: list_deque_def pq_expand_step(2))
  have slot: "queue_slot_mut list_deque 7 \<lparr>pq_queue = [], pq_head_seq = 7\<rparr>
      = Some (Ok (Inr ((False, 0), None), \<lparr>pq_queue = [None :: (u64 \<times> nat) option], pq_head_seq = 7\<rparr>))"
    using expand by (simp add: queue_slot_mut_def checked_sub_def list_deque_def Let_def)
  have new: "pq_new list_deque 7 = \<lparr>pq_queue = [] :: (u64 \<times> nat) option list, pq_head_seq = 7\<rparr>"
    by (simp add: pq_new_def list_deque_def)
  have insert: "insert_packet Dev list_deque fst (7, 3) \<lparr>pq_queue = [], pq_head_seq = 7\<rparr> st
      = Some (Ok (\<lparr>pq_queue = [Some (7 :: u64, 3 :: nat)], pq_head_seq = 7\<rparr>,
          st\<lparr>audio_packets_received_on_time := audio_packets_received_on_time st + 1\<rparr>))"
    by (simp add: insert_packet_def slot add_word_def counter_increment_def counter_add_def) (simp add: list_deque_def)
  show ?thesis
    by (simp add: handle_audio_def prepare_stream_def stream_new_def packet_queue_new_def shared_alloc_def
        box_alloc_def alloc_layout_def system_alloc_def example_params_def app_init_def new stream_drop_def
        receive_audio_def queue_receive_packet_def shared_deref_def box_deref_def insert shared_update_def
        box_deref_mut_def start_task_def shared_clone_def DELAY_START_PACKETS_def DELAY_START_MS_def
        example_running_def)
qed

lemma example_first_packet:
  "handle_audio Dev example_params (\<lambda>_. 4096) True (7, 3) (app_init stats_new) = Some (Ok example_running)"
  using example_first_packet_any [of stats_new] by (simp add: example_running_def stats_new_def counter_new_def)

lemma example_running_reach: "app_reach Dev example_params example_running"
  by (rule reach_audio [OF reach_init _ example_first_packet]) (simp add: malloc_fresh_def app_init_def)

theorem queue_sharing_is_safe_witness:
  "handle_audio Dev example_params (\<lambda>_. 8192) True (7, 5) example_running \<noteq> None
    \<and> stream_turn Dev example_params 0 example_running \<noteq> None"
  using queue_sharing_is_safe [OF example_running_reach example_params_laws, of "\<lambda>_. 8192" True "(7, 5)"]
  by (simp add: malloc_fresh_def example_running_def)

text \<open>A packet of session 4 while the task of session 3 runs.\<close>

definition example_replaced :: "(nat, duration list, int list, (u64 \<times> nat) option list) app_state" where
  "example_replaced =
     \<lparr>app_stream = Some \<lparr>stream_sid = 4, stream_timing = timing_default list_history list_history,
        stream_queue = 8192, stream_start = Started\<rparr>,
      app_mem = \<lparr>mem_live = (\<lambda>_. None)(
          4096 \<mapsto> \<lparr>sb_data = \<lparr>pq_queue = [Some (7, 3)], pq_head_seq = 7\<rparr>, sb_refcount = 1\<rparr>,
          8192 \<mapsto> \<lparr>sb_data = \<lparr>pq_queue = [Some (1, 4)], pq_head_seq = 1\<rparr>, sb_refcount = 2\<rparr>), mem_frees = []\<rparr>,
      app_tasks = [8192, 4096], app_stats = stats_new\<lparr>audio_packets_received_on_time := 2\<rparr>\<rparr>"

lemma example_second_session:
  "handle_audio Dev example_params (\<lambda>_. 8192) True (1, 4) example_running = Some (Ok example_replaced)"
proof -
  have expand: "pq_expand list_deque 0 [] = Some (Ok [None :: (u64 \<times> nat) option])"
    by (subst pq_expand_step(1) [where q' = "[None]"]) (simp_all add: list_deque_def pq_expand_step(2))
  have slot: "queue_slot_mut list_deque 1 \<lparr>pq_queue = [], pq_head_seq = 1\<rparr>
      = Some (Ok (Inr ((False, 0), None), \<lparr>pq_queue = [None :: (u64 \<times> nat) option], pq_head_seq = 1\<rparr>))"
    using expand by (simp add: queue_slot_mut_def checked_sub_def list_deque_def Let_def)
  have new: "pq_new list_deque 1 = \<lparr>pq_queue = [] :: (u64 \<times> nat) option list, pq_head_seq = 1\<rparr>"
    by (simp add: pq_new_def list_deque_def)
  let ?st = "stats_new\<lparr>audio_packets_received_on_time := 1\<rparr>"
  have insert: "insert_packet Dev list_deque fst (1, 4) \<lparr>pq_queue = [], pq_head_seq = 1\<rparr> ?st
      = Some (Ok (\<lparr>pq_queue = [Some (1 :: u64, 4 :: nat)], pq_head_seq = 1\<rparr>, stats_new\<lparr>audio_packets_received_on_time := 2\<rparr>))"
    by (simp add: insert_packet_def slot add_word_def counter_increment_def counter_add_def stats_new_def
        counter_new_def) (simp add: list_deque_def)
  show ?thesis
    by (simp add: handle_audio_def prepare_stream_def stream_new_def packet_queue_new_def shared_alloc_def
        box_alloc_def alloc_layout_def system_alloc_def example_params_def example_running_def new stream_drop_def
        shared_drop_def drop_free_def
        receive_audio_def queue_receive_packet_def shared_deref_def box_deref_def insert shared_update_def
        box_deref_mut_def start_task_def shared_clone_def DELAY_START_PACKETS_def DELAY_START_MS_def
        example_replaced_def fun_upd_twist)
qed

lemma example_replaced_reach: "app_reach Dev example_params example_replaced"
  by (rule reach_audio [OF example_running_reach _ example_second_session]) (simp add: malloc_fresh_def example_running_def)

text \<open>C10: a stream task whose DAC works ends exactly when its stream has been replaced, and takes the queue with it: at a
  turn of task \<open>i\<close> in a reachable state, if the receiver no longer has the task's queue the turn ends the task,
  without a panic, and releases the queue's memory; while the receiver has it, a turn that does not panic
  plays on.\<close>

theorem task_ends_when_replaced:
  assumes "app_reach p P app" "deque_laws (ap_deque P) items" "ap_queue_bytes P \<noteq> 0"
    and "i < length (app_tasks app)"
  shows "if \<exists>s. app_stream app = Some s \<and> stream_queue s = app_tasks app ! i
    then \<exists>r. stream_turn p P i app = Some r
      \<and> (\<forall>out app'. r = Ok (out, app') \<longrightarrow> out \<noteq> None \<and> app_tasks app' = app_tasks app)
    else \<exists>app'. stream_turn p P i app = Some (Ok (None, app'))
      \<and> mem_live (app_mem app') (app_tasks app ! i) = None
      \<and> set (app_tasks app') = set (app_tasks app) - {app_tasks app ! i}"
proof -
  have "stream_holds (app_stream app) (app_tasks app ! i) = 0
      \<longleftrightarrow> \<not> (\<exists>s. app_stream app = Some s \<and> stream_queue s = app_tasks app ! i)"
    by (auto simp: stream_holds_def split: option.splits)
  then show ?thesis
    using stream_turn_spec [OF app_reach_inv [OF assms(1-3)] assms(2,4), of p] by auto
qed

text \<open>After \<^const>\<open>example_replaced\<close> the task of session 3 ends and that of session 4 plays.\<close>

theorem task_ends_when_replaced_witness:
  "\<exists>app1 app2. stream_turn Dev example_params 1 example_replaced = Some (Ok (None, app1))
    \<and> mem_live (app_mem app1) 4096 = None \<and> set (app_tasks app1) = {8192}
    \<and> stream_turn Dev example_params 0 example_replaced = Some (Ok (Some (Some (1, 4)), app2))
    \<and> app_tasks app2 = [8192, 4096]"
proof -
  obtain s where s: "app_stream example_replaced = Some s" "stream_queue s = 8192"
    by (simp add: example_replaced_def)
  have tasks: "app_tasks example_replaced = [8192, 4096]" by (simp add: example_replaced_def)
  note turn = task_ends_when_replaced [OF example_replaced_reach example_params_laws]
  obtain app1 where app1: "stream_turn Dev example_params 1 example_replaced = Some (Ok (None, app1))"
    "mem_live (app_mem app1) 4096 = None" "set (app_tasks app1) = {8192, 4096} - {4096}"
    using turn [of 1] s tasks by auto
  let ?shared = "\<lparr>pq_queue = [Some (1, 4)], pq_head_seq = 1\<rparr> :: (u64 \<times> nat) option list pq_shared"
  have pop: "pq_pop_front Dev list_deque ?shared = Ok (Some (1, 4), \<lparr>pq_queue = [], pq_head_seq = 2\<rparr>)"
    by (simp add: pq_pop_front_def add_word_def list_deque_def)
  obtain app2 where "stream_turn Dev example_params 0 example_replaced = Some (Ok (Some (Some (1, 4)), app2))"
    by (simp add: stream_turn_def example_replaced_def example_params_def queue_disconnected_def shared_unique_def
        box_deref_def shared_deref_def pop shared_update_def box_deref_mut_def)
  moreover from this have "app_tasks app2 = [8192, 4096]" using turn [of 0] s tasks by auto
  moreover have "{8192, 4096} - {4096} = {8192 :: nat}" by auto
  ultimately show ?thesis using app1 by simp
qed

text \<open>The receiver never goes back to an older session: the stream after a packet has at least the
  session id of the stream before, and exactly the packet's when that is newer, as long as the new queue
  can be allocated.\<close>

theorem session_never_goes_back:
  assumes "app_reach p P app" "deque_laws (ap_deque P) items" "ap_queue_bytes P \<noteq> 0"
    and "malloc_fresh malloc (app_mem app)" "malloc (ap_queue_bytes P) \<noteq> 0" "ap_queue_bytes P < 2 ^ 32"
    and "handle_audio p P malloc spawned audio app = Some (Ok app')"
  shows "\<exists>s'. app_stream app' = Some s' \<and> stream_sid s'
    = (case app_stream app of None \<Rightarrow> ap_sid P audio | Some s \<Rightarrow> max (stream_sid s) (ap_sid P audio))"
proof -
  note inv = app_reach_inv [OF assms(1-3)]
  let ?sid = "ap_sid P audio"
  obtain app1 where app1: "prepare_stream P malloc ?sid (ap_seq P audio) app = Some app1"
    "app_inv P items app1"
    "if is_new_session ?sid app then
       (case app_stream app1 of None \<Rightarrow> True
        | Some s \<Rightarrow> stream_sid s = ?sid \<and> stream_start s = ReceivingPackets 0
            \<and> stream_queue s \<notin> set (app_tasks app)
            \<and> shared_deref (stream_queue s) (app_mem app1) = Some (pq_new (ap_deque P) (ap_seq P audio)))
     else app1 = app"
    using prepare_stream_spec [OF inv assms(2,4,3)] by blast
  have "app_stream app1 \<noteq> None"
    using app1(1) assms(3,5,6)
    by (auto simp: prepare_stream_def stream_new_def packet_queue_new_def shared_alloc_def box_alloc_def
        alloc_layout_def system_alloc_def Let_def split: option.splits if_splits)
  then obtain s where s: "app_stream app1 = Some s" by blast
  have sid: "stream_sid s = (case app_stream app of None \<Rightarrow> ?sid | Some s0 \<Rightarrow> max (stream_sid s0) ?sid)"
    using app1(3) s by (auto simp: is_new_session_def max_def split: option.splits if_splits)
  have "receive_audio p P spawned audio s app1 = Some (Ok app')"
    using assms(7) app1(1) s by (simp add: handle_audio_def)
  then obtain s' where "app_stream app' = Some s'" "stream_sid s' = stream_sid s"
    using receive_audio_spec [OF app1(2) assms(2) s, of p spawned audio] by auto
  then show ?thesis using sid by auto
qed

theorem session_never_goes_back_witness:
  "\<exists>s'. app_stream example_running = Some s' \<and> stream_sid s' = 3"
  using session_never_goes_back [OF reach_init example_params_laws _ _ _ example_first_packet]
  by (simp add: malloc_fresh_def app_init_def example_params_def)

text \<open>C34: audio of an older session is not dropped: it goes to the stream of the newer session, filed by
  its sequence number like the session's own packets, although the same receiver ignores time packets
  of that older session.\<close>

theorem stale_audio_enters_newer_stream:
  assumes "app_reach p P app" "deque_laws (ap_deque P) items" "ap_queue_bytes P \<noteq> 0"
    and s: "app_stream app = Some s" "stream_start s = Started" "ap_sid P audio < stream_sid s"
    and shared: "shared_deref (stream_queue s) (app_mem app) = Some shared"
    and near: "unat (pq_head_seq shared) + MAX_QUEUED_PACKETS < 2 ^ 64"
      "unat (ap_seq P audio) < unat (pq_head_seq shared) + 2 ^ 32"
  shows "\<exists>app' shared'. handle_audio p P malloc spawned audio app = Some (Ok app')
    \<and> app_stream app' = Some s \<and> shared_deref (stream_queue s) (app_mem app') = Some shared'
    \<and> pq_abs items shared' = snd (play_insert (ap_seq P) audio (pq_abs items shared))
    \<and> get_stream (ap_sid P audio) app = None"
proof -
  note inv = app_reach_inv [OF assms(1-3)]
  have wf: "pq_wf (ap_deque P) items shared" using inv shared by (simp add: app_inv_def)
  obtain shared' stats' where ins:
    "insert_packet p (ap_deque P) (ap_seq P) audio shared (app_stats app) = Some (Ok (shared', stats'))"
    "pq_abs items shared' = snd (play_insert (ap_seq P) audio (pq_abs items shared))"
    "pq_wf (ap_deque P) items shared'"
    using insert_packet_refines [where seq_of = "ap_seq P", OF assms(2) wf near, of p "app_stats app"] by blast
  obtain m' where m': "shared_update (stream_queue s) shared' (app_mem app) = Some m'"
    "shared_deref (stream_queue s) m' = Some shared'"
    using app_inv_update [OF inv ins(3) shared] by blast
  have "prepare_stream P malloc (ap_sid P audio) (ap_seq P audio) app = Some app"
    using s(1,3) by (auto simp: prepare_stream_def)
  then have "handle_audio p P malloc spawned audio app = Some (Ok (app\<lparr>app_mem := m', app_stats := stats'\<rparr>))"
    using s(1,2) shared ins(1) m'(1) by (simp add: handle_audio_def receive_audio_def queue_receive_packet_def)
  then show ?thesis using s m'(2) ins(2) by (auto simp: get_stream_def)
qed

theorem stale_audio_enters_newer_stream_witness:
  "\<exists>app' shared'. handle_audio Dev example_params (\<lambda>_. 0) True (9, 2) example_running = Some (Ok app')
    \<and> shared_deref 4096 (app_mem app') = Some shared' \<and> held (pq_abs (\<lambda>q. q) shared') 9 = Some (9, 2)"
proof -
  let ?shared = "\<lparr>pq_queue = [Some (7, 3)], pq_head_seq = 7\<rparr> :: (u64 \<times> nat) option list pq_shared"
  let ?s = "\<lparr>stream_sid = 3, stream_timing = timing_default list_history list_history,
    stream_queue = 4096, stream_start = Started\<rparr> :: (nat, (duration list, int list) timing) stream"
  have "\<exists>app' shared'. handle_audio Dev example_params (\<lambda>_. 0) True (9, 2) example_running = Some (Ok app')
      \<and> app_stream app' = Some ?s \<and> shared_deref (stream_queue ?s) (app_mem app') = Some shared'
      \<and> pq_abs (\<lambda>q. q) shared' = snd (play_insert (ap_seq example_params) (9, 2) (pq_abs (\<lambda>q. q) ?shared))
      \<and> get_stream (ap_sid example_params (9, 2)) example_running = None"
    by (rule stale_audio_enters_newer_stream [OF example_running_reach example_params_laws])
      (simp_all add: example_running_def example_params_def shared_deref_def box_deref_def MAX_QUEUED_PACKETS_def)
  moreover have "held (snd (play_insert (ap_seq example_params) (9, 2) (pq_abs (\<lambda>q. q) ?shared))) 9 = Some (9, 2)"
    by (simp add: example_params_def MAX_QUEUED_PACKETS_def play_insert_def pq_abs_def slot_at_def)
  ultimately show ?thesis by force
qed

subsection \<open>The start of playback\<close>

fun audio_run ::
    "profile \<Rightarrow> ('a, 'sid::linorder, 'q, 'h, 'g, 'd) app_params \<Rightarrow> (nat \<Rightarrow> nat) \<Rightarrow> 'a list \<Rightarrow>
     ('sid, 'h, 'g, 'q) app_state \<Rightarrow> ('sid, 'h, 'g, 'q) app_state outcome option" where
  "audio_run p P malloc [] app = Some (Ok app)"
| "audio_run p P malloc (audio # audios) app =
     (case handle_audio p P malloc True audio app of
        Some (Ok app') \<Rightarrow> audio_run p P malloc audios app'
      | r \<Rightarrow> r)"

definition start_after :: "('a, 'sid, 'q, 'h, 'g, 'd) app_params \<Rightarrow> nat \<Rightarrow> buffer_start" where
  "start_after P n = (if n > DELAY_START_PACKETS P then Started else ReceivingPackets n)"

lemma receive_audio_start:
  assumes "receive_audio p P True audio s app = Some (Ok app')" "app_stream app = Some s"
    "stream_start s = start_after P n"
  shows "\<exists>s'. app_stream app' = Some s' \<and> stream_sid s' = stream_sid s \<and> stream_queue s' = stream_queue s
    \<and> stream_start s' = start_after P (Suc n)
    \<and> (stream_start s = Started \<longrightarrow> app_tasks app' = app_tasks app)
    \<and> (stream_start s \<noteq> Started \<and> stream_start s' = Started \<longrightarrow> stream_queue s \<in> set (app_tasks app'))"
proof -
  obtain r where r: "queue_receive_packet p P audio (stream_queue s) app = Some r"
    "(case r of
        Panic e \<Rightarrow> Some (Panic e)
      | Ok app1 \<Rightarrow>
         (case stream_start s of
            ReceivingPackets cnt \<Rightarrow>
              let s' = s\<lparr>stream_start := ReceivingPackets (cnt + 1)\<rparr>
              in if cnt + 1 > DELAY_START_PACKETS P then start_task True s' app1
                 else Some (Ok (app1\<lparr>app_stream := Some s'\<rparr>))
          | Started \<Rightarrow> Some (Ok app1))) = Some (Ok app')"
    using assms(1) unfolding receive_audio_def bind_eq_Some_conv by blast
  then obtain app1 where r_ok: "r = Ok app1" by (cases r) auto
  note app1 = r [unfolded r_ok outcome.case]
  have "app_stream app1 = Some s" "app_tasks app1 = app_tasks app"
    using queue_receive_packet_stream [OF app1(1)] assms(2) by simp_all
  then show ?thesis
    using app1(2) assms(3)
    by (auto simp: start_after_def start_task_def Let_def split: if_splits)
qed

lemma audio_run_start:
  assumes "audio_run p P malloc audios app = Some (Ok app')" "\<forall>a\<in>set audios. ap_sid P a = stream_sid s"
    "app_stream app = Some s" "stream_start s = start_after P n"
    "app_inv P items app" "stream_start s = Started \<longrightarrow> stream_queue s \<in> set (app_tasks app)"
    "deque_laws (ap_deque P) items"
  shows "\<exists>s'. app_stream app' = Some s' \<and> stream_sid s' = stream_sid s \<and> stream_queue s' = stream_queue s
    \<and> stream_start s' = start_after P (n + length audios) \<and> app_inv P items app'
    \<and> (stream_start s' = Started \<longrightarrow> stream_queue s' \<in> set (app_tasks app'))"
  using assms(1-6)
proof (induction audios arbitrary: app s n)
  case Nil
  then show ?case by simp
next
  case (Cons audio audios)
  obtain app1 where app1: "handle_audio p P malloc True audio app = Some (Ok app1)"
    "audio_run p P malloc audios app1 = Some (Ok app')"
    using Cons.prems(1) by (auto split: option.splits outcome.splits)
  have r: "receive_audio p P True audio s app = Some (Ok app1)"
    using app1(1) Cons.prems(2,3) by (simp add: handle_audio_def prepare_stream_def)
  from receive_audio_start [OF this Cons.prems(3,4)]
  obtain s1 where s1: "app_stream app1 = Some s1" "stream_sid s1 = stream_sid s"
    "stream_queue s1 = stream_queue s" "stream_start s1 = start_after P (Suc n)"
    "stream_start s = Started \<longrightarrow> app_tasks app1 = app_tasks app"
    "stream_start s \<noteq> Started \<and> stream_start s1 = Started \<longrightarrow> stream_queue s \<in> set (app_tasks app1)" by blast
  have "app_inv P items app1"
    using receive_audio_spec [OF Cons.prems(5) assms(7) Cons.prems(3), of p True audio] r by auto
  moreover have "stream_start s1 = Started \<longrightarrow> stream_queue s1 \<in> set (app_tasks app1)"
    using s1(3,5,6) Cons.prems(6) by auto
  ultimately show ?case
    using Cons.IH [OF app1(2) _ s1(1,4)] Cons.prems(2) s1(2,3) by simp
qed

text \<open>C33: a stream's task starts after the configured delay, and once: from the moment a new session's
  stream is made, when its audio packets are handled without a panic, the task has been started exactly
  if more than \<^verbatim>\<open>DELAY_START_PACKETS\<close> of them have arrived; until then nobody plays the queue.\<close>

theorem playback_starts_after_delay:
  assumes "app_reach p P app0" "deque_laws (ap_deque P) items" "ap_queue_bytes P \<noteq> 0"
    and "malloc_fresh malloc (app_mem app0)" "is_new_session sid app0"
    and "prepare_stream P malloc sid seq app0 = Some app" "app_stream app = Some s"
    and "\<forall>a\<in>set audios. ap_sid P a = sid" "audio_run p P malloc' audios app = Some (Ok app')"
  shows "\<exists>s'. app_stream app' = Some s' \<and> stream_queue s' = stream_queue s
    \<and> stream_start s' = (if length audios > DELAY_START_PACKETS P then Started else ReceivingPackets (length audios))
    \<and> (stream_queue s \<in> set (app_tasks app') \<longleftrightarrow> length audios > DELAY_START_PACKETS P)"
proof -
  have app: "app_inv P items app" "stream_sid s = sid" "stream_start s = start_after P 0"
    using prepare_stream_spec [OF app_reach_inv [OF assms(1-3)] assms(2,4,3), of sid seq] assms(5-7)
    by (auto simp: start_after_def)
  have "\<forall>a\<in>set audios. ap_sid P a = stream_sid s" using assms(8) app(2) by simp
  from audio_run_start [OF assms(9) this assms(7) app(3,1) _ assms(2)]
  obtain s' where s': "app_stream app' = Some s'" "stream_queue s' = stream_queue s"
    "stream_start s' = start_after P (length audios)" "app_inv P items app'"
    "stream_start s' = Started \<longrightarrow> stream_queue s' \<in> set (app_tasks app')"
    using app(3) by (auto simp: start_after_def)
  have "stream_ok P (app_tasks app') s'" using s'(1,4) by (simp add: app_inv_def)
  then have "stream_queue s \<in> set (app_tasks app') \<longleftrightarrow> length audios > DELAY_START_PACKETS P"
    using s'(2,3,5) by (auto simp: stream_ok_def start_after_def split: if_splits)
  then show ?thesis using s'(1-3) by (simp add: start_after_def)
qed

theorem playback_starts_after_delay_witness:
  "\<exists>app s s'. prepare_stream example_params (\<lambda>_. 4096) 3 7 (app_init stats_new) = Some app
    \<and> app_stream app = Some s \<and> app_stream example_running = Some s' \<and> stream_start s' = Started"
proof -
  obtain app where app: "prepare_stream example_params (\<lambda>_. 4096) 3 7 (app_init stats_new) = Some app"
    "app_stream app = Some \<lparr>stream_sid = 3, stream_timing = timing_default list_history list_history,
        stream_queue = 4096, stream_start = ReceivingPackets 0\<rparr>"
    "handle_audio Dev example_params (\<lambda>_. 4096) True (7, 3) app = Some (Ok example_running)"
    using example_first_packet
    by (auto simp: handle_audio_def prepare_stream_def stream_new_def packet_queue_new_def shared_alloc_def
        box_alloc_def alloc_layout_def system_alloc_def example_params_def app_init_def stream_drop_def)
  have "audio_run Dev example_params (\<lambda>_. 4096) [(7, 3)] app = Some (Ok example_running)"
    using app(3) by simp
  from playback_starts_after_delay [OF reach_init example_params_laws _ _ app(1,2) _ this]
  show ?thesis using app(1,2)
    by (auto simp: malloc_fresh_def app_init_def is_new_session_def example_params_def DELAY_START_PACKETS_def
        DELAY_START_MS_def)
qed

end
