(* ===== verification/Registry.thy ===== *)
theory Registry
  imports Prelude
begin

text \<open>
  The task registry of \<^verbatim>\<open>src/system/task/registry.rs\<close>: 32 slots, each an atomic pointer to a task
  control block or null. A task owns the slot it has claimed until its registration is dropped; the
  slot's index is the task's id, and one bit of a waker set stands for it.

  A task pointer is the address of a control block; null is \<^const>\<open>None\<close>.
\<close>

subsection \<open>Ids and slots\<close>

type_synonym task_ptr = nat
type_synonym slots = "task_ptr option list"

datatype task_id = TaskId u8

definition MAX_TASKS :: nat where
  "MAX_TASKS = 32"

definition empty_slots :: slots where
  "empty_slots = replicate MAX_TASKS None"

definition task_id_new :: "nat \<Rightarrow> task_id outcome" where
  "task_id_new num =
     (if num > MAX_TASKS then Panic (ExplicitPanic ''argument passed to TaskId::new greater than MAX_TASKS'')
      else Ok (TaskId (of_nat num)))"

fun task_id_index :: "task_id \<Rightarrow> nat" where
  "task_id_index (TaskId i) = unat i"

text \<open>\<^verbatim>\<open>slot()\<close> indexes the static array, which panics out of range.\<close>

definition slot :: "slots \<Rightarrow> task_id \<Rightarrow> nat outcome" where
  "slot slots tid = (if task_id_index tid < length slots then Ok (task_id_index tid) else Panic IndexOutOfBounds)"

definition slot_load :: "slots \<Rightarrow> nat \<Rightarrow> task_ptr option" where
  "slot_load slots i = slots ! i"

definition slot_clear :: "slots \<Rightarrow> nat \<Rightarrow> slots" where
  "slot_clear slots i = slots[i := None]"

definition try_claim :: "slots \<Rightarrow> nat \<Rightarrow> task_ptr \<Rightarrow> (unit + unit) \<times> slots" where
  "try_claim slots i task = (if slots ! i = None then (Inr (), slots[i := Some task]) else (Inl (), slots))"

text \<open>\<^verbatim>\<open>1 << self.0\<close> on \<^verbatim>\<open>u32\<close>: shifting by 32 or more overflows.\<close>

fun as_bit :: "profile \<Rightarrow> task_id \<Rightarrow> u32 outcome" where
  "as_bit p (TaskId i) =
     (if unat i < 32 then Ok (push_bit (unat i) 1)
      else if p = Dev then Panic ArithmeticOverflow
      else Ok (push_bit (unat i mod 32) 1))"

text \<open>\<^verbatim>\<open>(0..MAX_TASKS).map(TaskId::new)\<close>; the conversion does not panic on this range.\<close>

definition task_id_iter :: "task_id list" where
  "task_id_iter = map (\<lambda>n. TaskId (of_nat n)) [0..<MAX_TASKS]"

definition as_opaque_ptr :: "task_id \<Rightarrow> nat" where
  "as_opaque_ptr tid = task_id_index tid"

definition from_opaque_ptr :: "nat \<Rightarrow> task_id outcome" where
  "from_opaque_ptr opaque = task_id_new opaque"

subsection \<open>Registering and looking up the current task\<close>

fun claim_scan :: "task_id list \<Rightarrow> task_ptr \<Rightarrow> slots \<Rightarrow> (task_id \<times> slots) outcome" where
  "claim_scan [] task slots =
     Panic (ExplicitPanic ''failed to register task, all slots taken! there should never be this many tasks!'')"
| "claim_scan (tid # ids) task slots =
     bind_outcome (slot slots tid) (\<lambda>i.
       case try_claim slots i task of
         (Inr _, slots') \<Rightarrow> Ok (tid, slots')
       | (Inl _, slots') \<Rightarrow> claim_scan ids task slots')"

definition new_for_current_task :: "task_ptr \<Rightarrow> slots \<Rightarrow> (task_id \<times> slots) outcome" where
  "new_for_current_task task slots = claim_scan task_id_iter task slots"

definition registration_drop :: "task_id \<Rightarrow> slots \<Rightarrow> slots outcome" where
  "registration_drop tid slots = bind_outcome (slot slots tid) (\<lambda>i. Ok (slot_clear slots i))"

fun find_scan :: "task_id list \<Rightarrow> task_ptr \<Rightarrow> slots \<Rightarrow> task_id outcome" where
  "find_scan [] task slots =
     Panic (ExplicitPanic ''must not call TaskId::current from non-registered task'')"
| "find_scan (tid # ids) task slots =
     bind_outcome (slot slots tid) (\<lambda>i.
       if slot_load slots i = Some task then Ok tid else find_scan ids task slots)"

definition task_id_current :: "task_ptr \<Rightarrow> slots \<Rightarrow> task_id outcome" where
  "task_id_current task slots = find_scan task_id_iter task slots"

subsection \<open>Scans as searches for an index\<close>

definition nth_id :: "nat \<Rightarrow> task_id" where
  "nth_id n = TaskId (of_nat n)"

lemma task_id_index_nth [simp]: "n < 32 \<Longrightarrow> task_id_index (nth_id n) = n"
  by (simp add: nth_id_def unat_of_nat)

lemma slot_nth [simp]: "length slots = 32 \<Longrightarrow> n < 32 \<Longrightarrow> slot slots (nth_id n) = Ok n"
  by (simp add: slot_def)

lemma as_bit_nth [simp]: "n < 32 \<Longrightarrow> as_bit p (nth_id n) = Ok (push_bit n 1)"
  by (simp add: nth_id_def unat_of_nat)

lemma opaque_roundtrip:
  "n < 32 \<Longrightarrow> from_opaque_ptr (as_opaque_ptr (nth_id n)) = Ok (nth_id n)"
  by (simp add: from_opaque_ptr_def as_opaque_ptr_def task_id_new_def MAX_TASKS_def nth_id_def unat_of_nat)

lemma claim_scan_upt:
  "length slots = 32 \<Longrightarrow> m < 32 \<Longrightarrow> claim_scan (map nth_id [m..<32]) task slots =
    (if slots ! m = None then Ok (nth_id m, slots[m := Some task])
     else claim_scan (map nth_id [Suc m..<32]) task slots)"
  by (simp add: upt_conv_Cons [of m] try_claim_def del: upt_Suc)

lemma find_scan_upt:
  "length slots = 32 \<Longrightarrow> m < 32 \<Longrightarrow> find_scan (map nth_id [m..<32]) task slots =
    (if slots ! m = Some task then Ok (nth_id m) else find_scan (map nth_id [Suc m..<32]) task slots)"
  by (simp add: upt_conv_Cons [of m] slot_load_def del: upt_Suc)

lemma claim_scan_first:
  assumes "length slots = 32" "m \<le> i" "i < 32" "slots ! i = None"
    and "\<And>j. m \<le> j \<Longrightarrow> j < i \<Longrightarrow> slots ! j \<noteq> None"
  shows "claim_scan (map nth_id [m..<32]) task slots = Ok (nth_id i, slots[i := Some task])"
  using assms(2,5)
proof (induction "i - m" arbitrary: m)
  case 0
  then show ?case using assms by (simp add: claim_scan_upt [OF assms(1)])
next
  case (Suc d)
  then have m: "m < i" "slots ! m \<noteq> None" by auto
  then have "claim_scan (map nth_id [m..<32]) task slots = claim_scan (map nth_id [Suc m..<32]) task slots"
    using claim_scan_upt [OF assms(1), of m task] assms(3) by auto
  then show ?case using Suc.hyps(1) [of "Suc m"] Suc.hyps(2) Suc.prems m by simp
qed

lemma claim_scan_full:
  assumes "length slots = 32" "\<And>j. m \<le> j \<Longrightarrow> j < 32 \<Longrightarrow> slots ! j \<noteq> None" "m \<le> 32"
  shows "claim_scan (map nth_id [m..<32]) task slots =
    Panic (ExplicitPanic ''failed to register task, all slots taken! there should never be this many tasks!'')"
  using assms(2,3)
proof (induction "32 - m" arbitrary: m)
  case 0
  then show ?case by simp
next
  case (Suc d)
  then have m: "m < 32" "slots ! m \<noteq> None" by auto
  then have "claim_scan (map nth_id [m..<32]) task slots = claim_scan (map nth_id [Suc m..<32]) task slots"
    using claim_scan_upt [OF assms(1), of m task] by auto
  then show ?case using Suc.hyps(1) [of "Suc m"] Suc.hyps(2) Suc.prems m by simp
qed

lemma find_scan_first:
  assumes "length slots = 32" "m \<le> i" "i < 32" "slots ! i = Some task"
    and "\<And>j. m \<le> j \<Longrightarrow> j < i \<Longrightarrow> slots ! j \<noteq> Some task"
  shows "find_scan (map nth_id [m..<32]) task slots = Ok (nth_id i)"
  using assms(2,5)
proof (induction "i - m" arbitrary: m)
  case 0
  then show ?case using assms by (simp add: find_scan_upt [OF assms(1)])
next
  case (Suc d)
  then have m: "m < i" "slots ! m \<noteq> Some task" by auto
  then have "find_scan (map nth_id [m..<32]) task slots = find_scan (map nth_id [Suc m..<32]) task slots"
    using find_scan_upt [OF assms(1), of m task] assms(3) by simp
  then show ?case using Suc.hyps(1) [of "Suc m"] Suc.hyps(2) Suc.prems m by simp
qed

lemma task_id_iter_upt: "task_id_iter = map nth_id [0..<32]"
  by (simp add: task_id_iter_def MAX_TASKS_def nth_id_def)

text \<open>The first index with a property, for the statements about scans.\<close>

lemma first_index:
  fixes P :: "nat \<Rightarrow> bool"
  assumes "\<exists>i<n. P i"
  obtains i where "i < n" "P i" "\<And>j. j < i \<Longrightarrow> \<not> P j"
  using assms exists_least_iff [of "\<lambda>i. i < n \<and> P i"] by (metis less_trans)

subsection \<open>Concurrent registration\<close>

text \<open>
  Tasks register concurrently: each scans the slots from 0 and tries to claim one slot per atomic
  \<^verbatim>\<open>compare_exchange\<close>. A task is outside, has failed on the slots below \<open>i\<close>, or holds slot \<open>i\<close>.
\<close>

datatype reg_pc = ROutside | RScanning nat | RHolding nat

record reg_state =
  rs_slots :: slots
  rs_pc :: "task_ptr \<Rightarrow> reg_pc"

definition reg_init :: reg_state where
  "reg_init = \<lparr>rs_slots = empty_slots, rs_pc = (\<lambda>_. ROutside)\<rparr>"

inductive reg_step :: "reg_state \<Rightarrow> reg_state \<Rightarrow> bool" where
  begin_scan: "rs_pc s t = ROutside \<Longrightarrow>
    reg_step s (s\<lparr>rs_pc := (rs_pc s)(t := RScanning 0)\<rparr>)"
| claim_ok: "rs_pc s t = RScanning i \<Longrightarrow> i < MAX_TASKS \<Longrightarrow>
    try_claim (rs_slots s) i t = (Inr u, slots') \<Longrightarrow>
    reg_step s (s\<lparr>rs_slots := slots', rs_pc := (rs_pc s)(t := RHolding i)\<rparr>)"
| claim_taken: "rs_pc s t = RScanning i \<Longrightarrow> i < MAX_TASKS \<Longrightarrow>
    try_claim (rs_slots s) i t = (Inl e, slots') \<Longrightarrow>
    reg_step s (s\<lparr>rs_slots := slots', rs_pc := (rs_pc s)(t := RScanning (Suc i))\<rparr>)"
| drop_registration: "rs_pc s t = RHolding i \<Longrightarrow>
    reg_step s (s\<lparr>rs_slots := slot_clear (rs_slots s) i, rs_pc := (rs_pc s)(t := ROutside)\<rparr>)"

inductive reg_reachable :: "reg_state \<Rightarrow> bool" where
  start: "reg_reachable reg_init"
| step: "reg_reachable s \<Longrightarrow> reg_step s t \<Longrightarrow> reg_reachable t"

definition reg_inv :: "reg_state \<Rightarrow> bool" where
  "reg_inv s \<longleftrightarrow> length (rs_slots s) = MAX_TASKS
     \<and> (\<forall>t i. rs_pc s t = RHolding i \<longleftrightarrow> i < MAX_TASKS \<and> rs_slots s ! i = Some t)"

lemma reg_inv_not_holding:
  "reg_inv s \<Longrightarrow> \<forall>i. rs_pc s t \<noteq> RHolding i \<Longrightarrow> i < MAX_TASKS \<Longrightarrow> rs_slots s ! i \<noteq> Some t"
  by (auto simp: reg_inv_def)

lemma reg_step_inv: "reg_step s s' \<Longrightarrow> reg_inv s \<Longrightarrow> reg_inv s'"
proof (induction rule: reg_step.induct)
  case (begin_scan s t)
  then have "rs_slots s ! i \<noteq> Some t" if "i < MAX_TASKS" for i
    using reg_inv_not_holding [OF begin_scan(2), of t i] begin_scan(1) that by simp
  then show ?case using begin_scan by (auto simp: reg_inv_def)
next
  case (claim_ok s t i u slots')
  then have "rs_slots s ! i = None" "slots' = (rs_slots s)[i := Some t]"
    by (auto simp: try_claim_def split: if_splits)
  moreover have "rs_slots s ! j \<noteq> Some t" if "j < MAX_TASKS" for j
    using reg_inv_not_holding [OF claim_ok(4), of t j] claim_ok(1) that by simp
  ultimately show ?case using claim_ok by (auto simp: reg_inv_def nth_list_update)
next
  case (claim_taken s t i e slots')
  then have "rs_slots s ! j \<noteq> Some t" if "j < MAX_TASKS" for j
    using reg_inv_not_holding [OF claim_taken(4), of t j] that by simp
  then show ?case using claim_taken by (auto simp: reg_inv_def try_claim_def split: if_splits)
next
  case (drop_registration s t i)
  then have "j = i" if "j < MAX_TASKS" "rs_slots s ! j = Some t" for j
    using that unfolding reg_inv_def by (metis reg_pc.inject(2))
  then show ?case using drop_registration by (auto simp: reg_inv_def slot_clear_def nth_list_update)
qed

lemma reg_init_inv: "reg_inv reg_init"
  by (simp add: reg_init_def reg_inv_def empty_slots_def)

lemma reg_reachable_inv: "reg_reachable s \<Longrightarrow> reg_inv s"
  by (induction rule: reg_reachable.induct) (auto intro: reg_init_inv reg_step_inv)

subsection \<open>Properties\<close>

text \<open>Registering takes the lowest free slot and leaves the others alone; it panics exactly when
  all 32 slots are taken.\<close>

theorem register_lowest_free:
  assumes "length slots = 32"
  shows "(case new_for_current_task task slots of
      Ok (tid, slots') \<Rightarrow> (\<exists>i<32. tid = nth_id i \<and> slots ! i = None \<and> (\<forall>j<i. slots ! j \<noteq> None)
        \<and> slots' = slots[i := Some task])
    | Panic _ \<Rightarrow> (\<forall>i<32. slots ! i \<noteq> None))"
proof (cases "\<exists>i<32. slots ! i = None")
  case True
  then obtain i where "i < 32" "slots ! i = None" "\<And>j. j < i \<Longrightarrow> slots ! j \<noteq> None"
    by (rule first_index) blast
  then show ?thesis
    using claim_scan_first [OF assms, of 0 i task]
    by (auto simp: new_for_current_task_def task_id_iter_upt)
next
  case False
  then show ?thesis
    using claim_scan_full [OF assms, of 0 task]
    by (simp add: new_for_current_task_def task_id_iter_upt)
qed

theorem register_lowest_free_witness:
  "new_for_current_task 100 empty_slots = Ok (nth_id 0, empty_slots[0 := Some 100])"
proof -
  have len: "length empty_slots = 32" and none: "\<And>i. i < 32 \<Longrightarrow> empty_slots ! i = None"
    by (simp_all add: empty_slots_def MAX_TASKS_def)
  show ?thesis
  proof (cases "new_for_current_task 100 empty_slots")
    case (Ok r)
    obtain tid slots' where r: "r = (tid, slots')" by (cases r)
    obtain i where "i < 32" "tid = nth_id i" "\<forall>j<i. empty_slots ! j \<noteq> None" "slots' = empty_slots[i := Some 100]"
      using register_lowest_free [OF len, of 100] by (auto simp: Ok r)
    moreover from this have "i = 0" using none [of 0] by (cases i) auto
    ultimately show ?thesis by (simp add: Ok r)
  next
    case (Panic e)
    then have "\<forall>i<32. empty_slots ! i \<noteq> None" using register_lowest_free [OF len, of 100] by simp
    with none [of 0] have False by (metis zero_less_numeral)
    then show ?thesis ..
  qed
qed

text \<open>C29: two tasks never hold the same id, however their scans interleave, and a task that holds id
  \<open>i\<close> is told exactly \<open>i\<close> when it asks for its own id.\<close>

theorem registration_unique:
  assumes "reg_reachable s" "rs_pc s t = RHolding i"
  shows "(rs_pc s t' = RHolding i \<longrightarrow> t' = t) \<and> task_id_current t (rs_slots s) = Ok (nth_id i)"
proof -
  have inv: "length (rs_slots s) = 32" "\<And>t i. rs_pc s t = RHolding i \<longleftrightarrow> i < 32 \<and> rs_slots s ! i = Some t"
    using reg_reachable_inv [OF assms(1)] by (auto simp: reg_inv_def MAX_TASKS_def)
  have own: "i < 32" "rs_slots s ! i = Some t" using inv(2) assms(2) by auto
  moreover have "rs_slots s ! j \<noteq> Some t" if "j < i" for j
    using inv(2) [of t j] assms(2) that own by auto
  ultimately have "task_id_current t (rs_slots s) = Ok (nth_id i)"
    using find_scan_first [OF inv(1), of 0 i t] by (simp add: task_id_current_def task_id_iter_upt)
  then show ?thesis using inv(2) own by auto
qed

text \<open>The first of two tasks has claimed slot 0, the second is scanning.\<close>

definition reg_example :: reg_state where
  "reg_example = \<lparr>rs_slots = empty_slots[0 := Some 100],
     rs_pc = (\<lambda>_. ROutside)(200 := RScanning 0, 100 := RHolding 0)\<rparr>"

lemma reg_example_reachable: "reg_reachable reg_example"
proof -
  let ?s1 = "\<lparr>rs_slots = empty_slots, rs_pc = (\<lambda>_. ROutside)(200 := RScanning 0)\<rparr>"
  let ?s2 = "\<lparr>rs_slots = empty_slots, rs_pc = (\<lambda>_. ROutside)(200 := RScanning 0, 100 := RScanning 0)\<rparr>"
  have "reg_step reg_init ?s1" using reg_step.begin_scan [of reg_init 200] by (simp add: reg_init_def)
  moreover have "reg_step ?s1 ?s2" using reg_step.begin_scan [of ?s1 100] by simp
  moreover have "reg_step ?s2 reg_example"
    using reg_step.claim_ok [of ?s2 100 0 "()" "empty_slots[0 := Some 100]"]
    by (simp add: try_claim_def empty_slots_def MAX_TASKS_def reg_example_def)
  ultimately show ?thesis by (blast intro: reg_reachable.intros)
qed

theorem registration_unique_witness:
  "rs_pc reg_example 200 \<noteq> RHolding 0 \<and> task_id_current 100 (rs_slots reg_example) = Ok (nth_id 0)"
  using registration_unique [OF reg_example_reachable, of 100 0 200] by (simp add: reg_example_def)

end
