(* ===== verification/IsrResult.thy ===== *)
theory IsrResult
  imports Prelude
begin

text \<open>
  Results of operations called from an interrupt (\<^verbatim>\<open>src/sync/isr.rs\<close>): a result together with the
  flag that tells the interrupt epilogue to run the scheduler.
\<close>

record ('t, 'e) isr_result =
  isr_res :: "'e + 't"
  need_wake :: bool

text \<open>
  \<^verbatim>\<open>Infallible\<close> has no value. HOL types are not empty, so it is a type whose one value no operation
  returns.
\<close>

type_synonym infallible = unit

definition isr_ok :: "'t \<Rightarrow> bool \<Rightarrow> ('t, 'e) isr_result" where
  "isr_ok v wake = \<lparr>isr_res = Inr v, need_wake = wake\<rparr>"

definition isr_err :: "'e \<Rightarrow> bool \<Rightarrow> ('t, 'e) isr_result" where
  "isr_err e wake = \<lparr>isr_res = Inl e, need_wake = wake\<rparr>"

definition isr_default :: "(unit, 'e) isr_result" where
  "isr_default = isr_ok () False"

definition isr_map :: "('t \<Rightarrow> 'u) \<Rightarrow> ('t, 'e) isr_result \<Rightarrow> ('u, 'e) isr_result" where
  "isr_map f r = \<lparr>isr_res = map_sum id f (isr_res r), need_wake = need_wake r\<rparr>"

definition isr_chain :: "('t, 'e) isr_result \<Rightarrow> ('u, 'f) isr_result \<Rightarrow> ('u, 'f) isr_result" where
  "isr_chain self other = \<lparr>isr_res = isr_res other, need_wake = need_wake self \<or> need_wake other\<rparr>"

lemma isr_simps [simp]:
  "isr_res (isr_ok v b) = Inr v" "need_wake (isr_ok v b) = b"
  "isr_res (isr_err e b) = Inl e" "need_wake (isr_err e b) = b"
  "isr_res (isr_chain r1 r2) = isr_res r2"
  "need_wake (isr_chain r1 r2) = (need_wake r1 \<or> need_wake r2)"
  by (simp_all add: isr_ok_def isr_err_def isr_chain_def)

lemma isr_chain_assoc: "isr_chain (isr_chain a b) c = isr_chain a (isr_chain b c)"
  by (simp add: isr_chain_def)

end
