(* ===== verification/WakeSet.thy ===== *)
theory WakeSet
  imports Prelude
begin

text \<open>
  The contract of a set of tasks to wake, on which every blocking primitive of the firmware relies:
  a task that is about to wait adds its id, the side that makes progress takes the whole set in one
  atomic step and notifies its members. The task waker set provides it; the task mutex, the queue
  and the DAC driver are its clients.
\<close>

locale wake_set =
  fixes ids :: "'s \<Rightarrow> nat set"
    and none :: 's
    and add :: "nat \<Rightarrow> 's \<Rightarrow> 's"
    and take_all :: "'s \<Rightarrow> nat list \<times> 's"
    and valid :: "nat \<Rightarrow> bool"
  assumes ids_none: "ids none = {}"
    and ids_add: "valid i \<Longrightarrow> ids (add i s) = insert i (ids s)"
    and ids_taken: "set (fst (take_all s)) = ids s"
    and taken_distinct: "distinct (fst (take_all s))"
    and ids_left: "ids (snd (take_all s)) = {}"
begin

text \<open>Registering twice, or in another order, makes no difference to who is woken.\<close>

lemma add_commute:
  "valid i \<Longrightarrow> valid j \<Longrightarrow>
   set (fst (take_all (add i (add j s)))) = set (fst (take_all (add j (add i s))))"
  by (simp add: ids_taken ids_add insert_commute)

lemma add_idem: "valid i \<Longrightarrow> ids (add i (add i s)) = ids (add i s)"
  by (simp add: ids_add)

text \<open>A fold of registrations followed by a take wakes each registered task exactly once.\<close>

lemma ids_fold_add: "\<forall>i\<in>set is. valid i \<Longrightarrow> ids (fold add is s) = set is \<union> ids s"
  by (induction "is" arbitrary: s) (auto simp: ids_add)

lemma take_after_adds:
  assumes "\<forall>i\<in>set is. valid i"
  shows "set (fst (take_all (fold add is none))) = set is"
    and "distinct (fst (take_all (fold add is none)))"
  using ids_fold_add [OF assms, of none] by (simp_all add: ids_taken ids_none taken_distinct)

end

end
