(* ===== verification/Waker.thy ===== *)
theory Waker
  imports Registry IsrResult WakeSet
begin

text \<open>
  Task wakers and waker sets (\<^verbatim>\<open>src/system/task/waker.rs\<close>). A waker carries a task id as an opaque
  pointer, recognised by its vtable; a waker set is one bit per registry slot in an atomic 32-bit
  word. The FreeRTOS notification calls are effects: the model returns the list of tasks notified,
  and a parameter says which notifications from an interrupt ask for a context switch.
\<close>

subsection \<open>Wakers\<close>

datatype vtable = OurVtable | ForeignVtable nat

record raw_waker =
  waker_data :: nat
  waker_vtable :: vtable

definition raw_waker_new :: "task_id \<Rightarrow> raw_waker" where
  "raw_waker_new tid = \<lparr>waker_data = as_opaque_ptr tid, waker_vtable = OurVtable\<rparr>"

definition same_vtable :: "raw_waker \<Rightarrow> bool" where
  "same_vtable waker \<longleftrightarrow> waker_vtable waker = OurVtable"

definition waker_task_id :: "raw_waker \<Rightarrow> task_id option outcome" where
  "waker_task_id waker =
     (if same_vtable waker
      then bind_outcome (from_opaque_ptr (waker_data waker)) (\<lambda>tid. Ok (Some tid))
      else Ok None)"

definition raw_waker_clone :: "nat \<Rightarrow> raw_waker" where
  "raw_waker_clone data = \<lparr>waker_data = data, waker_vtable = OurVtable\<rparr>"

text \<open>The vtable's \<^verbatim>\<open>wake\<close>: notify the task in the slot, if there is one.\<close>

definition raw_waker_wake :: "slots \<Rightarrow> nat \<Rightarrow> task_ptr list outcome" where
  "raw_waker_wake slots data =
     bind_outcome (from_opaque_ptr data) (\<lambda>tid.
     bind_outcome (slot slots tid) (\<lambda>i.
     Ok (case slot_load slots i of Some task \<Rightarrow> [task] | None \<Rightarrow> [])))"

text \<open>A foreign waker does not name a task, so the registry is searched for the running one.\<close>

definition task_waker_from_context :: "raw_waker \<Rightarrow> task_ptr \<Rightarrow> slots \<Rightarrow> task_id outcome" where
  "task_waker_from_context waker current slots =
     bind_outcome (waker_task_id waker) (\<lambda>found.
       case found of Some tid \<Rightarrow> Ok tid | None \<Rightarrow> task_id_current current slots)"

subsection \<open>Waker sets\<close>

type_synonym waker_set = u32

definition waker_set_new :: waker_set where
  "waker_set_new = 0"

definition add_task ::
    "profile \<Rightarrow> raw_waker \<Rightarrow> task_ptr \<Rightarrow> slots \<Rightarrow> waker_set \<Rightarrow> waker_set outcome" where
  "add_task p waker current slots bits =
     bind_outcome (task_waker_from_context waker current slots) (\<lambda>tid.
     bind_outcome (as_bit p tid) (\<lambda>task_bit. Ok (bits OR task_bit)))"

fun wakeable_scan :: "profile \<Rightarrow> waker_set \<Rightarrow> slots \<Rightarrow> task_id list \<Rightarrow> task_ptr list outcome" where
  "wakeable_scan p bitset slots [] = Ok []"
| "wakeable_scan p bitset slots (tid # ids) =
     bind_outcome (as_bit p tid) (\<lambda>b.
       if bitset AND b \<noteq> 0 then
         bind_outcome (slot slots tid) (\<lambda>i.
         bind_outcome (wakeable_scan p bitset slots ids) (\<lambda>rest.
           Ok (case slot_load slots i of Some task \<Rightarrow> task # rest | None \<Rightarrow> rest)))
       else wakeable_scan p bitset slots ids)"

definition take_wakeable :: "profile \<Rightarrow> slots \<Rightarrow> waker_set \<Rightarrow> (task_ptr list \<times> waker_set) outcome" where
  "take_wakeable p slots bits =
     bind_outcome (wakeable_scan p bits slots task_id_iter) (\<lambda>tasks. Ok (tasks, 0))"

text \<open>The tasks notified, in order, and the set afterwards.\<close>

definition wake_all :: "profile \<Rightarrow> slots \<Rightarrow> waker_set \<Rightarrow> (task_ptr list \<times> waker_set) outcome" where
  "wake_all p slots bits = take_wakeable p slots bits"

definition wake_task_from_isr :: "(task_ptr \<Rightarrow> bool) \<Rightarrow> task_ptr \<Rightarrow> (unit, infallible) isr_result" where
  "wake_task_from_isr notify task = isr_ok () (notify task)"

definition wake_from_isr ::
    "profile \<Rightarrow> (task_ptr \<Rightarrow> bool) \<Rightarrow> slots \<Rightarrow> waker_set \<Rightarrow>
     ((unit, infallible) isr_result \<times> task_ptr list \<times> waker_set) outcome" where
  "wake_from_isr p notify slots bits =
     bind_outcome (take_wakeable p slots bits) (\<lambda>(tasks, bits').
       Ok (fold (\<lambda>task result. isr_chain result (wake_task_from_isr notify task)) tasks isr_default,
           tasks, bits'))"

subsection \<open>A waker set as a set of ids\<close>

definition waker_ids :: "waker_set \<Rightarrow> nat set" where
  "waker_ids bits = {i. i < 32 \<and> bit bits i}"

definition bits_add :: "nat \<Rightarrow> waker_set \<Rightarrow> waker_set" where
  "bits_add i bits = bits OR push_bit i 1"

definition bits_take :: "waker_set \<Rightarrow> nat list \<times> waker_set" where
  "bits_take bits = (filter (bit bits) [0..<32], 0)"

interpretation ws: wake_set waker_ids 0 bits_add bits_take "\<lambda>i. i < 32"
  by unfold_locales
    (auto simp: waker_ids_def bits_add_def bits_take_def bit_or_iff bit_exp_iff)

text \<open>A task that waits with its own waker, or with any waker while it holds its id, adds its id.\<close>

lemma add_task_own:
  assumes "n < 32"
  shows "add_task p (raw_waker_new (nth_id n)) current slots bits = Ok (bits_add n bits)"
  using opaque_roundtrip [OF assms] assms
  by (simp add: add_task_def task_waker_from_context_def waker_task_id_def same_vtable_def
      raw_waker_new_def bits_add_def)

lemma and_as_bit: "n < 32 \<Longrightarrow> (bits :: u32) AND push_bit n 1 \<noteq> 0 \<longleftrightarrow> bit bits n"
  by (simp add: and_exp_eq_0_iff_not_bit)

definition occupants :: "slots \<Rightarrow> nat list \<Rightarrow> task_ptr list" where
  "occupants slots is = List.map_filter (\<lambda>i. slots ! i) is"

lemma wakeable_scan_eq:
  assumes "length slots = 32" "\<forall>n\<in>set ns. n < 32"
  shows "wakeable_scan p bits slots (map nth_id ns) = Ok (occupants slots (filter (bit bits) ns))"
  using assms(2)
proof (induction ns)
  case Nil
  then show ?case by (simp add: occupants_def List.map_filter_simps)
next
  case (Cons n ns)
  then show ?case
    using assms(1) and_as_bit [of n bits]
    by (simp add: occupants_def List.map_filter_simps slot_load_def split: option.splits)
qed

lemma take_wakeable_eq:
  assumes "length slots = 32"
  shows "take_wakeable p slots bits = Ok (occupants slots (fst (bits_take bits)), snd (bits_take bits))"
  using wakeable_scan_eq [OF assms, of "[0..<32]" p bits]
  by (simp add: take_wakeable_def task_id_iter_upt bits_take_def)

lemma fold_isr_chain:
  "need_wake (fold (\<lambda>task result. isr_chain result (wake_task_from_isr notify task)) tasks r)
     = (need_wake r \<or> (\<exists>t\<in>set tasks. notify t))"
  by (induction tasks arbitrary: r) (auto simp: wake_task_from_isr_def)

lemma wake_from_isr_eq:
  assumes "length slots = 32"
  shows "\<exists>r. wake_from_isr p notify slots bits = Ok (r, occupants slots (fst (bits_take bits)), 0)
    \<and> need_wake r = (\<exists>t\<in>set (occupants slots (fst (bits_take bits))). notify t)"
  by (simp add: wake_from_isr_def take_wakeable_eq [OF assms] fold_isr_chain isr_default_def bits_take_def)

lemma set_occupants: "set (occupants slots is) = {t. \<exists>i\<in>set is. slots ! i = Some t}"
  by (force simp: occupants_def List.map_filter_def)

subsection \<open>Properties\<close>

text \<open>C28: \<open>wake_all\<close> notifies exactly the tasks that registered since the last wake and still occupy
  their slot, and empties the set: after registering ids \<open>is\<close> on an empty set, the notified tasks are
  the occupants of those slots, and the next wake notifies nobody.\<close>

theorem wake_all_exact:
  assumes "length slots = 32" "\<forall>i\<in>set is. i < 32"
  shows "\<exists>tasks. wake_all p slots (fold bits_add is waker_set_new) = Ok (tasks, 0)
    \<and> set tasks = {t. \<exists>i\<in>set is. slots ! i = Some t} \<and> wake_all p slots 0 = Ok ([], 0)"
proof -
  let ?bits = "fold bits_add is waker_set_new"
  have "wake_all p slots ?bits = Ok (occupants slots (fst (bits_take ?bits)), 0)"
    by (simp add: wake_all_def take_wakeable_eq [OF assms(1)] bits_take_def)
  moreover have "set (occupants slots (fst (bits_take ?bits))) = {t. \<exists>i\<in>set is. slots ! i = Some t}"
    using ws.take_after_adds(1) [OF assms(2)] by (simp only: set_occupants waker_set_new_def)
  moreover have "wake_all p slots 0 = Ok ([], 0)"
    by (simp add: wake_all_def take_wakeable_eq [OF assms(1)] bits_take_def occupants_def
        List.map_filter_simps)
  ultimately show ?thesis by blast
qed

theorem wake_all_exact_witness:
  "\<exists>tasks. wake_all Dev (empty_slots[3 := Some 300, 7 := Some 700]) (fold bits_add [7, 3, 9] waker_set_new)
      = Ok (tasks, 0)
    \<and> set tasks = {t. \<exists>i\<in>set [7, 3, 9]. empty_slots[3 := Some 300, 7 := Some 700] ! i = Some t}
    \<and> wake_all Dev (empty_slots[3 := Some 300, 7 := Some 700]) 0 = Ok ([], 0)"
  by (rule wake_all_exact) (simp_all add: empty_slots_def MAX_TASKS_def)

text \<open>From an interrupt, the set is emptied in the same way, and the need-wake flag handed back is
  set exactly when one of the notified tasks asks for a context switch.\<close>

theorem wake_from_isr_flag:
  assumes "length slots = 32"
  shows "\<exists>r tasks. wake_from_isr p notify slots bits = Ok (r, tasks, 0)
    \<and> set tasks = {t. \<exists>i\<in>waker_ids bits. slots ! i = Some t}
    \<and> (need_wake r \<longleftrightarrow> (\<exists>i\<in>waker_ids bits. \<exists>t. slots ! i = Some t \<and> notify t))"
proof -
  let ?tasks = "occupants slots (fst (bits_take bits))"
  obtain r :: "(unit, infallible) isr_result" where r: "wake_from_isr p notify slots bits = Ok (r, ?tasks, 0)"
    "need_wake r = (\<exists>t\<in>set ?tasks. notify t)"
    using wake_from_isr_eq [OF assms, of p notify bits] by blast
  have tasks: "set ?tasks = {t. \<exists>i\<in>waker_ids bits. slots ! i = Some t}"
    by (simp only: set_occupants ws.ids_taken)
  from r(2) have "need_wake r \<longleftrightarrow> (\<exists>i\<in>waker_ids bits. \<exists>t. slots ! i = Some t \<and> notify t)"
    unfolding tasks by blast
  with r(1) tasks show ?thesis by blast
qed

theorem wake_from_isr_flag_witness:
  "\<exists>r tasks. wake_from_isr Dev (\<lambda>t. t = 500) (replicate 32 (Some 500)) 5 = Ok (r, tasks, 0)
    \<and> set tasks = {t. \<exists>i\<in>waker_ids 5. replicate 32 (Some (500 :: nat)) ! i = Some t}
    \<and> (need_wake r \<longleftrightarrow> (\<exists>i\<in>waker_ids 5. \<exists>t. replicate 32 (Some (500 :: nat)) ! i = Some t \<and> t = 500))"
  by (rule wake_from_isr_flag [where notify = "\<lambda>t. t = 500"]) simp

end
