(* ===== verification/TwoSided.thy ===== *)
theory TwoSided
  imports Prelude
begin

text \<open>
  The contract of state that two owners share: each side goes once, and the side that finds itself the
  last frees the state. The channel and the stream buffer provide it with two bits of an atomic word.
\<close>

text \<open>The sides go in some order: how often the state was freed, and what is left.\<close>

fun drop_all :: "('side \<Rightarrow> 's \<Rightarrow> bool \<times> 's) \<Rightarrow> 'side list \<Rightarrow> 's \<Rightarrow> nat \<times> 's" where
  "drop_all drop_one [] s = (0, s)"
| "drop_all drop_one (d # ds) s =
     (let (freed, s1) = drop_one d s; (n, s2) = drop_all drop_one ds s1 in (if freed then Suc n else n, s2))"

locale two_sided =
  fixes alive :: "'s \<Rightarrow> 'side set"
    and drop_one :: "'side \<Rightarrow> 's \<Rightarrow> bool \<times> 's"
    and valid :: "'s \<Rightarrow> bool"
  assumes valid_after: "valid s \<Longrightarrow> valid (snd (drop_one d s))"
    and alive_after: "valid s \<Longrightarrow> alive (snd (drop_one d s)) = alive s - {d}"
    and last_frees: "valid s \<Longrightarrow> d \<in> alive s \<Longrightarrow> fst (drop_one d s) \<longleftrightarrow> alive s = {d}"
begin

lemma freed_by_last:
  assumes "valid s" "alive s = {a, b}" "a \<noteq> b"
  shows "\<not> fst (drop_one a s) \<and> fst (drop_one b (snd (drop_one a s))) \<and> alive (snd (drop_one b (snd (drop_one a s)))) = {}"
proof -
  have "valid (snd (drop_one a s))" "alive (snd (drop_one a s)) = {b}"
    using valid_after [OF assms(1)] alive_after [OF assms(1), of a] assms(2,3) by auto
  then show ?thesis
    using last_frees [OF assms(1), of a] last_frees [of "snd (drop_one a s)" b] alive_after [of "snd (drop_one a s)" b] assms(2,3)
    by auto
qed

text \<open>For any number of sides, in any order, the state is freed once, and not before the last is gone.\<close>

lemma drop_all_frees_once:
  "valid s \<Longrightarrow> distinct ds \<Longrightarrow> set ds = alive s \<Longrightarrow> ds \<noteq> [] \<Longrightarrow> fst (drop_all drop_one ds s) = 1 \<and> alive (snd (drop_all drop_one ds s)) = {}"
proof (induction ds arbitrary: s)
  case (Cons d ds)
  let ?s1 = "snd (drop_one d s)"
  have s1: "valid ?s1" "alive ?s1 = set ds"
    using Cons.prems(2,3) valid_after [OF Cons.prems(1)] alive_after [OF Cons.prems(1), of d] by auto
  have d: "fst (drop_one d s) \<longleftrightarrow> ds = []"
    using last_frees [OF Cons.prems(1), of d] Cons.prems(2) unfolding Cons.prems(3) [symmetric] by (cases ds) auto
  show ?case
  proof (cases "ds = []")
    case True
    then show ?thesis using d s1(2) by (simp add: case_prod_unfold)
  next
    case False
    then show ?thesis using Cons.IH [OF s1(1) _ s1(2) [symmetric]] Cons.prems(2) d
      by (simp add: Let_def case_prod_unfold)
  qed
qed simp

end

subsection \<open>Two bits of a word\<close>

text \<open>\<^verbatim>\<open>fetch_and\<close> gives the flags before: whether none is left, and the flags after.\<close>

definition clear_side :: "u32 \<Rightarrow> u32 \<Rightarrow> bool \<times> u32" where
  "clear_side flags word = (let prev = word; current = prev AND NOT flags in (current = 0, prev AND NOT flags))"

datatype side = FirstSide | SecondSide

definition side_bit :: "side \<Rightarrow> u32" where
  "side_bit d = (case d of FirstSide \<Rightarrow> 1 | SecondSide \<Rightarrow> 2)"

definition sides_alive :: "u32 \<Rightarrow> side set" where
  "sides_alive word = {d. word AND side_bit d \<noteq> 0}"

definition sides_only :: "u32 \<Rightarrow> bool" where
  "sides_only word \<longleftrightarrow> word \<in> {0, 1, 2, 3}"

interpretation bits: two_sided sides_alive "\<lambda>d. clear_side (side_bit d)" sides_only
proof (unfold_locales, goal_cases)
  case (1 s d)
  then show ?case by (cases d) (auto simp: sides_only_def clear_side_def side_bit_def)
next
  case (2 s d)
  have *: "e = FirstSide \<or> e = SecondSide" for e by (cases e) auto
  from 2 show ?case using * by (cases d) (auto simp: sides_only_def clear_side_def side_bit_def sides_alive_def split: side.splits)
next
  case (3 s d)
  have *: "{e. P e} = {d} \<longleftrightarrow> P d \<and> (\<forall>e. e \<noteq> d \<longrightarrow> \<not> P e)" for P and d :: side by auto
  have **: "(\<forall>e. e \<noteq> FirstSide \<longrightarrow> P e) \<longleftrightarrow> P SecondSide" "(\<forall>e. e \<noteq> SecondSide \<longrightarrow> P e) \<longleftrightarrow> P FirstSide" for P
    by (metis side.exhaust side.distinct(1))+
  from 3 show ?case
    by (cases d) (auto simp: sides_only_def clear_side_def side_bit_def sides_alive_def * **)
qed

lemma sides_of_both: "sides_alive 3 = {FirstSide, SecondSide}" "sides_only 3"
proof -
  show "sides_alive 3 = {FirstSide, SecondSide}"
    by (rule set_eqI) (auto simp: sides_alive_def side_bit_def split: side.splits)
qed (simp add: sides_only_def)

text \<open>With both bits set, the side that goes second frees, whichever it is.\<close>

lemmas second_side_frees = bits.freed_by_last [OF sides_of_both(2,1)]
  bits.freed_by_last [OF sides_of_both(2), of SecondSide FirstSide, unfolded sides_of_both(1), OF insert_commute]

end
