(* ===== verification/Channel.thy ===== *)
theory Channel
  imports Waker TwoSided
begin

text \<open>
  The bounded channel between tasks and interrupts (\<^verbatim>\<open>src/sync/queue.rs\<close>): a FreeRTOS queue, a waker
  set for each side, and two flags that say which sides are alive. The FreeRTOS queue is a parameter:
  \<open>rtos_ops\<close> are the calls the code makes and \<open>rtos_laws\<close> what FreeRTOS documents of them, stated with
  \<open>items\<close>, the queued items from the oldest.
\<close>

subsection \<open>The FreeRTOS queue\<close>

record ('h, 'a) rtos_ops =
  rq_send :: "'a \<Rightarrow> 'h \<Rightarrow> bool \<times> 'h"
  rq_receive :: "'h \<Rightarrow> 'a option \<times> 'h"
  rq_spaces :: "'h \<Rightarrow> nat"
  rq_is_full :: "'h \<Rightarrow> bool"
  rq_send_wake :: "'h \<Rightarrow> bool"
  rq_receive_wake :: "'h \<Rightarrow> bool"

definition rtos_laws :: "('h, 'a) rtos_ops \<Rightarrow> ('h \<Rightarrow> 'a list) \<Rightarrow> nat \<Rightarrow> bool" where
  "rtos_laws Q items cap \<longleftrightarrow>
     (\<forall>x h. if length (items h) < cap then fst (rq_send Q x h) \<and> items (snd (rq_send Q x h)) = items h @ [x]
            else \<not> fst (rq_send Q x h) \<and> items (snd (rq_send Q x h)) = items h) \<and>
     (\<forall>h. case items h of
        [] \<Rightarrow> fst (rq_receive Q h) = None \<and> items (snd (rq_receive Q h)) = []
      | x # xs \<Rightarrow> fst (rq_receive Q h) = Some x \<and> items (snd (rq_receive Q h)) = xs) \<and>
     (\<forall>h. rq_spaces Q h = cap - length (items h)) \<and>
     (\<forall>h. rq_is_full Q h \<longleftrightarrow> cap \<le> length (items h))"

lemma rtos_send:
  assumes "rtos_laws Q items cap"
  shows "length (items h) < cap \<Longrightarrow> \<exists>h'. rq_send Q x h = (True, h') \<and> items h' = items h @ [x]"
    and "\<not> length (items h) < cap \<Longrightarrow> \<exists>h'. rq_send Q x h = (False, h') \<and> items h' = items h"
proof -
  have "if length (items h) < cap then fst (rq_send Q x h) \<and> items (snd (rq_send Q x h)) = items h @ [x]
      else \<not> fst (rq_send Q x h) \<and> items (snd (rq_send Q x h)) = items h"
    using assms by (simp add: rtos_laws_def)
  then show "length (items h) < cap \<Longrightarrow> \<exists>h'. rq_send Q x h = (True, h') \<and> items h' = items h @ [x]"
    "\<not> length (items h) < cap \<Longrightarrow> \<exists>h'. rq_send Q x h = (False, h') \<and> items h' = items h"
    by (cases "rq_send Q x h"; auto)+
qed

lemma rtos_receive:
  assumes "rtos_laws Q items cap"
  shows "items h = [] \<Longrightarrow> \<exists>h'. rq_receive Q h = (None, h') \<and> items h' = []"
    and "items h = x # xs \<Longrightarrow> \<exists>h'. rq_receive Q h = (Some x, h') \<and> items h' = xs"
proof -
  have r: "case items h of
        [] \<Rightarrow> fst (rq_receive Q h) = None \<and> items (snd (rq_receive Q h)) = []
      | x # xs \<Rightarrow> fst (rq_receive Q h) = Some x \<and> items (snd (rq_receive Q h)) = xs"
    using assms unfolding rtos_laws_def by blast
  then show "items h = [] \<Longrightarrow> \<exists>h'. rq_receive Q h = (None, h') \<and> items h' = []"
    "items h = x # xs \<Longrightarrow> \<exists>h'. rq_receive Q h = (Some x, h') \<and> items h' = xs"
    by (cases "rq_receive Q h"; auto)+
qed

subsection \<open>State\<close>

record 'h channel =
  ch_handle :: 'h
  ch_flags :: u32
  ch_notify_rx :: waker_set
  ch_notify_tx :: waker_set

definition RX_ALIVE :: u32 where "RX_ALIVE = 1"
definition TX_ALIVE :: u32 where "TX_ALIVE = 2"

definition channel_new :: "'h \<Rightarrow> 'h channel" where
  "channel_new handle = \<lparr>ch_handle = handle, ch_flags = TX_ALIVE OR RX_ALIVE,
     ch_notify_rx = waker_set_new, ch_notify_tx = waker_set_new\<rparr>"

subsection \<open>Receiving\<close>

text \<open>Results come with the tasks notified by the call.\<close>

definition try_receive ::
    "profile \<Rightarrow> slots \<Rightarrow> ('h, 'a) rtos_ops \<Rightarrow> 'h channel \<Rightarrow> ('a option \<times> task_ptr list \<times> 'h channel) outcome" where
  "try_receive p slots Q ch =
     (case rq_receive Q (ch_handle ch) of
        (Some item, h) \<Rightarrow>
          bind_outcome (wake_all p slots (ch_notify_tx ch)) (\<lambda>(tasks, tx).
            Ok (Some item, tasks, ch\<lparr>ch_handle := h, ch_notify_tx := tx\<rparr>))
      | (None, h) \<Rightarrow> Ok (None, [], ch\<lparr>ch_handle := h\<rparr>))"

definition poll_receive ::
    "profile \<Rightarrow> raw_waker \<Rightarrow> task_ptr \<Rightarrow> slots \<Rightarrow> ('h, 'a) rtos_ops \<Rightarrow> 'h channel \<Rightarrow>
     ('a poll \<times> task_ptr list \<times> 'h channel) outcome" where
  "poll_receive p cx current slots Q ch =
     bind_outcome (try_receive p slots Q ch) (\<lambda>(item, tasks, ch').
       case item of
         Some x \<Rightarrow> Ok (Ready x, tasks, ch')
       | None \<Rightarrow> bind_outcome (add_task p cx current slots (ch_notify_rx ch')) (\<lambda>rx.
           Ok (Pending, tasks, ch'\<lparr>ch_notify_rx := rx\<rparr>)))"

subsection \<open>Sending\<close>

definition try_send ::
    "profile \<Rightarrow> slots \<Rightarrow> ('h, 'a) rtos_ops \<Rightarrow> 'a \<Rightarrow> 'h channel \<Rightarrow>
     (('a + unit) \<times> task_ptr list \<times> 'h channel) outcome" where
  "try_send p slots Q item ch =
     (case rq_send Q item (ch_handle ch) of
        (True, h) \<Rightarrow>
          bind_outcome (wake_all p slots (ch_notify_rx ch)) (\<lambda>(tasks, rx).
            Ok (Inr (), tasks, ch\<lparr>ch_handle := h, ch_notify_rx := rx\<rparr>))
      | (False, h) \<Rightarrow> Ok (Inl item, [], ch\<lparr>ch_handle := h\<rparr>))"

definition send_from_isr ::
    "profile \<Rightarrow> (task_ptr \<Rightarrow> bool) \<Rightarrow> slots \<Rightarrow> ('h, 'a) rtos_ops \<Rightarrow> 'a \<Rightarrow> 'h channel \<Rightarrow>
     ((unit, 'a) isr_result \<times> 'h channel) outcome" where
  "send_from_isr p notify slots Q item ch =
     (let need_wake = rq_send_wake Q (ch_handle ch)
      in case rq_send Q item (ch_handle ch) of
           (True, h) \<Rightarrow>
             bind_outcome (wake_from_isr p notify slots (ch_notify_rx ch)) (\<lambda>(result, tasks, rx).
               Ok (isr_chain result (isr_ok () need_wake), ch\<lparr>ch_handle := h, ch_notify_rx := rx\<rparr>))
         | (False, h) \<Rightarrow> Ok (isr_err item need_wake, ch\<lparr>ch_handle := h\<rparr>))"

text \<open>
  The item popped from a full queue is the second result. In the code it is received into a local of
  type \<^verbatim>\<open>c_void\<close>, so its destructor does not run and the local is too small for it; the model
  shows the effect on the queue only. Whether the second send succeeds is not looked at.
\<close>

definition send_overwriting_from_isr ::
    "profile \<Rightarrow> (task_ptr \<Rightarrow> bool) \<Rightarrow> slots \<Rightarrow> ('h, 'a) rtos_ops \<Rightarrow> 'a \<Rightarrow> 'h channel \<Rightarrow>
     ((unit, infallible) isr_result \<times> 'a option \<times> 'h channel) outcome" where
  "send_overwriting_from_isr p notify slots Q item ch =
     (let full = rq_is_full Q (ch_handle ch);
          (dropped, h1) = (if full then rq_receive Q (ch_handle ch) else (None, ch_handle ch));
          need_wake_receive = full \<and> rq_receive_wake Q (ch_handle ch);
          need_wake_send = rq_send_wake Q h1;
          (_, h2) = rq_send Q item h1
      in bind_outcome (wake_from_isr p notify slots (ch_notify_rx ch)) (\<lambda>(result, tasks, rx).
           Ok (isr_chain result (isr_ok () (need_wake_receive \<or> need_wake_send)), dropped,
               ch\<lparr>ch_handle := h2, ch_notify_rx := rx\<rparr>)))"

definition available :: "('h, 'a) rtos_ops \<Rightarrow> 'h channel \<Rightarrow> nat" where
  "available Q ch = rq_spaces Q (ch_handle ch)"

definition poll_reserve ::
    "profile \<Rightarrow> raw_waker \<Rightarrow> task_ptr \<Rightarrow> slots \<Rightarrow> ('h, 'a) rtos_ops \<Rightarrow> 'h channel \<Rightarrow>
     (unit poll \<times> 'h channel) outcome" where
  "poll_reserve p cx current slots Q ch =
     (if available Q ch > 0 then Ok (Ready (), ch)
      else bind_outcome (add_task p cx current slots (ch_notify_tx ch)) (\<lambda>tx.
        Ok (Pending, ch\<lparr>ch_notify_tx := tx\<rparr>)))"

text \<open>The second half of \<^verbatim>\<open>send\<close>, run when the reservation is ready.\<close>

definition send_reserved ::
    "profile \<Rightarrow> slots \<Rightarrow> ('h, 'a) rtos_ops \<Rightarrow> 'a \<Rightarrow> 'h channel \<Rightarrow> (task_ptr list \<times> 'h channel) outcome" where
  "send_reserved p slots Q item ch =
     bind_outcome (try_send p slots Q item ch) (\<lambda>(sent, tasks, ch').
       case sent of
         Inl _ \<Rightarrow> Panic (ExplicitPanic ''queue still full even after poll_reserve ready'')
       | Inr _ \<Rightarrow> Ok (tasks, ch'))"

subsection \<open>The end of a channel\<close>

text \<open>The side that clears the last flag frees the shared state.\<close>

definition drop_side :: "u32 \<Rightarrow> 'h channel \<Rightarrow> bool \<times> 'h channel" where
  "drop_side flags ch =
     (let (freed, left) = clear_side flags (ch_flags ch) in (freed, ch\<lparr>ch_flags := left\<rparr>))"

definition drop_rx :: "'h channel \<Rightarrow> bool \<times> 'h channel" where
  "drop_rx ch = drop_side RX_ALIVE ch"

definition drop_tx :: "'h channel \<Rightarrow> bool \<times> 'h channel" where
  "drop_tx ch = drop_side TX_ALIVE ch"

lemma drop_sides_once:
  assumes "ch_flags ch = 3"
  shows "\<not> fst (drop_rx ch)" "fst (drop_tx (snd (drop_rx ch)))" "\<not> fst (drop_tx ch)" "fst (drop_rx (snd (drop_tx ch)))"
  using assms second_side_frees
  by (simp_all add: drop_rx_def drop_tx_def drop_side_def RX_ALIVE_def TX_ALIVE_def side_bit_def case_prod_unfold)

text \<open>The destructor of the queue handle: receive and drop until the queue is empty.\<close>

partial_function (option) drain :: "('h, 'a) rtos_ops \<Rightarrow> 'h \<Rightarrow> ('a list \<times> 'h) option" where
  "drain Q h =
     (case rq_receive Q h of
        (Some item, h') \<Rightarrow> Option.bind (drain Q h') (\<lambda>(dropped, h''). Some (item # dropped, h''))
      | (None, h') \<Rightarrow> Some ([], h'))"

subsection \<open>What the operations do\<close>

lemma wake_all_returns:
  assumes "length slots = 32"
  shows "\<exists>tasks. wake_all p slots bits = Ok (tasks, 0) \<and> set tasks = {t. \<exists>i\<in>waker_ids bits. slots ! i = Some t}"
proof (intro exI conjI)
  show "wake_all p slots bits = Ok (occupants slots (fst (bits_take bits)), 0)"
    by (simp add: wake_all_def take_wakeable_eq [OF assms] bits_take_def)
  show "set (occupants slots (fst (bits_take bits))) = {t. \<exists>i\<in>waker_ids bits. slots ! i = Some t}"
    by (simp only: set_occupants ws.ids_taken)
qed

lemma try_send_spec:
  assumes laws: "rtos_laws Q items cap" and slots: "length slots = 32"
  shows "\<exists>tasks ch'. try_send p slots Q x ch
      = Ok (if length (items (ch_handle ch)) < cap then Inr () else Inl x, tasks, ch')
    \<and> items (ch_handle ch') = items (ch_handle ch) @ (if length (items (ch_handle ch)) < cap then [x] else [])
    \<and> ch_flags ch' = ch_flags ch"
proof (cases "length (items (ch_handle ch)) < cap")
  case True
  obtain h' where "rq_send Q x (ch_handle ch) = (True, h')" "items h' = items (ch_handle ch) @ [x]"
    using rtos_send(1) [OF laws True] by blast
  moreover obtain tasks where "wake_all p slots (ch_notify_rx ch) = Ok (tasks, 0)"
    using wake_all_returns [OF slots] by blast
  ultimately show ?thesis using True by (simp add: try_send_def)
next
  case False
  obtain h' where "rq_send Q x (ch_handle ch) = (False, h')" "items h' = items (ch_handle ch)"
    using rtos_send(2) [OF laws False] by blast
  then show ?thesis using False by (simp add: try_send_def)
qed

lemma try_receive_spec:
  assumes laws: "rtos_laws Q items cap" and slots: "length slots = 32"
  shows "\<exists>tasks ch'. try_receive p slots Q ch
      = Ok (case items (ch_handle ch) of [] \<Rightarrow> None | x # _ \<Rightarrow> Some x, tasks, ch')
    \<and> items (ch_handle ch') = tl (items (ch_handle ch)) \<and> ch_flags ch' = ch_flags ch"
proof (cases "items (ch_handle ch)")
  case Nil
  obtain h' where "rq_receive Q (ch_handle ch) = (None, h')" "items h' = []"
    using rtos_receive(1) [OF laws Nil] by blast
  then show ?thesis using Nil by (simp add: try_receive_def)
next
  case (Cons x xs)
  obtain h' where "rq_receive Q (ch_handle ch) = (Some x, h')" "items h' = xs"
    using rtos_receive(2) [OF laws Cons] by blast
  moreover obtain tasks where "wake_all p slots (ch_notify_tx ch) = Ok (tasks, 0)"
    using wake_all_returns [OF slots] by blast
  ultimately show ?thesis using Cons by (simp add: try_receive_def)
qed

lemma drain_spec:
  assumes "rtos_laws Q items cap"
  shows "\<exists>h'. drain Q h = Some (items h, h') \<and> items h' = []"
proof (induction "items h" arbitrary: h)
  case Nil
  then show ?case using rtos_receive(1) [OF assms, of h] by (subst drain.simps) auto
next
  case (Cons x xs)
  obtain h1 where h1: "rq_receive Q h = (Some x, h1)" "items h1 = xs"
    using rtos_receive(2) [OF assms, of h x xs] Cons.hyps(2) by auto
  obtain h' where "drain Q h1 = Some (items h1, h')" "items h' = []"
    using Cons.hyps(1) [of h1] h1(2) by auto
  then show ?case using h1 Cons.hyps(2) by (subst drain.simps) auto
qed

subsection \<open>Runs\<close>

datatype 'a chan_op = Send 'a | TryReceive

text \<open>The items accepted, the items received, and the channel afterwards.\<close>

fun chan_run ::
    "profile \<Rightarrow> slots \<Rightarrow> ('h, 'a) rtos_ops \<Rightarrow> 'a chan_op list \<Rightarrow> 'h channel \<Rightarrow>
     ('a list \<times> 'a list \<times> 'h channel) outcome" where
  "chan_run p slots Q [] ch = Ok ([], [], ch)"
| "chan_run p slots Q (Send x # ops) ch =
     bind_outcome (try_send p slots Q x ch) (\<lambda>(sent, _, ch1).
     bind_outcome (chan_run p slots Q ops ch1) (\<lambda>(ins, outs, ch2).
       Ok (case sent of Inr _ \<Rightarrow> x # ins | Inl _ \<Rightarrow> ins, outs, ch2)))"
| "chan_run p slots Q (TryReceive # ops) ch =
     bind_outcome (try_receive p slots Q ch) (\<lambda>(item, _, ch1).
     bind_outcome (chan_run p slots Q ops ch1) (\<lambda>(ins, outs, ch2).
       Ok (ins, case item of Some x \<Rightarrow> x # outs | None \<Rightarrow> outs, ch2)))"

lemma chan_run_spec:
  assumes laws: "rtos_laws Q items cap" and slots: "length slots = 32"
  shows "length (items (ch_handle ch)) \<le> cap \<Longrightarrow>
    \<exists>ins outs ch'. chan_run p slots Q ops ch = Ok (ins, outs, ch')
      \<and> items (ch_handle ch) @ ins = outs @ items (ch_handle ch') \<and> length (items (ch_handle ch')) \<le> cap
      \<and> ch_flags ch' = ch_flags ch
      \<and> (cap - length (items (ch_handle ch)) \<le> cap - length (items (ch_handle ch')) \<or> ins \<noteq> [])"
proof (induction ops arbitrary: ch)
  case Nil
  then show ?case by simp
next
  case (Cons op ops)
  show ?case
  proof (cases op)
    case (Send x)
    obtain tasks ch1 where s1: "try_send p slots Q x ch
        = Ok (if length (items (ch_handle ch)) < cap then Inr () else Inl x, tasks, ch1)"
      "items (ch_handle ch1) = items (ch_handle ch) @ (if length (items (ch_handle ch)) < cap then [x] else [])"
      "ch_flags ch1 = ch_flags ch"
      using try_send_spec [OF laws slots] by blast
    have "length (items (ch_handle ch1)) \<le> cap" using s1(2) Cons.prems by simp
    from Cons.IH [OF this] obtain ins outs ch2 where r: "chan_run p slots Q ops ch1 = Ok (ins, outs, ch2)"
      "items (ch_handle ch1) @ ins = outs @ items (ch_handle ch2)" "length (items (ch_handle ch2)) \<le> cap"
      "ch_flags ch2 = ch_flags ch1"
      "cap - length (items (ch_handle ch1)) \<le> cap - length (items (ch_handle ch2)) \<or> ins \<noteq> []" by blast
    then show ?thesis using s1 by (auto simp: Send)
  next
    case TryReceive
    obtain tasks ch1 where s1: "try_receive p slots Q ch
        = Ok (case items (ch_handle ch) of [] \<Rightarrow> None | x # _ \<Rightarrow> Some x, tasks, ch1)"
      "items (ch_handle ch1) = tl (items (ch_handle ch))" "ch_flags ch1 = ch_flags ch"
      using try_receive_spec [OF laws slots] by blast
    have "length (items (ch_handle ch1)) \<le> cap" using s1(2) Cons.prems by simp
    from Cons.IH [OF this] obtain ins outs ch2 where r: "chan_run p slots Q ops ch1 = Ok (ins, outs, ch2)"
      "items (ch_handle ch1) @ ins = outs @ items (ch_handle ch2)" "length (items (ch_handle ch2)) \<le> cap"
      "ch_flags ch2 = ch_flags ch1"
      "cap - length (items (ch_handle ch1)) \<le> cap - length (items (ch_handle ch2)) \<or> ins \<noteq> []" by blast
    then show ?thesis using s1 by (cases "items (ch_handle ch)") (auto simp: TryReceive)
  qed
qed

lemma chan_run_receives:
  "chan_run p slots Q (replicate k TryReceive) ch = Ok (ins, outs, ch') \<Longrightarrow> ins = []"
  by (induction k arbitrary: ch ins outs) (auto simp: bind_outcome_eq_Ok split: prod.splits option.splits)

definition list_rtos :: "nat \<Rightarrow> ('a list, 'a) rtos_ops" where
  "list_rtos cap = \<lparr>rq_send = (\<lambda>x h. if length h < cap then (True, h @ [x]) else (False, h)),
     rq_receive = (\<lambda>h. case h of [] \<Rightarrow> (None, []) | x # xs \<Rightarrow> (Some x, xs)),
     rq_spaces = (\<lambda>h. cap - length h), rq_is_full = (\<lambda>h. cap \<le> length h),
     rq_send_wake = (\<lambda>h. h = []), rq_receive_wake = (\<lambda>h. False)\<rparr>"

lemma list_rtos_laws: "rtos_laws (list_rtos cap) (\<lambda>h. h) cap"
  by (auto simp: rtos_laws_def list_rtos_def split: list.splits)

subsection \<open>Properties\<close>

text \<open>A channel is a bounded FIFO: along any sequence of sends and receives, what was queued followed by
  the accepted items is what was received followed by what is still queued, at most the capacity; a
  rejected item is handed back and not queued.\<close>

theorem channel_fifo:
  assumes "rtos_laws Q items cap" "length slots = 32" "length (items (ch_handle ch)) \<le> cap"
  shows "\<exists>ins outs ch'. chan_run p slots Q ops ch = Ok (ins, outs, ch')
    \<and> items (ch_handle ch) @ ins = outs @ items (ch_handle ch') \<and> length (items (ch_handle ch')) \<le> cap"
  using chan_run_spec [OF assms, of p ops] by blast

theorem channel_fifo_witness:
  "\<exists>ins outs ch'. chan_run Dev (replicate 32 None) (list_rtos 2) [Send (1 :: nat), Send 2, Send 3, TryReceive, Send 4]
      (channel_new []) = Ok (ins, outs, ch') \<and> ins = outs @ ch_handle ch' \<and> length (ch_handle ch') \<le> 2"
  using channel_fifo [OF list_rtos_laws, of "replicate 32 None" "channel_new []" 2 Dev
      "[Send (1 :: nat), Send 2, Send 3, TryReceive, Send 4]"]
  by (simp add: channel_new_def del: chan_run.simps)

text \<open>\<^verbatim>\<open>send\<close> does not panic: with a single sender, whose reservation found a free place, any number of
  receives may follow before the item is sent, and it is still accepted.\<close>

theorem reserved_send_succeeds:
  assumes "rtos_laws Q items cap" "length slots = 32"
    and "poll_reserve p cx current slots Q ch = Ok (Ready (), ch1)"
    and "length (items (ch_handle ch)) \<le> cap"
    and "chan_run p slots Q (replicate k TryReceive) ch1 = Ok (ins, outs, ch2)"
  shows "\<exists>tasks ch3. send_reserved p slots Q x ch2 = Ok (tasks, ch3)
    \<and> items (ch_handle ch3) = items (ch_handle ch2) @ [x]"
proof -
  have ch1: "ch1 = ch" "available Q ch > 0"
    using assms(3) by (auto simp: poll_reserve_def bind_outcome_eq_Ok split: if_splits)
  then have free: "0 < cap - length (items (ch_handle ch))"
    using assms(1) by (simp add: available_def rtos_laws_def)
  have "cap - length (items (ch_handle ch)) \<le> cap - length (items (ch_handle ch2))"
    using chan_run_spec [OF assms(1,2,4), of p "replicate k TryReceive"] chan_run_receives [OF assms(5)]
      assms(5) ch1(1) by auto
  then have "length (items (ch_handle ch2)) < cap" using free by simp
  then show ?thesis
    using try_send_spec [OF assms(1,2), of p x ch2] by (auto simp: send_reserved_def)
qed

theorem reserved_send_succeeds_witness:
  "\<exists>tasks ch3. send_reserved Dev (replicate 32 None) (list_rtos 2) 9 (channel_new [7 :: nat]) = Ok (tasks, ch3)
    \<and> ch_handle ch3 = [7, 9]"
  using reserved_send_succeeds [OF list_rtos_laws, of "replicate 32 None" Dev "raw_waker_new (nth_id 3)" 0 2
      "channel_new [7 :: nat]" "channel_new [7]" 0 "[]" "[]" "channel_new [7]" 9]
  by (simp add: channel_new_def poll_reserve_def available_def list_rtos_def)

text \<open>The interrupt's overwriting send never fails and loses at most the oldest item: the queue
  afterwards is the old one, less its head if it was full, with the new item at the end.\<close>

theorem overwriting_send_keeps_newest:
  assumes "rtos_laws Q items cap" "length slots = 32" "0 < cap" "length (items (ch_handle ch)) \<le> cap"
  defines "stored \<equiv> items (ch_handle ch)"
  shows "\<exists>r dropped ch'. send_overwriting_from_isr p notify slots Q x ch = Ok (r, dropped, ch')
    \<and> items (ch_handle ch') = (if length stored = cap then tl stored else stored) @ [x]
    \<and> dropped = (if length stored = cap then Some (hd stored) else None)"
proof -
  obtain r where r: "wake_from_isr p notify slots (ch_notify_rx ch)
      = Ok (r, occupants slots (fst (bits_take (ch_notify_rx ch))), 0)"
    using wake_from_isr_eq [OF assms(2), of p notify "ch_notify_rx ch"] by blast
  have full: "rq_is_full Q (ch_handle ch) \<longleftrightarrow> length stored = cap"
    using assms(1,4) by (auto simp: rtos_laws_def stored_def)
  show ?thesis
  proof (cases "length stored = cap")
    case True
    then obtain y ys where ys: "items (ch_handle ch) = y # ys"
      using assms(3) by (cases "items (ch_handle ch)") (auto simp: stored_def)
    obtain h1 where h1: "rq_receive Q (ch_handle ch) = (Some y, h1)" "items h1 = ys"
      using rtos_receive(2) [OF assms(1) ys] by blast
    have "length (items h1) < cap" using True ys h1(2) by (simp add: stored_def)
    then obtain h2 where "rq_send Q x h1 = (True, h2)" "items h2 = ys @ [x]"
      using rtos_send(1) [OF assms(1)] h1(2) by blast
    then show ?thesis using True ys h1 r full
      by (simp add: send_overwriting_from_isr_def stored_def)
  next
    case False
    then have "length (items (ch_handle ch)) < cap" using assms(4) by (simp add: stored_def)
    then obtain h2 where "rq_send Q x (ch_handle ch) = (True, h2)" "items h2 = items (ch_handle ch) @ [x]"
      using rtos_send(1) [OF assms(1)] by blast
    then show ?thesis using False r full by (simp add: send_overwriting_from_isr_def stored_def)
  qed
qed

theorem overwriting_send_keeps_newest_witness:
  "\<exists>r ch'. send_overwriting_from_isr Dev (\<lambda>_. True) (replicate 32 None) (list_rtos 2) 3 (channel_new [1 :: nat, 2])
      = Ok (r, Some 1, ch') \<and> ch_handle ch' = [2, 3]"
  using overwriting_send_keeps_newest [OF list_rtos_laws, of "replicate 32 None" 2 "channel_new [1 :: nat, 2]" Dev "\<lambda>_. True" 3]
  by (auto simp: channel_new_def)

text \<open>C25: the shared state of a channel is freed exactly once, by the second of the two sides to be
  dropped, in either order and after any traffic, and the items then left in the queue are each
  dropped once.\<close>

theorem channel_freed_once:
  assumes "rtos_laws Q items cap" "length slots = 32" "length (items handle) \<le> cap"
    and "chan_run p slots Q ops (channel_new handle) = Ok (ins, outs, ch)"
  shows "\<not> fst (drop_rx ch) \<and> fst (drop_tx (snd (drop_rx ch)))
    \<and> \<not> fst (drop_tx ch) \<and> fst (drop_rx (snd (drop_tx ch)))
    \<and> (\<exists>h'. drain Q (ch_handle ch) = Some (items (ch_handle ch), h'))
    \<and> items handle @ ins = outs @ items (ch_handle ch)"
proof -
  have "length (items (ch_handle (channel_new handle))) \<le> cap" using assms(3) by (simp add: channel_new_def)
  from chan_run_spec [OF assms(1,2) this, of p ops] assms(4)
  have "ch_flags ch = 3" "items handle @ ins = outs @ items (ch_handle ch)"
    by (auto simp: channel_new_def TX_ALIVE_def RX_ALIVE_def)
  then show ?thesis using drain_spec [OF assms(1), of "ch_handle ch"] drop_sides_once [of ch] by auto
qed

theorem channel_freed_once_witness:
  "\<exists>h'. drain (list_rtos 2) [5 :: nat] = Some ([5], h')
    \<and> \<not> fst (drop_rx (channel_new [5 :: nat])) \<and> fst (drop_tx (snd (drop_rx (channel_new [5 :: nat]))))"
  using channel_freed_once [OF list_rtos_laws, of "replicate 32 None" "[5 :: nat]" 2 Dev "[]" "[]" "[]" "channel_new [5]"]
  by (simp add: channel_new_def)

end
