(* ===== verification/Net.thy ===== *)
theory Net
  imports Heap
begin

text \<open>
  Network helpers of \<^verbatim>\<open>src/platform/net.rs\<close>: addresses between Rust (four octets) and lwIP (a word in
  network byte order on a little-endian machine), the mapping of lwIP's error codes, and joining a
  multicast group. The calls into ESP-IDF and lwIP are parameters.
\<close>

subsection \<open>Addresses\<close>

datatype ipv4 = Ipv4Addr u8 u8 u8 u8

fun rust_to_esp_ipv4_addr :: "ipv4 \<Rightarrow> u32" where
  "rust_to_esp_ipv4_addr (Ipv4Addr o0 o1 o2 o3) =
     push_bit 24 (ucast o3) OR push_bit 16 (ucast o2) OR push_bit 8 (ucast o1) OR push_bit 0 (ucast o0)"

definition esp_to_rust_ipv4_addr :: "u32 \<Rightarrow> ipv4" where
  "esp_to_rust_ipv4_addr addr =
     (let octet0 = ucast (drop_bit 0 addr AND 0xff);
          octet1 = ucast (drop_bit 8 addr AND 0xff);
          octet2 = ucast (drop_bit 16 addr AND 0xff);
          octet3 = ucast (drop_bit 24 addr AND 0xff)
      in Ipv4Addr octet0 octet1 octet2 octet3)"

text \<open>lwIP's tagged address: the type tag is a parameter, a constant of the bindings.\<close>

record ip_addr =
  ip_type :: u8
  ip_addr4 :: u32

definition rust_to_esp_ip_addr :: "u32 \<Rightarrow> ipv4 \<Rightarrow> ip_addr" where
  "rust_to_esp_ip_addr type_v4 addr = \<lparr>ip_type = ucast type_v4, ip_addr4 = rust_to_esp_ipv4_addr addr\<rparr>"

lemma bit_0xff: "bit (0xff :: u32) n \<longleftrightarrow> n < 8"
proof -
  have "(0xff :: u32) = mask 8" by (simp add: mask_numeral)
  then show ?thesis by (simp only: bit_mask_iff) auto
qed

lemma bit_octet: "bit (b :: u8) n \<Longrightarrow> n < 8"
  by (drule bit_imp_le_length) simp

lemma bit_word32: "bit (w :: u32) n \<Longrightarrow> n < 32"
  by (drule bit_imp_le_length) simp

lemma octet_of_word:
  "bit (ucast (drop_bit k addr AND 0xff) :: u8) n \<longleftrightarrow> n < 8 \<and> bit (addr :: u32) (k + n)"
  using bit_0xff [of n] by (auto simp: bit_simps)

lemma bit_rust_to_esp:
  "bit (rust_to_esp_ipv4_addr (Ipv4Addr o0 o1 o2 o3)) n \<longleftrightarrow> n < 32 \<and>
     (24 \<le> n \<and> bit o3 (n - 24) \<or> 16 \<le> n \<and> bit o2 (n - 16) \<or> 8 \<le> n \<and> bit o1 (n - 8) \<or> bit o0 n)"
  by (auto simp: bit_simps dest: bit_octet)

subsection \<open>Errors\<close>

datatype net_error = NoNetif | NewSocket | NetAlloc malloc_error | Lwip i8

definition lwip_check :: "i8 \<Rightarrow> i8 + unit" where
  "lwip_check rc = (if rc = 0 then Inr () else Inl rc)"

subsection \<open>Multicast groups\<close>

text \<open>The default interface and its lwIP implementation, 0 when there is none.\<close>

definition netif :: "nat \<Rightarrow> (nat \<Rightarrow> nat) \<Rightarrow> net_error + nat" where
  "netif default_netif netif_impl =
     (if default_netif = 0 then Inl NoNetif
      else let impl = netif_impl default_netif in if impl = 0 then Inl NoNetif else Inr impl)"

definition join_multicast_group ::
    "nat \<Rightarrow> (nat \<Rightarrow> nat) \<Rightarrow> (nat \<Rightarrow> u32 \<Rightarrow> i8) \<Rightarrow> ipv4 \<Rightarrow> net_error + unit" where
  "join_multicast_group default_netif netif_impl igmp_joingroup_netif grp =
     (case netif default_netif netif_impl of
        Inl e \<Rightarrow> Inl e
      | Inr impl \<Rightarrow>
          (case lwip_check (igmp_joingroup_netif impl (rust_to_esp_ipv4_addr grp)) of
             Inl rc \<Rightarrow> Inl (Lwip rc)
           | Inr _ \<Rightarrow> Inr ()))"

definition leave_multicast_group ::
    "nat \<Rightarrow> (nat \<Rightarrow> nat) \<Rightarrow> (nat \<Rightarrow> u32 \<Rightarrow> i8) \<Rightarrow> ipv4 \<Rightarrow> net_error + unit" where
  "leave_multicast_group default_netif netif_impl igmp_leavegroup_netif grp =
     (case netif default_netif netif_impl of
        Inl e \<Rightarrow> Inl e
      | Inr impl \<Rightarrow>
          (case lwip_check (igmp_leavegroup_netif impl (rust_to_esp_ipv4_addr grp)) of
             Inl rc \<Rightarrow> Inl (Lwip rc)
           | Inr _ \<Rightarrow> Inr ()))"

text \<open>Joining succeeds exactly when there is an interface and lwIP accepts the group on it.\<close>

lemma join_multicast_group_ok:
  "join_multicast_group d impl join grp = Inr () \<longleftrightarrow>
     d \<noteq> 0 \<and> impl d \<noteq> 0 \<and> join (impl d) (rust_to_esp_ipv4_addr grp) = 0"
  by (auto simp: join_multicast_group_def netif_def lwip_check_def Let_def split: sum.splits if_splits)

subsection \<open>Properties\<close>

text \<open>C39: the address conversions are inverse to each other, in both directions, so no address is lost or
  changed on its way to lwIP and back.\<close>

theorem ipv4_addr_roundtrip:
  "esp_to_rust_ipv4_addr (rust_to_esp_ipv4_addr a) = a \<and> rust_to_esp_ipv4_addr (esp_to_rust_ipv4_addr w) = w"
proof
  obtain o0 o1 o2 o3 where a: "a = Ipv4Addr o0 o1 o2 o3" by (cases a)
  show "esp_to_rust_ipv4_addr (rust_to_esp_ipv4_addr a) = a"
    unfolding a esp_to_rust_ipv4_addr_def Let_def ipv4.inject
    by (intro conjI bit_word_eqI; simp only: octet_of_word bit_rust_to_esp; auto dest: bit_octet)
  show "rust_to_esp_ipv4_addr (esp_to_rust_ipv4_addr w) = w"
  proof (rule bit_word_eqI)
    fix n
    assume "n < LENGTH(32)"
    then have n: "n < 32" by simp
    consider "n < 8" | "8 \<le> n" "n < 16" | "16 \<le> n" "n < 24" | "24 \<le> n" by linarith
    then show "bit (rust_to_esp_ipv4_addr (esp_to_rust_ipv4_addr w)) n = bit w n"
      using n unfolding esp_to_rust_ipv4_addr_def Let_def bit_rust_to_esp octet_of_word
      by cases auto
  qed
qed

end
