(* ===== verification/Protocol.thy ===== *)
theory Protocol
  imports Channel Net Stats "HOL-Library.Sublist"
begin

text \<open>
  The protocol socket (\<^verbatim>\<open>src/app/protocol.rs\<close>): the receive callback, which counts every datagram, aligns
  it and queues it for the application or drops it; the receive loop, which takes queued datagrams until
  one parses; and the order in which the socket is set up and, when a step fails, taken down.
\<close>

subsection \<open>Packet buffers\<close>

text \<open>
  The buffers come from the crates \<^verbatim>\<open>bark_protocol\<close> and \<^verbatim>\<open>esp_pbuf\<close>. Their operations are parameters, with
  what the code relies on: an allocation for a layout is aligned to it, and a copy holds the bytes.
\<close>

record ('e, 'u, 'b) pbuf_ops =
  pb_addr :: "'b \<Rightarrow> nat"
  pb_bytes :: "'b \<Rightarrow> u8 list"
  pb_allocate :: "nat \<Rightarrow> nat \<Rightarrow> 'e + 'u"
  pb_copied :: "'u \<Rightarrow> u8 list \<Rightarrow> 'b"

definition pbuf_laws :: "('e, 'u, 'b) pbuf_ops \<Rightarrow> bool" where
  "pbuf_laws P \<longleftrightarrow>
     (\<forall>sz align u s. pb_allocate P sz align = Inr u \<and> length s = sz \<longrightarrow>
        pb_addr P (pb_copied P u s) mod align = 0 \<and> pb_bytes P (pb_copied P u s) = s)"

definition ALIGN :: nat where "ALIGN = 8"

text \<open>\<^verbatim>\<open>Layout::from_size_align\<close> rejects a size that overflows \<^verbatim>\<open>isize\<close> when rounded up to the alignment.\<close>

definition layout_ok :: "nat \<Rightarrow> bool" where
  "layout_ok sz \<longleftrightarrow> sz \<le> 2 ^ 31 - 1 - (ALIGN - 1)"

definition align_packet_buffer :: "('e, 'u, 'b) pbuf_ops \<Rightarrow> 'b \<Rightarrow> ('e + 'b) outcome" where
  "align_packet_buffer P buffer =
     (let align_offset = pb_addr P buffer mod ALIGN
      in if align_offset = 0 then Ok (Inr buffer)
         else if \<not> layout_ok (length (pb_bytes P buffer)) then Panic UnwrapFailed
         else case pb_allocate P (length (pb_bytes P buffer)) ALIGN of
                Inl e \<Rightarrow> Ok (Inl e)
              | Inr pbuf \<Rightarrow> Ok (Inr (pb_copied P pbuf (pb_bytes P buffer))))"

lemma align_packet_buffer_spec:
  assumes "pbuf_laws P" "length (pb_bytes P buffer) \<le> 65535"
  shows "\<exists>r. align_packet_buffer P buffer = Ok r \<and>
    (case r of Inl e \<Rightarrow> pb_addr P buffer mod ALIGN \<noteq> 0
     | Inr b \<Rightarrow> pb_addr P b mod ALIGN = 0 \<and> pb_bytes P b = pb_bytes P buffer)"
  using assms unfolding pbuf_laws_def
  by (auto simp: align_packet_buffer_def Let_def layout_ok_def ALIGN_def split: sum.splits)

subsection \<open>The receive callback\<close>

definition on_packet ::
    "profile \<Rightarrow> slots \<Rightarrow> ('h, ('e + 'b \<times> 'a)) rtos_ops \<Rightarrow> ('e, 'u, 'b) pbuf_ops \<Rightarrow> 'b \<Rightarrow> 'a \<Rightarrow>
     stats \<times> 'h channel \<Rightarrow> (stats \<times> 'h channel) outcome" where
  "on_packet p slots Q P buffer addr = (\<lambda>(st, ch).
     let st1 = st\<lparr>wifi_packets_received := counter_increment (wifi_packets_received st)\<rparr>
     in bind_outcome (align_packet_buffer P buffer) (\<lambda>aligned.
        let result = (case aligned of Inl e \<Rightarrow> Inl e | Inr b \<Rightarrow> Inr (b, addr))
        in bind_outcome (try_send p slots Q result ch) (\<lambda>(sent, _, ch').
           Ok (case sent of
                 Inr _ \<Rightarrow> (st1, ch')
               | Inl _ \<Rightarrow> (st1\<lparr>packets_dropped_in_protocol_queue :=
                   counter_increment (packets_dropped_in_protocol_queue st1)\<rparr>, ch')))))"

subsection \<open>The receive loop\<close>

datatype ('e, 'k, 'a) socket_result = AllocatePacketBuffer 'e | Received 'k 'a

text \<open>
  One poll of \<^verbatim>\<open>receive\<close>: the loop goes on as long as datagrams are queued that do not parse. Whether it
  ends is a question of the queue, so the result is optional.
\<close>

partial_function (option) protocol_receive ::
    "profile \<Rightarrow> raw_waker \<Rightarrow> task_ptr \<Rightarrow> slots \<Rightarrow> ('h, ('e + 'b \<times> 'a)) rtos_ops \<Rightarrow> ('b \<Rightarrow> 'p option) \<Rightarrow>
     ('p \<Rightarrow> 'k option) \<Rightarrow> 'h channel \<Rightarrow> (('e, 'k, 'a) socket_result poll \<times> 'h channel) outcome option" where
  "protocol_receive p cx current slots Q from_buffer parse ch =
     (case poll_receive p cx current slots Q ch of
        Panic e \<Rightarrow> Some (Panic e)
      | Ok (Pending, _, ch') \<Rightarrow> Some (Ok (Pending, ch'))
      | Ok (Ready (Inl e), _, ch') \<Rightarrow> Some (Ok (Ready (AllocatePacketBuffer e), ch'))
      | Ok (Ready (Inr (buffer, addr)), _, ch') \<Rightarrow>
          (case from_buffer buffer of
             None \<Rightarrow> protocol_receive p cx current slots Q from_buffer parse ch'
           | Some packet \<Rightarrow>
               (case parse packet of
                  None \<Rightarrow> protocol_receive p cx current slots Q from_buffer parse ch'
                | Some kind \<Rightarrow> Some (Ok (Ready (Received kind addr), ch')))))"

text \<open>What the loop makes of a queued message; it goes on after \<^const>\<open>None\<close>.\<close>

definition classify ::
    "('b \<Rightarrow> 'p option) \<Rightarrow> ('p \<Rightarrow> 'k option) \<Rightarrow> 'e + 'b \<times> 'a \<Rightarrow> ('e, 'k, 'a) socket_result option" where
  "classify from_buffer parse msg =
     (case msg of
        Inl e \<Rightarrow> Some (AllocatePacketBuffer e)
      | Inr (buffer, addr) \<Rightarrow> map_option (\<lambda>kind. Received kind addr) (Option.bind (from_buffer buffer) parse))"

fun first_some :: "('m \<Rightarrow> 'r option) \<Rightarrow> 'm list \<Rightarrow> ('r \<times> 'm list) option" where
  "first_some f [] = None"
| "first_some f (m # ms) = (case f m of Some r \<Rightarrow> Some (r, ms) | None \<Rightarrow> first_some f ms)"

lemma first_some_taken:
  "case first_some f ms of
     None \<Rightarrow> List.map_filter f ms = []
   | Some (r, rest) \<Rightarrow> \<exists>taken. ms = taken @ rest \<and> List.map_filter f taken = [r]"
proof (induction ms)
  case Nil
  show ?case by (simp add: List.map_filter_def)
next
  case (Cons m ms)
  show ?case
  proof (cases "f m")
    case None
    then show ?thesis
    proof (cases "first_some f ms")
      case None
      then show ?thesis using Cons \<open>f m = None\<close> by (simp add: List.map_filter_simps)
    next
      case (Some rr)
      then obtain r rest where rr: "first_some f ms = Some (r, rest)" by (cases rr) auto
      then obtain taken where "ms = taken @ rest" "List.map_filter f taken = [r]" using Cons by auto
      then have "m # ms = (m # taken) @ rest \<and> List.map_filter f (m # taken) = [r]"
        using \<open>f m = None\<close> by (simp add: List.map_filter_simps)
      then show ?thesis using rr \<open>f m = None\<close> by auto
    qed
  next
    case (Some r)
    have "m # ms = [m] @ ms \<and> List.map_filter f [m] = [r]" using Some by (simp add: List.map_filter_simps)
    then show ?thesis using Some by auto
  qed
qed

lemma poll_receive_spec:
  assumes "rtos_laws Q items cap" "length slots = 32" "n < 32"
  shows "\<exists>tasks ch'. poll_receive p (raw_waker_new (nth_id n)) current slots Q ch
      = Ok (case items (ch_handle ch) of [] \<Rightarrow> Pending | x # _ \<Rightarrow> Ready x, tasks, ch')
    \<and> items (ch_handle ch') = tl (items (ch_handle ch)) \<and> ch_flags ch' = ch_flags ch
    \<and> (items (ch_handle ch) = [] \<longrightarrow> n \<in> waker_ids (ch_notify_rx ch'))"
proof -
  obtain tasks ch1 where r: "try_receive p slots Q ch
      = Ok (case items (ch_handle ch) of [] \<Rightarrow> None | x # _ \<Rightarrow> Some x, tasks, ch1)"
    "items (ch_handle ch1) = tl (items (ch_handle ch))" "ch_flags ch1 = ch_flags ch"
    using try_receive_spec [OF assms(1,2)] by blast
  have "n \<in> waker_ids (bits_add n (ch_notify_rx ch1))"
    using assms(3) by (simp add: ws.ids_add)
  then show ?thesis using r add_task_own [OF assms(3)]
    by (cases "items (ch_handle ch)") (auto simp: poll_receive_def)
qed

lemma protocol_receive_spec:
  assumes laws: "rtos_laws Q items cap" "length slots = 32" "n < 32"
  shows "\<exists>r ch'. protocol_receive p (raw_waker_new (nth_id n)) current slots Q from_buffer parse ch = Some (Ok (r, ch'))
    \<and> ch_flags ch' = ch_flags ch
    \<and> (case first_some (classify from_buffer parse) (items (ch_handle ch)) of
         None \<Rightarrow> r = Pending \<and> items (ch_handle ch') = [] \<and> n \<in> waker_ids (ch_notify_rx ch')
       | Some (res, rest) \<Rightarrow> r = Ready res \<and> items (ch_handle ch') = rest)"
proof (induction "items (ch_handle ch)" arbitrary: ch)
  case Nil
  then obtain tasks ch' where "poll_receive p (raw_waker_new (nth_id n)) current slots Q ch = Ok (Pending, tasks, ch')"
    "items (ch_handle ch') = []" "ch_flags ch' = ch_flags ch" "n \<in> waker_ids (ch_notify_rx ch')"
    using poll_receive_spec [OF laws, of p current ch] by auto
  then show ?case using Nil by (subst protocol_receive.simps) auto
next
  case (Cons m ms)
  then obtain tasks ch1 where r: "poll_receive p (raw_waker_new (nth_id n)) current slots Q ch = Ok (Ready m, tasks, ch1)"
    "items (ch_handle ch1) = ms" "ch_flags ch1 = ch_flags ch"
    using poll_receive_spec [OF laws, of p current ch] by (metis list.sel(3) list.simps(5))
  note IH = Cons.hyps(1) [OF r(2) [symmetric]]
  show ?case
  proof (cases "classify from_buffer parse m")
    case None
    then obtain buffer addr where m: "m = Inr (buffer, addr)" "Option.bind (from_buffer buffer) parse = None"
      by (cases m) (auto simp: classify_def)
    then have "protocol_receive p (raw_waker_new (nth_id n)) current slots Q from_buffer parse ch
        = protocol_receive p (raw_waker_new (nth_id n)) current slots Q from_buffer parse ch1"
      using r(1) by (subst protocol_receive.simps) (auto split: option.splits)
    then show ?thesis using IH None r(2,3) by (simp add: Cons.hyps(2) [symmetric])
  next
    case (Some res)
    then have "protocol_receive p (raw_waker_new (nth_id n)) current slots Q from_buffer parse ch = Some (Ok (Ready res, ch1))"
      using r(1) by (subst protocol_receive.simps) (auto simp: classify_def split: sum.splits option.splits)
    then show ?thesis using Some r(2,3) by (simp add: Cons.hyps(2) [symmetric])
  qed
qed

subsection \<open>Traffic\<close>

datatype ('b, 'a) proto_event = Datagram 'b 'a | ReceivePoll

fun proto_run ::
    "profile \<Rightarrow> raw_waker \<Rightarrow> task_ptr \<Rightarrow> slots \<Rightarrow> ('h, ('e + 'b \<times> 'a)) rtos_ops \<Rightarrow> ('e, 'u, 'b) pbuf_ops \<Rightarrow>
     ('b \<Rightarrow> 'p option) \<Rightarrow> ('p \<Rightarrow> 'k option) \<Rightarrow> ('b, 'a) proto_event list \<Rightarrow> stats \<times> 'h channel \<Rightarrow>
     (('e, 'k, 'a) socket_result list \<times> stats \<times> 'h channel) outcome option" where
  "proto_run p cx current slots Q P from_buffer parse [] (st, ch) = Some (Ok ([], st, ch))"
| "proto_run p cx current slots Q P from_buffer parse (Datagram b a # evs) (st, ch) =
     (case on_packet p slots Q P b a (st, ch) of
        Panic e \<Rightarrow> Some (Panic e)
      | Ok s \<Rightarrow> proto_run p cx current slots Q P from_buffer parse evs s)"
| "proto_run p cx current slots Q P from_buffer parse (ReceivePoll # evs) (st, ch) =
     (case protocol_receive p cx current slots Q from_buffer parse ch of
        None \<Rightarrow> None
      | Some (Panic e) \<Rightarrow> Some (Panic e)
      | Some (Ok (polled, ch')) \<Rightarrow>
          (case proto_run p cx current slots Q P from_buffer parse evs (st, ch') of
             Some (Ok (results, s)) \<Rightarrow> Some (Ok (case polled of Ready r \<Rightarrow> r # results | Pending \<Rightarrow> results, s))
           | other \<Rightarrow> other))"

text \<open>The message that a datagram becomes.\<close>

definition message :: "('e, 'u, 'b) pbuf_ops \<Rightarrow> 'b \<Rightarrow> 'a \<Rightarrow> 'e + 'b \<times> 'a" where
  "message P buffer addr =
     (case align_packet_buffer P buffer of
        Ok (Inr b) \<Rightarrow> Inr (b, addr)
      | Ok (Inl e) \<Rightarrow> Inl e
      | Panic _ \<Rightarrow> Inr (buffer, addr))"

fun messages :: "('e, 'u, 'b) pbuf_ops \<Rightarrow> ('b, 'a) proto_event list \<Rightarrow> ('e + 'b \<times> 'a) list" where
  "messages P [] = []"
| "messages P (Datagram b a # evs) = message P b a # messages P evs"
| "messages P (ReceivePoll # evs) = messages P evs"

fun datagram_ok :: "('e, 'u, 'b) pbuf_ops \<Rightarrow> ('b, 'a) proto_event \<Rightarrow> bool" where
  "datagram_ok P (Datagram b a) \<longleftrightarrow> length (pb_bytes P b) \<le> 65535"
| "datagram_ok P ReceivePoll \<longleftrightarrow> True"

lemma on_packet_spec:
  assumes "rtos_laws Q items cap" "length slots = 32" "pbuf_laws P" "length (pb_bytes P b) \<le> 65535"
  shows "\<exists>st' ch'. on_packet p slots Q P b a (st, ch) = Ok (st', ch')
    \<and> wifi_packets_received st' = wifi_packets_received st + 1
    \<and> (if length (items (ch_handle ch)) < cap
       then items (ch_handle ch') = items (ch_handle ch) @ [message P b a]
         \<and> packets_dropped_in_protocol_queue st' = packets_dropped_in_protocol_queue st
       else items (ch_handle ch') = items (ch_handle ch)
         \<and> packets_dropped_in_protocol_queue st' = packets_dropped_in_protocol_queue st + 1)"
proof -
  obtain r where r: "align_packet_buffer P b = Ok r"
    using align_packet_buffer_spec [OF assms(3,4)] by blast
  then have m: "message P b a = (case r of Inl e \<Rightarrow> Inl e | Inr b \<Rightarrow> Inr (b, a))"
    by (simp add: message_def split: sum.splits)
  obtain tasks ch' where s: "try_send p slots Q (message P b a) ch
      = Ok (if length (items (ch_handle ch)) < cap then Inr () else Inl (message P b a), tasks, ch')"
    "items (ch_handle ch') = items (ch_handle ch) @ (if length (items (ch_handle ch)) < cap then [message P b a] else [])"
    using try_send_spec [OF assms(1,2)] by blast
  then show ?thesis using r
    by (simp add: on_packet_def Let_def m counter_increment_def counter_add_def)
qed

lemma proto_run_spec:
  assumes laws: "rtos_laws Q items cap" "length slots = 32" "n < 32" "pbuf_laws P"
  shows "list_all (datagram_ok P) evs \<Longrightarrow> length (items (ch_handle ch)) \<le> cap \<Longrightarrow>
    \<exists>results st' ch' accepted taken.
      proto_run p (raw_waker_new (nth_id n)) current slots Q P from_buffer parse evs (st, ch) = Some (Ok (results, st', ch'))
      \<and> subseq accepted (messages P evs)
      \<and> items (ch_handle ch) @ accepted = taken @ items (ch_handle ch')
      \<and> results = List.map_filter (classify from_buffer parse) taken
      \<and> wifi_packets_received st' = wifi_packets_received st + of_nat (length (messages P evs))
      \<and> packets_dropped_in_protocol_queue st'
          = packets_dropped_in_protocol_queue st + of_nat (length (messages P evs) - length accepted)"
proof (induction evs arbitrary: st ch)
  case Nil
  show ?case by (auto simp: List.map_filter_simps)
next
  case (Cons ev evs)
  show ?case
  proof (cases ev)
    case (Datagram b a)
    have "length (pb_bytes P b) \<le> 65535" using Cons.prems(1) Datagram by simp
    from on_packet_spec [OF laws(1,2,4) this, of p a st ch] obtain st1 ch1 where
      s1: "on_packet p slots Q P b a (st, ch) = Ok (st1, ch1)"
        "wifi_packets_received st1 = wifi_packets_received st + 1"
        "if length (items (ch_handle ch)) < cap
         then items (ch_handle ch1) = items (ch_handle ch) @ [message P b a]
           \<and> packets_dropped_in_protocol_queue st1 = packets_dropped_in_protocol_queue st
         else items (ch_handle ch1) = items (ch_handle ch)
           \<and> packets_dropped_in_protocol_queue st1 = packets_dropped_in_protocol_queue st + 1"
      by blast
    have "length (items (ch_handle ch1)) \<le> cap" using s1(3) Cons.prems(2) by (auto split: if_splits)
    with Cons.IH [of ch1 st1] Cons.prems(1) obtain results st' ch' accepted taken where
      r: "proto_run p (raw_waker_new (nth_id n)) current slots Q P from_buffer parse evs (st1, ch1) = Some (Ok (results, st', ch'))"
        "subseq accepted (messages P evs)" "items (ch_handle ch1) @ accepted = taken @ items (ch_handle ch')"
        "results = List.map_filter (classify from_buffer parse) taken"
        "wifi_packets_received st' = wifi_packets_received st1 + of_nat (length (messages P evs))"
        "packets_dropped_in_protocol_queue st'
          = packets_dropped_in_protocol_queue st1 + of_nat (length (messages P evs) - length accepted)"
      by auto
    have len: "length accepted \<le> length (messages P evs)" using r(2) by (rule list_emb_length)
    show ?thesis
    proof (cases "length (items (ch_handle ch)) < cap")
      case True
      have "subseq (message P b a # accepted) (messages P (ev # evs))" using r(2) Datagram by simp
      then show ?thesis using s1 r True Datagram
        by (intro exI [of _ results] exI [of _ st'] exI [of _ ch'] exI [of _ "message P b a # accepted"] exI [of _ taken])
          simp
    next
      case False
      have "subseq accepted (messages P (ev # evs))" using r(2) Datagram by (simp add: list_emb_Cons)
      then show ?thesis using s1 r False Datagram len
        by (intro exI [of _ results] exI [of _ st'] exI [of _ ch'] exI [of _ accepted] exI [of _ taken])
          (simp add: Suc_diff_le)
    qed
  next
    case ReceivePoll
    from protocol_receive_spec [OF laws(1-3), of p current from_buffer parse ch] obtain polled ch1 where
      s1: "protocol_receive p (raw_waker_new (nth_id n)) current slots Q from_buffer parse ch = Some (Ok (polled, ch1))"
        "case first_some (classify from_buffer parse) (items (ch_handle ch)) of
           None \<Rightarrow> polled = Pending \<and> items (ch_handle ch1) = [] \<and> n \<in> waker_ids (ch_notify_rx ch1)
         | Some (res, rest) \<Rightarrow> polled = Ready res \<and> items (ch_handle ch1) = rest"
      by blast
    then obtain taken1 where t1: "items (ch_handle ch) = taken1 @ items (ch_handle ch1)"
      "List.map_filter (classify from_buffer parse) taken1 = (case polled of Ready r \<Rightarrow> [r] | Pending \<Rightarrow> [])"
      using first_some_taken [of "classify from_buffer parse" "items (ch_handle ch)"]
      by (cases "first_some (classify from_buffer parse) (items (ch_handle ch))") auto
    then have "length (items (ch_handle ch1)) \<le> cap" using Cons.prems(2) by simp
    with Cons.IH [of ch1 st] Cons.prems(1) obtain results st' ch' accepted taken where
      r: "proto_run p (raw_waker_new (nth_id n)) current slots Q P from_buffer parse evs (st, ch1) = Some (Ok (results, st', ch'))"
        "subseq accepted (messages P evs)" "items (ch_handle ch1) @ accepted = taken @ items (ch_handle ch')"
        "results = List.map_filter (classify from_buffer parse) taken"
        "wifi_packets_received st' = wifi_packets_received st + of_nat (length (messages P evs))"
        "packets_dropped_in_protocol_queue st'
          = packets_dropped_in_protocol_queue st + of_nat (length (messages P evs) - length accepted)"
      by auto
    have "List.map_filter (classify from_buffer parse) (taken1 @ taken)
        = (case polled of Ready r \<Rightarrow> r # results | Pending \<Rightarrow> results)"
      using t1(2) r(4) by (cases polled) (simp_all add: List.map_filter_def)
    moreover have "items (ch_handle ch) @ accepted = (taken1 @ taken) @ items (ch_handle ch')"
      using t1(1) r(3) by simp
    moreover have "proto_run p (raw_waker_new (nth_id n)) current slots Q P from_buffer parse (ev # evs) (st, ch)
        = Some (Ok (case polled of Ready r \<Rightarrow> r # results | Pending \<Rightarrow> results, st', ch'))"
      using s1(1) r(1) ReceivePoll by simp
    moreover have "messages P (ev # evs) = messages P evs" using ReceivePoll by simp
    ultimately show ?thesis using r(2,5,6) by metis
  qed
qed

subsection \<open>Setting the socket up\<close>

text \<open>
  The resources of a socket, and the trace of what a call acquires and releases. What the calls out of
  the program answer is the parameter \<open>bind_env\<close>.
\<close>

datatype resource = Pcb | Group | QueueMem | SharedMem | Callback | Registration

datatype eff = Acq resource | Rel resource

record bind_env =
  be_udp_new :: bool
  be_alloc_group :: "malloc_error option"
  be_queue_create :: bool
  be_alloc_shared :: "malloc_error option"
  be_alloc_callback :: "malloc_error option"
  be_type_v4 :: u32
  be_udp_bind :: "ip_addr \<Rightarrow> u16 \<Rightarrow> i8"
  be_udp_sendto :: "u8 list \<Rightarrow> ip_addr \<Rightarrow> u16 \<Rightarrow> i8"
  be_default_netif :: nat
  be_netif_impl :: "nat \<Rightarrow> nat"
  be_igmp_join :: "nat \<Rightarrow> u32 \<Rightarrow> i8"

datatype alloc_queue_error = QueueCreate | Malloc malloc_error

datatype bind_error =
    NewSocketError net_error
  | AllocatePacketQueue alloc_queue_error
  | SetOnReceiveCallback malloc_error
  | BindSocket net_error
  | JoinMulticastGroup net_error

definition udp_new :: "bind_env \<Rightarrow> (net_error + unit) \<times> eff list" where
  "udp_new env =
     (if \<not> be_udp_new env then (Inl NewSocket, [])
      else case be_alloc_group env of
             Some e \<Rightarrow> (Inl (NetAlloc e), [Acq Pcb, Rel Pcb])
           | None \<Rightarrow> (Inr (), [Acq Pcb, Acq Group]))"

definition udp_bind :: "bind_env \<Rightarrow> ipv4 \<Rightarrow> u16 \<Rightarrow> net_error + unit" where
  "udp_bind env ip port =
     (case lwip_check (be_udp_bind env (rust_to_esp_ip_addr (be_type_v4 env) ip) port) of
        Inl rc \<Rightarrow> Inl (Lwip rc)
      | Inr _ \<Rightarrow> Inr ())"

definition udp_send_to :: "bind_env \<Rightarrow> u8 list \<Rightarrow> ipv4 \<Rightarrow> u16 \<Rightarrow> net_error + unit" where
  "udp_send_to env buffer ip port =
     (case lwip_check (be_udp_sendto env buffer (rust_to_esp_ip_addr (be_type_v4 env) ip) port) of
        Inl rc \<Rightarrow> Inl (Lwip rc)
      | Inr _ \<Rightarrow> Inr ())"

text \<open>Sending: \<open>as_buffer\<close> is the packet's own buffer.\<close>

definition protocol_send :: "bind_env \<Rightarrow> ('p \<Rightarrow> u8 list) \<Rightarrow> 'p \<Rightarrow> ipv4 \<times> u16 \<Rightarrow> net_error + unit" where
  "protocol_send env as_buffer packet addr =
     (case udp_send_to env (as_buffer packet) (fst addr) (snd addr) of
        Inl e \<Rightarrow> Inl e
      | Inr _ \<Rightarrow> Inr ())"

lemma protocol_send_fails:
  "protocol_send env as_buffer packet (ip, port) = Inl e \<longleftrightarrow>
     be_udp_sendto env (as_buffer packet) (rust_to_esp_ip_addr (be_type_v4 env) ip) port \<noteq> 0
     \<and> e = Lwip (be_udp_sendto env (as_buffer packet) (rust_to_esp_ip_addr (be_type_v4 env) ip) port)"
  by (auto simp: protocol_send_def udp_send_to_def lwip_check_def)

definition queue_handle_alloc :: "bind_env \<Rightarrow> alloc_queue_error + unit" where
  "queue_handle_alloc env = (if be_queue_create env then Inr () else Inl QueueCreate)"

definition channel_open :: "bind_env \<Rightarrow> (alloc_queue_error + unit channel) \<times> eff list" where
  "channel_open env =
     (case queue_handle_alloc env of
        Inl e \<Rightarrow> (Inl e, [])
      | Inr _ \<Rightarrow>
          (case be_alloc_shared env of
             Some e \<Rightarrow> (Inl (Malloc e), [Acq QueueMem, Rel QueueMem])
           | None \<Rightarrow> (Inr (channel_new ()), [Acq QueueMem, Acq SharedMem])))"

text \<open>The side that is dropped last deletes the queue and frees the shared state.\<close>

definition side_dropped :: "bool \<times> unit channel \<Rightarrow> eff list" where
  "side_dropped r = (if fst r then [Rel QueueMem, Rel SharedMem] else [])"

text \<open>The closure owns the sender: it goes with the closure when there is no memory for the callback.\<close>

definition on_receive :: "bind_env \<Rightarrow> unit channel \<Rightarrow> (malloc_error + unit) \<times> unit channel \<times> eff list" where
  "on_receive env ch =
     (case be_alloc_callback env of
        Some e \<Rightarrow> (Inl e, snd (drop_tx ch), side_dropped (drop_tx ch))
      | None \<Rightarrow> (Inr (), ch, [Acq Callback, Acq Registration]))"

text \<open>The drop of the socket: the callback is quiesced and freed, then the fields go in order.\<close>

definition udp_drop :: "bool \<Rightarrow> unit channel \<Rightarrow> eff list" where
  "udp_drop installed ch =
     (if installed then [Rel Registration] @ side_dropped (drop_tx ch) @ [Rel Callback] else [])
     @ [Rel Pcb, Rel Group]"

definition UNSPECIFIED :: ipv4 where "UNSPECIFIED = Ipv4Addr 0 0 0 0"

text \<open>On an error the locals are dropped, the receiver before the socket.\<close>

definition protocol_bind :: "bind_env \<Rightarrow> ipv4 \<Rightarrow> u16 \<Rightarrow> (bind_error + unit) \<times> eff list" where
  "protocol_bind env grp port =
     (case udp_new env of
        (Inl e, t1) \<Rightarrow> (Inl (NewSocketError e), t1)
      | (Inr _, t1) \<Rightarrow>
     (case channel_open env of
        (Inl e, t2) \<Rightarrow> (Inl (AllocatePacketQueue e), t1 @ t2 @ udp_drop False (channel_new ()))
      | (Inr ch, t2) \<Rightarrow>
     (case on_receive env ch of
        (Inl e, ch', t3) \<Rightarrow>
          (Inl (SetOnReceiveCallback e),
           t1 @ t2 @ t3 @ side_dropped (drop_rx ch') @ udp_drop False (snd (drop_rx ch')))
      | (Inr _, ch', t3) \<Rightarrow>
          let failed = side_dropped (drop_rx ch') @ udp_drop True (snd (drop_rx ch'))
          in case udp_bind env UNSPECIFIED port of
               Inl e \<Rightarrow> (Inl (BindSocket e), t1 @ t2 @ t3 @ failed)
             | Inr _ \<Rightarrow>
                 (case join_multicast_group (be_default_netif env) (be_netif_impl env) (be_igmp_join env) grp of
                    Inl e \<Rightarrow> (Inl (JoinMulticastGroup e), t1 @ t2 @ t3 @ failed)
                  | Inr _ \<Rightarrow> (Inr (), t1 @ t2 @ t3)))))"

text \<open>The end of a socket that was set up: its fields are dropped in order.\<close>

definition protocol_drop :: "unit channel \<Rightarrow> eff list" where
  "protocol_drop ch = udp_drop True ch @ side_dropped (drop_rx (snd (drop_tx ch)))"

text \<open>
  What a trace leaves held; \<^const>\<open>None\<close> if it acquires something twice, releases what it does not hold,
  frees the callback or the socket while lwIP can still call it, or frees the event group before the callback.
\<close>

fun held :: "eff list \<Rightarrow> resource list \<Rightarrow> resource list option" where
  "held [] rs = Some rs"
| "held (Acq r # es) rs = (if r \<in> set rs then None else held es (rs @ [r]))"
| "held (Rel r # es) rs =
     (if r \<in> set rs \<and> \<not> (r \<in> {Callback, Pcb} \<and> Registration \<in> set rs) \<and> \<not> (r = Group \<and> Callback \<in> set rs)
      then held es (remove1 r rs) else None)"

lemma held_append: "held (es @ fs) rs = Option.bind (held es rs) (held fs)"
  by (induction es rs rule: held.induct) auto

lemma sides:
  "side_dropped (drop_rx (channel_new ())) = []" "side_dropped (drop_tx (channel_new ())) = []"
  "side_dropped (drop_tx (snd (drop_rx (channel_new ())))) = [Rel QueueMem, Rel SharedMem]"
  "side_dropped (drop_rx (snd (drop_tx (channel_new ())))) = [Rel QueueMem, Rel SharedMem]"
  using drop_sides_once [of "channel_new ()"]
  by (simp_all add: side_dropped_def channel_new_def TX_ALIVE_def RX_ALIVE_def)

lemma protocol_bind_held:
  "(case protocol_bind env grp port of
      (Inl e, trace) \<Rightarrow> held trace [] = Some []
    | (Inr _, trace) \<Rightarrow> held trace [] = Some [Pcb, Group, QueueMem, SharedMem, Callback, Registration]
        \<and> held (trace @ protocol_drop (channel_new ())) [] = Some [])"
  by (cases "be_alloc_group env"; cases "be_alloc_shared env"; cases "be_alloc_callback env")
    (simp_all add: protocol_bind_def udp_new_def channel_open_def queue_handle_alloc_def on_receive_def udp_drop_def protocol_drop_def sides
      Let_def split: sum.splits)

subsection \<open>Properties\<close>

text \<open>One poll of the receive loop gives the first queued message that is an allocation error or a
  packet that parses, skips the malformed ones before it and leaves the ones after it queued; with no
  such message it empties the queue, registers the task for the next one and waits. It never loops.\<close>

theorem receive_takes_first_valid:
  assumes "rtos_laws Q items cap" "length slots = 32" "n < 32"
  shows "\<exists>r ch'. protocol_receive p (raw_waker_new (nth_id n)) current slots Q from_buffer parse ch = Some (Ok (r, ch'))
    \<and> (case first_some (classify from_buffer parse) (items (ch_handle ch)) of
         None \<Rightarrow> r = Pending \<and> items (ch_handle ch') = [] \<and> n \<in> waker_ids (ch_notify_rx ch')
       | Some (res, rest) \<Rightarrow> r = Ready res \<and> items (ch_handle ch') = rest)"
  using protocol_receive_spec [OF assms, of p current from_buffer parse ch] by blast

theorem receive_takes_first_valid_witness:
  "\<exists>ch'. protocol_receive Dev (raw_waker_new (nth_id 3)) 100 (replicate 32 None) (list_rtos 4)
      (\<lambda>b. if b = 0 then None else Some b) (\<lambda>p. if p = 1 then None else Some p)
      (channel_new [Inr (0 :: nat, 7 :: nat), Inr (1, 7), Inr (2, 8), Inl ''full''])
    = Some (Ok (Ready (Received 2 8), ch')) \<and> ch_handle ch' = [Inl ''full'']"
  using receive_takes_first_valid [OF list_rtos_laws, of "replicate 32 None" 3 Dev 100 4
      "\<lambda>b. if b = 0 then None else Some b" "\<lambda>p. if p = 1 then None else Some p"
      "channel_new [Inr (0 :: nat, 7 :: nat), Inr (1, 7), Inr (2, 8), Inl ''full'']"]
  by (auto simp: channel_new_def classify_def)

text \<open>Every datagram is accounted for: along any sequence of arrivals and polls, what was queued followed
  by the accepted datagrams, in order of arrival, is what the polls took followed by what is still queued;
  the polls hand out the valid ones among those taken; and the counters grow by the number of arrivals
  and by the number of those that were not accepted.\<close>

theorem datagrams_accounted:
  assumes "rtos_laws Q items cap" "length slots = 32" "n < 32" "pbuf_laws P"
    and "list_all (datagram_ok P) evs" "length (items (ch_handle ch)) \<le> cap"
  shows "\<exists>results st' ch' accepted taken.
      proto_run p (raw_waker_new (nth_id n)) current slots Q P from_buffer parse evs (st, ch) = Some (Ok (results, st', ch'))
      \<and> subseq accepted (messages P evs)
      \<and> items (ch_handle ch) @ accepted = taken @ items (ch_handle ch')
      \<and> results = List.map_filter (classify from_buffer parse) taken
      \<and> wifi_packets_received st' = wifi_packets_received st + of_nat (length (messages P evs))
      \<and> packets_dropped_in_protocol_queue st'
          = packets_dropped_in_protocol_queue st + of_nat (length (messages P evs) - length accepted)"
  by (rule proto_run_spec [OF assms])

text \<open>C18: setting the socket up either succeeds and holds its six resources, which dropping it releases, or
  fails and holds nothing: whichever step fails, everything acquired before is released exactly once,
  and the callback only when lwIP can no longer call it.\<close>

theorem protocol_bind_releases_on_error:
  "(case protocol_bind env grp port of
      (Inl e, trace) \<Rightarrow> held trace [] = Some []
    | (Inr _, trace) \<Rightarrow> held trace [] = Some [Pcb, Group, QueueMem, SharedMem, Callback, Registration]
        \<and> held (trace @ protocol_drop (channel_new ())) [] = Some [])"
  by (rule protocol_bind_held)

definition list_pbuf :: "(string, nat, nat \<times> u8 list) pbuf_ops" where
  "list_pbuf = \<lparr>pb_addr = fst, pb_bytes = snd, pb_allocate = (\<lambda>sz align. Inr (16 * align)), pb_copied = Pair\<rparr>"

lemma list_pbuf_laws: "pbuf_laws list_pbuf"
  by (simp add: pbuf_laws_def list_pbuf_def)

theorem datagrams_accounted_witness:
  "\<exists>results st' ch'. proto_run Dev (raw_waker_new (nth_id 3)) 100 (replicate 32 None) (list_rtos 1) list_pbuf
      Some (\<lambda>b. Some (snd b)) [Datagram (8, [1]) (), Datagram (3, [2]) (), ReceivePoll, Datagram (5, [3]) ()]
      (stats_new, channel_new []) = Some (Ok (results, st', ch')) \<and> wifi_packets_received st' = 3"
  using datagrams_accounted [OF list_rtos_laws _ _ list_pbuf_laws,
      of "replicate 32 None" 3 "[Datagram (8, [1]) (), Datagram (3, [2]) (), ReceivePoll, Datagram (5, [3]) ()]" "channel_new []" 1 Dev
      100 Some "\<lambda>b. Some (snd b)" stats_new]
  by (auto simp: channel_new_def list_pbuf_def stats_new_def counter_new_def simp del: proto_run.simps)

end
