(* ===== verification/AppTask.thy ===== *)
theory AppTask
  imports Stream Protocol
begin

text \<open>
  The application task (\<^verbatim>\<open>task\<close> of \<^verbatim>\<open>src/app/mod.rs\<close>) over the protocol socket and the receiver, and what
  the parts give together: a session's stream, shared by the receiver and its task, plays the packets
  that arrived first, in order.
\<close>

subsection \<open>The task\<close>

text \<open>The clock of ESP-IDF is signed; a negative time is a panic.\<close>

definition timestamp :: "64 word \<Rightarrow> u64 outcome" where
  "timestamp micros =
     (if sint micros < 0 then Panic (ExplicitPanic ''negative timestamp from esp_timer_get_time'')
      else Ok (ucast micros))"

text \<open>
  Packets are parsed by \<^verbatim>\<open>bark_protocol\<close>, so the kinds and the accessors of a time packet are parameters:
  its phase, its session and stamps, and the copy with a new second receive stamp.
\<close>

datatype ('a, 't) packet_kind = Audio 'a | Time 't | OtherPacket

datatype time_phase = Broadcast | StreamReply | OtherPhase

record ('t, 'sid, 'd) time_params =
  tp_phase :: "'t \<Rightarrow> time_phase option"
  tp_sid :: "'t \<Rightarrow> 'sid"
  tp_fields :: "'t \<Rightarrow> 'd time_fields"
  tp_set_receive_2 :: "u64 \<Rightarrow> 't \<Rightarrow> 't"

text \<open>What a packet meets when it is handled: the clock, the allocator, whether a task is made, and the network.\<close>

record ('t, 'addr) surroundings =
  su_micros :: "64 word"
  su_malloc :: "nat \<Rightarrow> nat"
  su_spawned :: bool
  su_send :: "'t \<Rightarrow> 'addr \<Rightarrow> net_error + unit"

text \<open>
  The handling of one packet: the new state, and the reply that was sent. A failed send ends the task.
\<close>

definition handle_packet ::
    "profile \<Rightarrow> ('a, 'sid::linorder, 'q, 'h, 'g, 'd) app_params \<Rightarrow> ('t, 'sid, 'd) time_params \<Rightarrow>
     ('t, 'addr) surroundings \<Rightarrow> ('a, 't) packet_kind \<Rightarrow> 'addr \<Rightarrow> ('sid, 'h, 'g, 'q) app_state \<Rightarrow>
     ((net_error + ('t \<times> 'addr) option) \<times> ('sid, 'h, 'g, 'q) app_state) outcome option" where
  "handle_packet p P T su kind addr app =
     (case kind of
        Audio audio \<Rightarrow>
          map_option (\<lambda>handled. bind_outcome handled (\<lambda>app'. Ok (Inr None, app')))
            (handle_audio p P (su_malloc su) (su_spawned su) audio app)
      | Time time \<Rightarrow>
          (case tp_phase T time of
             Some Broadcast \<Rightarrow>
               Some (bind_outcome (timestamp (su_micros su)) (\<lambda>now.
                 let reply = tp_set_receive_2 T now time
                 in Ok (case su_send su reply addr of
                          Inl e \<Rightarrow> (Inl e, app)
                        | Inr _ \<Rightarrow> (Inr (Some (reply, addr)), app))))
           | Some StreamReply \<Rightarrow> Some (Ok (Inr None, handle_stream_reply P (tp_sid T time) (tp_fields T time) app))
           | _ \<Rightarrow> Some (Ok (Inr None, app)))
      | OtherPacket \<Rightarrow> Some (Ok (Inr None, app)))"

text \<open>
  The loop over what the socket hands out; an allocation error is logged. The result is the error that
  ended the task, if one did, the replies sent, and the state.
\<close>

fun app_loop ::
    "profile \<Rightarrow> ('a, 'sid::linorder, 'q, 'h, 'g, 'd) app_params \<Rightarrow> ('t, 'sid, 'd) time_params \<Rightarrow>
     (('e, ('a, 't) packet_kind, 'addr) socket_result \<times> ('t, 'addr) surroundings) list \<Rightarrow> ('sid, 'h, 'g, 'q) app_state \<Rightarrow>
     (net_error option \<times> ('t \<times> 'addr) list \<times> ('sid, 'h, 'g, 'q) app_state) outcome option" where
  "app_loop p P T [] app = Some (Ok (None, [], app))"
| "app_loop p P T ((AllocatePacketBuffer e, su) # msgs) app = app_loop p P T msgs app"
| "app_loop p P T ((Received kind addr, su) # msgs) app =
     Option.bind (handle_packet p P T su kind addr app) (\<lambda>handled.
       case handled of
         Panic e \<Rightarrow> Some (Panic e)
       | Ok (Inl e, app') \<Rightarrow> Some (Ok (Some e, [], app'))
       | Ok (Inr reply, app') \<Rightarrow>
           map_option (\<lambda>r. bind_outcome r (\<lambda>(ended, replies, app'').
             Ok (ended, case reply of Some m \<Rightarrow> m # replies | None \<Rightarrow> replies, app'')))
             (app_loop p P T msgs app'))"

text \<open>
  The whole task: it sets the socket up, takes what comes with a receiver that has no stream yet, and when it
  ends, drops the receiver and then the socket.
\<close>

datatype app_error = BindFailed bind_error | SocketFailed net_error

definition MULTICAST_GROUP :: ipv4 where "MULTICAST_GROUP = Ipv4Addr 224 100 100 100"
definition MULTICAST_PORT :: u16 where "MULTICAST_PORT = 1530"

definition app_task ::
    "profile \<Rightarrow> ('a, 'sid::linorder, 'q, 'h, 'g, 'd) app_params \<Rightarrow> ('t, 'sid, 'd) time_params \<Rightarrow> bind_env \<Rightarrow>
     (('e, ('a, 't) packet_kind, 'addr) socket_result \<times> ('t, 'addr) surroundings) list \<Rightarrow> ('sid, 'h, 'g, 'q) app_state \<Rightarrow>
     (app_error option \<times> eff list \<times> ('t \<times> 'addr) list \<times> ('sid, 'h, 'g, 'q) app_state) outcome option" where
  "app_task p P T env msgs app =
     (case protocol_bind env MULTICAST_GROUP MULTICAST_PORT of
        (Inl e, trace) \<Rightarrow> Some (Ok (Some (BindFailed e), trace, [], app))
      | (Inr _, trace) \<Rightarrow>
          Option.bind (app_loop p P T msgs (app\<lparr>app_stream := None\<rparr>)) (\<lambda>r.
            case r of
              Panic e \<Rightarrow> Some (Panic e)
            | Ok (None, replies, app') \<Rightarrow> Some (Ok (None, trace, replies, app'))
            | Ok (Some e, replies, app') \<Rightarrow>
                map_option (\<lambda>m. Ok (Some (SocketFailed e), trace @ protocol_drop (channel_new ()), replies,
                    app'\<lparr>app_mem := m, app_stream := None\<rparr>))
                  (stream_drop P (app_stream app') (app_mem app'))))"

subsection \<open>Turns of one stream's task\<close>

text \<open>
  A run of receiver and tasks while one stream is current, from the view of its queue \<open>q\<close>: the packets
  the receiver took in, the pops of the stream's task, and what they gave. Time packets, the turns and
  failures of the tasks of older streams and changes of the counters come in between.
\<close>

inductive session_run ::
    "profile \<Rightarrow> ('a, 'sid::linorder, 'q, 'h, 'g, 'd) app_params \<Rightarrow> nat \<Rightarrow> ('sid, 'h, 'g, 'q) app_state \<Rightarrow>
     'a pq_act list \<Rightarrow> 'a option list \<Rightarrow> ('sid, 'h, 'g, 'q) app_state \<Rightarrow> bool"
  for p P q where
  sr_done: "session_run p P q app [] [] app"
| sr_audio: "\<not> is_new_session (ap_sid P audio) app \<Longrightarrow>
    handle_audio p P malloc spawned audio app = Some (Ok app1) \<Longrightarrow> session_run p P q app1 acts outs app' \<Longrightarrow>
    session_run p P q app (Receive audio # acts) outs app'"
| sr_reply: "session_run p P q (handle_stream_reply P sid time app) acts outs app' \<Longrightarrow>
    session_run p P q app acts outs app'"
| sr_turn: "i < length (app_tasks app) \<Longrightarrow> app_tasks app ! i = q \<Longrightarrow>
    stream_turn p P i app = Some (Ok (Some out, app1)) \<Longrightarrow> session_run p P q app1 acts outs app' \<Longrightarrow>
    session_run p P q app (PopFront # acts) (out # outs) app'"
| sr_other: "i < length (app_tasks app) \<Longrightarrow> app_tasks app ! i \<noteq> q \<Longrightarrow>
    stream_turn p P i app = Some (Ok (out, app1)) \<Longrightarrow> session_run p P q app1 acts outs app' \<Longrightarrow>
    session_run p P q app acts outs app'"
| sr_fail: "i < length (app_tasks app) \<Longrightarrow> app_tasks app ! i \<noteq> q \<Longrightarrow>
    stream_task_fails P i app = Some app1 \<Longrightarrow> session_run p P q app1 acts outs app' \<Longrightarrow>
    session_run p P q app acts outs app'"
| sr_stats: "session_run p P q (app\<lparr>app_stats := st\<rparr>) acts outs app' \<Longrightarrow> session_run p P q app acts outs app'"

lemma shared_clone_deref:
  "shared_clone ptr m = Some m' \<Longrightarrow> shared_deref a m' = shared_deref a m"
  by (auto simp: shared_clone_def box_deref_def box_deref_mut_def shared_deref_def return_ok split: if_splits)

lemma shared_update_other:
  "shared_update ptr v m = Some m' \<Longrightarrow> a \<noteq> ptr \<Longrightarrow> shared_deref a m' = shared_deref a m"
  by (auto simp: shared_update_def box_deref_def box_deref_mut_def shared_deref_def return_ok split: if_splits)

lemma shared_drop_other:
  "shared_drop sz ptr m = Some m' \<Longrightarrow> a \<noteq> ptr \<Longrightarrow> shared_deref a m' = shared_deref a m"
  by (auto simp: shared_drop_def box_deref_def box_deref_mut_def shared_deref_def drop_free_def return_ok
      split: if_splits)

lemma shared_update_same: "shared_update ptr v m = Some m' \<Longrightarrow> shared_deref ptr m' = Some v"
  by (auto simp: shared_update_def box_deref_def box_deref_mut_def shared_deref_def return_ok split: if_splits)

text \<open>Whether the stream's task is started or not, the queue has the packet in it.\<close>

lemma receive_audio_queue:
  assumes "receive_audio p P spawned packet s app = Some (Ok app')" "app_stream app = Some s"
  shows "\<exists>shared shared' stats'. shared_deref (stream_queue s) (app_mem app) = Some shared
    \<and> insert_packet p (ap_deque P) (ap_seq P) packet shared (app_stats app) = Some (Ok (shared', stats'))
    \<and> shared_deref (stream_queue s) (app_mem app') = Some shared'
    \<and> (\<exists>s'. app_stream app' = Some s' \<and> stream_queue s' = stream_queue s \<and> stream_sid s' = stream_sid s)"
proof -
  obtain app1 where app1: "queue_receive_packet p P packet (stream_queue s) app = Some (Ok app1)"
    and rest: "(case stream_start s of
          ReceivingPackets cnt \<Rightarrow>
            let s' = s\<lparr>stream_start := ReceivingPackets (cnt + 1)\<rparr>
            in if cnt + 1 > DELAY_START_PACKETS P then start_task spawned s' app1
               else Some (Ok (app1\<lparr>app_stream := Some s'\<rparr>))
        | Started \<Rightarrow> Some (Ok app1)) = Some (Ok app')"
    using assms(1) by (auto simp: receive_audio_def return_ok)
  obtain shared shared' stats' m where q: "shared_deref (stream_queue s) (app_mem app) = Some shared"
    "insert_packet p (ap_deque P) (ap_seq P) packet shared (app_stats app) = Some (Ok (shared', stats'))"
    "shared_update (stream_queue s) shared' (app_mem app) = Some m" "app1 = app\<lparr>app_mem := m, app_stats := stats'\<rparr>"
    using app1 by (auto simp: queue_receive_packet_def return_ok)
  have "shared_deref (stream_queue s) (app_mem app1) = Some shared'"
    using shared_update_same [OF q(3)] q(4) by simp
  then show ?thesis
    using rest q(1,2,4) assms(2)
    by (cases "stream_start s") (auto simp: Let_def start_task_def shared_clone_deref split: if_splits)
qed

lemma stream_turn_other:
  assumes "stream_turn p P i app = Some (Ok (out, app'))" "app_tasks app ! i \<noteq> q"
  shows "shared_deref q (app_mem app') = shared_deref q (app_mem app)"
proof -
  have ne: "q \<noteq> app_tasks app ! i" using assms(2) by simp
  show ?thesis
    using assms(1) shared_update_other [OF _ ne] shared_drop_other [OF _ ne]
    by (auto simp: stream_turn_def Let_def return_ok split: if_splits)
qed

lemma stream_turn_queue:
  assumes "stream_turn p P i app = Some (Ok (Some out, app'))"
  shows "\<exists>shared shared'. shared_deref (app_tasks app ! i) (app_mem app) = Some shared
    \<and> pq_pop_front p (ap_deque P) shared = Ok (out, shared')
    \<and> shared_deref (app_tasks app ! i) (app_mem app') = Some shared'"
  using assms shared_update_same
  by (auto simp: stream_turn_def Let_def return_ok split: if_splits)

lemma stream_reply_queue:
  "app_mem (handle_stream_reply P sid time app) = app_mem app"
  "(\<exists>s'. app_stream (handle_stream_reply P sid time app) = Some s' \<and> stream_queue s' = q)
    \<longleftrightarrow> (\<exists>s'. app_stream app = Some s' \<and> stream_queue s' = q)"
  by (auto simp: handle_stream_reply_def get_stream_def split: option.splits if_splits)

text \<open>The run of the shared queue is a run of the abstract play queue.\<close>

lemma session_run_refines:
  assumes laws: "deque_laws (ap_deque P) items"
    and "session_run p P q app acts outs app'"
    and "app_inv P items app" "\<exists>s. app_stream app = Some s \<and> stream_queue s = q"
    and "shared_deref q (app_mem app) = Some shared" "base \<le> unat (pq_head_seq shared)"
    and "unat (pq_head_seq shared) + pops acts + MAX_QUEUED_PACKETS < 2 ^ 64"
    and "\<forall>packet\<in>received acts. unat (ap_seq P packet) < base + 2 ^ 32"
  shows "outs = play_run (ap_seq P) acts (pq_abs items shared)"
  using assms(2-)
proof (induction arbitrary: shared rule: session_run.induct)
  case (sr_done app)
  show ?case by simp
next
  case (sr_audio audio app malloc spawned app1 acts outs app')
  then obtain s where s: "app_stream app = Some s" "stream_queue s = q" by blast
  have "prepare_stream P malloc (ap_sid P audio) (ap_seq P audio) app = Some app"
    using sr_audio.hyps(1) s(1) by (simp add: prepare_stream_def is_new_session_def)
  then have ra: "receive_audio p P spawned audio s app = Some (Ok app1)"
    using sr_audio.hyps(2) s(1) by (simp add: handle_audio_def)
  obtain shared' stats' s' where r: "insert_packet p (ap_deque P) (ap_seq P) audio shared (app_stats app) = Some (Ok (shared', stats'))"
    "shared_deref q (app_mem app1) = Some shared'" "app_stream app1 = Some s'" "stream_queue s' = q"
    using receive_audio_queue [OF ra s(1)] s(2) sr_audio.prems(3) by auto
  have wf: "pq_wf (ap_deque P) items shared" using sr_audio.prems(1,3) by (simp add: app_inv_def)
  have bounds: "unat (pq_head_seq shared) + MAX_QUEUED_PACKETS < 2 ^ 64"
    "unat (ap_seq P audio) < unat (pq_head_seq shared) + 2 ^ 32"
    using sr_audio.prems(4-6) by (auto simp: received_def)
  from insert_packet_refines [where seq_of = "ap_seq P", OF laws wf this, of p "app_stats app"] r(1)
  have sh: "pq_abs items shared' = snd (play_insert (ap_seq P) audio (pq_abs items shared))"
    "pq_head_seq shared' = pq_head_seq shared" by auto
  have inv1: "app_inv P items app1"
    using receive_audio_spec [OF sr_audio.prems(1) laws s(1), of p spawned audio] ra by auto
  have "\<forall>packet\<in>received acts. unat (ap_seq P packet) < base + 2 ^ 32"
    using sr_audio.prems(6) by (auto simp: received_def)
  then show ?case
    using sr_audio.IH [OF inv1 _ r(2)] r(3,4) sr_audio.prems(4,5) sh by auto
next
  case (sr_reply sid time app acts outs app')
  show ?case
    using sr_reply.IH [OF stream_reply_inv [OF sr_reply.prems(1)], of shared] sr_reply.prems stream_reply_queue [of P sid time app]
    by simp
next
  case (sr_turn i app out app1 acts outs app')
  obtain shared' where t: "pq_pop_front p (ap_deque P) shared = Ok (out, shared')" "shared_deref q (app_mem app1) = Some shared'"
    using stream_turn_queue [OF sr_turn.hyps(3)] sr_turn.hyps(2) sr_turn.prems(3) by auto
  have wf: "pq_wf (ap_deque P) items shared" using sr_turn.prems(1,3) by (simp add: app_inv_def)
  have "unat (pq_head_seq shared) + 1 < 2 ^ 64" using sr_turn.prems(5) by (simp add: MAX_QUEUED_PACKETS_def)
  from pop_front_refines [OF laws wf this, of p] t(1)
  have sh: "out = fst (play_pop (pq_abs items shared))" "pq_abs items shared' = snd (play_pop (pq_abs items shared))"
    "unat (pq_head_seq shared') = Suc (unat (pq_head_seq shared))" by auto
  have spec: "app_inv P items app1" "app_stream app1 = app_stream app"
    using stream_turn_spec [OF sr_turn.prems(1) laws sr_turn.hyps(1), of p] sr_turn.hyps(3) by auto
  have "\<forall>packet\<in>received acts. unat (ap_seq P packet) < base + 2 ^ 32"
    using sr_turn.prems(6) by (auto simp: received_def)
  then show ?case
    using sr_turn.IH [OF spec(1) _ t(2)] sr_turn.prems(2,4,5) spec(2) sh by auto
next
  case (sr_other i app out app1 acts outs app')
  have spec: "app_inv P items app1" "app_stream app1 = app_stream app"
    using stream_turn_spec [OF sr_other.prems(1) laws sr_other.hyps(1), of p] sr_other.hyps(3) by auto
  show ?case
    using sr_other.IH [OF spec(1), of shared] sr_other.prems spec(2) stream_turn_other [OF sr_other.hyps(3,2)] by simp
next
  case (sr_fail i app app1 acts outs app')
  have spec: "app_inv P items app1" "app_stream app1 = app_stream app"
    using stream_task_fails_spec [OF sr_fail.prems(1) sr_fail.hyps(1)] sr_fail.hyps(3) by auto
  have "q \<noteq> app_tasks app ! i" using sr_fail.hyps(2) by simp
  then have "shared_deref q (app_mem app1) = shared_deref q (app_mem app)"
    using sr_fail.hyps(3) shared_drop_other by (fastforce simp: stream_task_fails_def)
  then show ?case using sr_fail.IH [OF spec(1), of shared] sr_fail.prems spec(2) by simp
next
  case (sr_stats app st acts outs app')
  then show ?case by (simp add: app_inv_stats)
qed

subsection \<open>Replies\<close>

text \<open>The reply that a received packet calls for.\<close>

definition reply_to ::
    "('t, 'sid, 'd) time_params \<Rightarrow> ('e, ('a, 't) packet_kind, 'addr) socket_result \<times> ('t, 'addr) surroundings \<Rightarrow>
     ('t \<times> 'addr) option" where
  "reply_to T m =
     (case m of
        (Received (Time time) addr, su) \<Rightarrow>
          if tp_phase T time = Some Broadcast then Some (tp_set_receive_2 T (ucast (su_micros su)) time, addr) else None
      | _ \<Rightarrow> None)"

lemma handle_packet_reply:
  assumes "handle_packet p P T su kind addr app = Some (Ok (r, app'))"
  shows "case r of
      Inr reply \<Rightarrow> reply_to T (Received kind addr, su) = reply
    | Inl e \<Rightarrow> \<exists>reply. reply_to T (Received kind addr, su) = Some reply \<and> su_send su (fst reply) (snd reply) = Inl e"
proof (cases kind)
  case (Audio a)
  then show ?thesis using assms by (auto simp: handle_packet_def reply_to_def return_ok)
next
  case OtherPacket
  then show ?thesis using assms by (auto simp: handle_packet_def reply_to_def)
next
  case (Time time)
  show ?thesis
  proof (cases "tp_phase T time = Some Broadcast")
    case True
    then have "timestamp (su_micros su) = Ok (su_micros su)"
      using assms Time by (auto simp: handle_packet_def return_ok timestamp_def split: if_splits)
    then show ?thesis using assms Time True
      by (cases "su_send su (tp_set_receive_2 T (su_micros su) time) addr")
        (auto simp: handle_packet_def reply_to_def Let_def)
  next
    case False
    then show ?thesis using assms Time
      by (auto simp: handle_packet_def reply_to_def split: option.splits time_phase.splits)
  qed
qed

definition answered ::
    "('t, 'sid, 'd) time_params \<Rightarrow> (('e, ('a, 't) packet_kind, 'addr) socket_result \<times> ('t, 'addr) surroundings) list \<Rightarrow>
     net_error option \<Rightarrow> ('t \<times> 'addr) list \<Rightarrow> bool" where
  "answered T msgs ended replies \<longleftrightarrow>
     (\<exists>handled rest. msgs = handled @ rest \<and> replies = List.map_filter (reply_to T) handled
        \<and> (case ended of
             None \<Rightarrow> rest = []
           | Some e \<Rightarrow> \<exists>m rest' reply. rest = m # rest' \<and> reply_to T m = Some reply
               \<and> su_send (snd m) (fst reply) (snd reply) = Inl e))"

lemma answered_Nil: "answered T [] None []"
  by (simp add: answered_def List.map_filter_simps)

lemma answered_Cons:
  assumes "answered T msgs ended replies"
  shows "answered T (m # msgs) ended (case reply_to T m of Some x \<Rightarrow> x # replies | None \<Rightarrow> replies)"
proof -
  obtain handled rest where r: "msgs = handled @ rest" "replies = List.map_filter (reply_to T) handled"
    "case ended of None \<Rightarrow> rest = [] | Some e \<Rightarrow> \<exists>m rest' reply. rest = m # rest' \<and> reply_to T m = Some reply
      \<and> su_send (snd m) (fst reply) (snd reply) = Inl e"
    using assms unfolding answered_def by blast
  have "m # msgs = (m # handled) @ rest"
    "(case reply_to T m of Some x \<Rightarrow> x # replies | None \<Rightarrow> replies) = List.map_filter (reply_to T) (m # handled)"
    using r(1,2) by (simp, cases "reply_to T m") (simp_all add: List.map_filter_simps)
  with r(3) show ?thesis unfolding answered_def by blast
qed

lemma answered_failed:
  assumes "reply_to T m = Some reply" "su_send (snd m) (fst reply) (snd reply) = Inl e"
  shows "answered T (m # msgs) (Some e) []"
proof -
  have "m # msgs = [] @ m # msgs \<and> [] = List.map_filter (reply_to T) []" by (simp add: List.map_filter_simps)
  with assms show ?thesis unfolding answered_def option.case by blast
qed

lemma app_loop_answers:
  "app_loop p P T msgs app = Some (Ok (ended, replies, app')) \<Longrightarrow> answered T msgs ended replies"
proof (induction p P T msgs app arbitrary: ended replies app' rule: app_loop.induct)
  case (1 p P T app)
  then show ?case by (simp add: answered_Nil)
next
  case (2 p P T e su msgs app)
  then show ?case using answered_Cons [of T msgs ended replies "(AllocatePacketBuffer e, su)"] by (simp add: reply_to_def)
next
  case (3 p P T kind addr su msgs app)
  obtain r app1 where h: "handle_packet p P T su kind addr app = Some (Ok (r, app1))"
    using "3.prems" by (auto simp: return_ok split: outcome.splits)
  obtain m where "(Received kind addr, su) # msgs = m # msgs" by blast
  then have m: "m = (Received kind addr, su)" by simp
  show ?case
  proof (cases r)
    case (Inl e)
    then have "ended = Some e" "replies = []" using "3.prems" h by simp_all
    moreover obtain reply where "reply_to T m = Some reply" "su_send (snd m) (fst reply) (snd reply) = Inl e"
      using handle_packet_reply [OF h] Inl m by auto
    ultimately show ?thesis using answered_failed [of T m reply e msgs] m by simp
  next
    case (Inr reply)
    obtain replies' where l: "app_loop p P T msgs app1 = Some (Ok (ended, replies', app'))"
      "replies = (case reply of Some x \<Rightarrow> x # replies' | None \<Rightarrow> replies')"
      using "3.prems" h Inr by (auto simp: return_ok)
    have "answered T msgs ended replies'" using "3.IH" [OF h refl refl Inr l(1)] .
    then have a: "answered T (m # msgs) ended (case reply_to T m of Some x \<Rightarrow> x # replies' | None \<Rightarrow> replies')"
      by (rule answered_Cons)
    have "reply_to T m = reply" using handle_packet_reply [OF h] Inr m by simp
    with a l(2) have "answered T (m # msgs) ended replies" by metis
    then show ?thesis using m by simp
  qed
qed

text \<open>What the task of a stream takes, from the moment the stream is made.\<close>

lemma session_run_outs:
  assumes "app_reach p P app0" "deque_laws (ap_deque P) items" "ap_queue_bytes P \<noteq> 0"
    and "malloc_fresh malloc (app_mem app0)" "is_new_session sid app0"
    and "prepare_stream P malloc sid start_seq app0 = Some app" "app_stream app = Some s"
    and "session_run p P (stream_queue s) app acts outs app'"
    and "unat start_seq + pops acts + MAX_QUEUED_PACKETS < 2 ^ 64"
    and "\<forall>packet\<in>received acts. unat (ap_seq P packet) < unat start_seq + 2 ^ 32"
  shows "outs = map (\<lambda>k. first_arrival (ap_seq P) (unat start_seq) (unat start_seq + k) acts) [0..<pops acts]"
proof -
  have app: "app_inv P items app" "shared_deref (stream_queue s) (app_mem app) = Some (pq_new (ap_deque P) start_seq)"
    using prepare_stream_spec [OF app_reach_inv [OF assms(1-3)] assms(2,4,3), of sid start_seq] assms(5-7) by auto
  have new: "pq_abs items (pq_new (ap_deque P) start_seq) = \<lparr>next_seq = unat start_seq, held = (\<lambda>_. None)\<rparr>"
    using pq_abs_new [OF assms(2)] by auto
  have head: "pq_head_seq (pq_new (ap_deque P) start_seq) = start_seq" by (simp add: pq_new_def)
  have "outs = play_run (ap_seq P) acts \<lparr>next_seq = unat start_seq, held = (\<lambda>_. None)\<rparr>"
    using session_run_refines [OF assms(2,8) app(1) _ app(2), of "unat start_seq"] assms(7,9,10) new head by simp
  then show ?thesis by (intro nth_equalityI) (simp_all add: length_play_run play_run_first_arrival)
qed

subsection \<open>Properties\<close>

text \<open>Receiver, shared queue and stream task together play what arrived first: from the moment a stream
  is made for a session, however packets of it (or of older sessions), time packets, turns of its task
  and turns of older tasks follow one another, the \<open>k\<close>-th packet its task takes is the first one with
  number \<open>start + k\<close> that the receiver took in while that number was in the window, or nothing.\<close>

theorem session_plays_first_arrivals:
  assumes "app_reach p P app0" "deque_laws (ap_deque P) items" "ap_queue_bytes P \<noteq> 0"
    and "malloc_fresh malloc (app_mem app0)" "is_new_session sid app0"
    and "prepare_stream P malloc sid start_seq app0 = Some app" "app_stream app = Some s"
    and "session_run p P (stream_queue s) app acts outs app'"
    and "unat start_seq + pops acts + MAX_QUEUED_PACKETS < 2 ^ 64"
    and "\<forall>packet\<in>received acts. unat (ap_seq P packet) < unat start_seq + 2 ^ 32"
  shows "length outs = pops acts
    \<and> (\<forall>k<pops acts. outs ! k = first_arrival (ap_seq P) (unat start_seq) (unat start_seq + k) acts)"
  by (simp add: session_run_outs [OF assms])

lemma example_turn_pops_any:
  "\<exists>app'. stream_turn Dev example_params 0 (example_running\<lparr>app_stats := st\<rparr>) = Some (Ok (Some (Some (7, 3)), app'))"
proof -
  let ?shared = "\<lparr>pq_queue = [Some (7, 3)], pq_head_seq = 7\<rparr> :: (u64 \<times> nat) option list pq_shared"
  have pop: "pq_pop_front Dev list_deque ?shared = Ok (Some (7, 3), \<lparr>pq_queue = [], pq_head_seq = 8\<rparr>)"
    by (simp add: pq_pop_front_def add_word_def list_deque_def)
  show ?thesis
    by (simp add: stream_turn_def example_running_def example_params_def queue_disconnected_def shared_unique_def
        box_deref_def shared_deref_def pop shared_update_def box_deref_mut_def)
qed

lemma example_turn_pops:
  "\<exists>app' out. stream_turn Dev example_params 0 example_running = Some (Ok (Some out, app'))"
  using example_turn_pops_any [of "app_stats example_running"] by auto

lemma example_session_run:
  "\<exists>app s app' out. prepare_stream example_params (\<lambda>_. 4096) 3 7 (app_init stats_new) = Some app
    \<and> app_stream app = Some s \<and> stream_queue s = 4096
    \<and> session_run Dev example_params 4096 app [Receive (7, 3), PopFront] [out] app'"
proof -
  obtain app where app: "prepare_stream example_params (\<lambda>_. 4096) 3 7 (app_init stats_new) = Some app"
    "app_stream app = Some \<lparr>stream_sid = 3, stream_timing = timing_default list_history list_history,
        stream_queue = 4096, stream_start = ReceivingPackets 0\<rparr>"
    "handle_audio Dev example_params (\<lambda>_. 4096) True (7, 3) app = Some (Ok example_running)"
    using example_first_packet
    by (auto simp: handle_audio_def prepare_stream_def stream_new_def packet_queue_new_def shared_alloc_def
        box_alloc_def alloc_layout_def system_alloc_def example_params_def app_init_def stream_drop_def)
  obtain app' out where turn: "stream_turn Dev example_params 0 example_running = Some (Ok (Some out, app'))"
    using example_turn_pops by blast
  have tasks: "0 < length (app_tasks example_running)" "app_tasks example_running ! 0 = 4096"
    by (simp_all add: example_running_def)
  have sid: "\<not> is_new_session (ap_sid example_params (7, 3)) app"
    using app(2) by (simp add: is_new_session_def example_params_def)
  have run: "session_run Dev example_params 4096 app [Receive (7, 3), PopFront] [out] app'"
    by (rule sr_audio [OF sid app(3) sr_turn [OF tasks turn sr_done]])
  then show ?thesis using app(1,2) by auto
qed

lemma example_session_hyps:
  "malloc_fresh (\<lambda>_. 4096) (app_mem (app_init stats_new))" "is_new_session sid (app_init stats_new)"
  "unat (7 :: u64) + pops [Receive (7, 3), PopFront] + MAX_QUEUED_PACKETS < 2 ^ 64"
  "\<forall>packet\<in>received [Receive (7, 3), PopFront]. unat (ap_seq example_params packet) < unat (7 :: u64) + 2 ^ 32"
  by (simp_all add: malloc_fresh_def app_init_def is_new_session_def MAX_QUEUED_PACKETS_def received_def example_params_def)

theorem session_plays_first_arrivals_witness:
  "\<exists>app app' out. session_run Dev example_params 4096 app [Receive (7, 3), PopFront] [out] app' \<and> out = Some (7, 3)"
proof -
  obtain app s app' out where run: "prepare_stream example_params (\<lambda>_. 4096) 3 7 (app_init stats_new) = Some app"
    "app_stream app = Some s" "stream_queue s = 4096"
    "session_run Dev example_params 4096 app [Receive (7, 3), PopFront] [out] app'"
    using example_session_run by blast
  note plays = session_plays_first_arrivals [OF reach_init example_params_laws example_session_hyps(1,2) run(1,2) _
      example_session_hyps(3,4), unfolded run(3), OF run(4)]
  have "out = Some (7, 3)" using plays by (simp add: example_params_def MAX_QUEUED_PACKETS_def)
  then show ?thesis using run(4) by blast
qed

text \<open>C19: the application task answers every time broadcast it receives, with the time of its receipt and
  to its sender, in order, and nothing else; allocation errors, unknown packets and packets it cannot use
  do not end it. Only a socket that cannot be set up or a reply that cannot be sent does, and then every
  resource of the socket has been released.\<close>

theorem app_task_answers_broadcasts:
  assumes "app_task p P T env msgs app = Some (Ok (ended, trace, replies, app'))"
  shows "case ended of
      None \<Rightarrow> replies = List.map_filter (reply_to T) msgs
        \<and> held trace [] = Some [Pcb, Group, QueueMem, SharedMem, Callback, Registration]
    | Some (BindFailed e) \<Rightarrow> replies = [] \<and> held trace [] = Some []
    | Some (SocketFailed e) \<Rightarrow>
        (\<exists>handled m rest reply. msgs = handled @ m # rest \<and> replies = List.map_filter (reply_to T) handled
          \<and> reply_to T m = Some reply \<and> su_send (snd m) (fst reply) (snd reply) = Inl e)
        \<and> app_stream app' = None \<and> held trace [] = Some []"
proof (cases "protocol_bind env MULTICAST_GROUP MULTICAST_PORT")
  case (Pair r trace0)
  note bound = protocol_bind_held [of env MULTICAST_GROUP MULTICAST_PORT, unfolded Pair prod.case]
  show ?thesis
  proof (cases r)
    case (Inl e)
    then show ?thesis using assms bound by (auto simp: app_task_def Pair)
  next
    case (Inr u)
    obtain stopped sent app1 where l: "app_loop p P T msgs (app\<lparr>app_stream := None\<rparr>) = Some (Ok (stopped, sent, app1))"
      and rest: "(case stopped of None \<Rightarrow> Some (Ok (None, trace0, sent, app1))
        | Some e \<Rightarrow> map_option (\<lambda>m. Ok (Some (SocketFailed e), trace0 @ protocol_drop (channel_new ()), sent,
            app1\<lparr>app_mem := m, app_stream := None\<rparr>)) (stream_drop P (app_stream app1) (app_mem app1)))
        = Some (Ok (ended, trace, replies, app'))"
      using assms by (auto simp: app_task_def Pair Inr return_ok)
    note answers = app_loop_answers [OF l, unfolded answered_def]
    show ?thesis
    proof (cases stopped)
      case None
      then show ?thesis using answers rest bound Inr by auto
    next
      case (Some e)
      then obtain m where ended: "ended = Some (SocketFailed e)" "trace = trace0 @ protocol_drop (channel_new ())"
        "replies = sent" "app' = app1\<lparr>app_mem := m, app_stream := None\<rparr>"
        using rest by auto
      have "\<exists>handled msg rest' reply. msgs = handled @ msg # rest' \<and> replies = List.map_filter (reply_to T) handled
          \<and> reply_to T msg = Some reply \<and> su_send (snd msg) (fst reply) (snd reply) = Inl e"
        using answers unfolding Some option.case ended(3) by blast
      then show ?thesis using bound Inr unfolding ended by simp
    qed
  qed
qed

definition example_time :: "(nat, nat, int) time_params" where
  "example_time = \<lparr>tp_phase = (\<lambda>t. Some (if t < 10 then Broadcast else OtherPhase)), tp_sid = (\<lambda>t. t),
     tp_fields = (\<lambda>t. \<lparr>stream_1 = 0, stream_3 = 0, time_delta = 0\<rparr>), tp_set_receive_2 = (\<lambda>now t. unat now)\<rparr>"

definition example_env :: bind_env where
  "example_env = \<lparr>be_udp_new = True, be_alloc_group = None, be_queue_create = True, be_alloc_shared = None,
     be_alloc_callback = None, be_type_v4 = 0, be_udp_bind = (\<lambda>ip port. 0), be_udp_sendto = (\<lambda>buffer ip port. if port = 0 then -6 else 0),
     be_default_netif = 1, be_netif_impl = (\<lambda>netif. netif), be_igmp_join = (\<lambda>netif ip. 0)\<rparr>"

definition example_surroundings :: "64 word \<Rightarrow> (nat, nat) surroundings" where
  "example_surroundings micros = \<lparr>su_micros = micros, su_malloc = (\<lambda>_. 0), su_spawned = False,
     su_send = (\<lambda>t addr. protocol_send example_env (\<lambda>t. [of_nat t]) t (UNSPECIFIED, of_nat addr))\<rparr>"

definition example_messages ::
    "((char list, (u64 \<times> nat, nat) packet_kind, nat) socket_result \<times> (nat, nat) surroundings) list" where
  "example_messages =
     [(Received (Time 1) 80, example_surroundings 99), (AllocatePacketBuffer ''full'', example_surroundings 1),
      (Received (Time 2) 0, example_surroundings 100)]"

theorem app_task_answers_broadcasts_witness:
  "\<exists>trace. (\<exists>handled m rest reply. example_messages = handled @ m # rest
        \<and> [(99, 80)] = List.map_filter (reply_to example_time) handled
        \<and> reply_to example_time m = Some reply \<and> su_send (snd m) (fst reply) (snd reply) = Inl (Lwip (-6)))
    \<and> held trace [] = Some []"
proof -
  have l: "app_loop Dev example_params example_time example_messages (app_init stats_new) =
      Some (Ok (Some (Lwip (-6)), [(99, 80)], app_init stats_new))"
    by (simp add: example_messages_def handle_packet_def example_time_def example_surroundings_def timestamp_def Let_def
        protocol_send_def udp_send_to_def lwip_check_def example_env_def)
  have init: "(app_init stats_new)\<lparr>app_stream := None\<rparr> = app_init stats_new" "app_stream (app_init stats_new) = None"
    "(app_init stats_new)\<lparr>app_mem := app_mem (app_init stats_new), app_stream := None\<rparr> = app_init stats_new"
    by (simp_all add: app_init_def)
  obtain trace where b: "protocol_bind example_env MULTICAST_GROUP MULTICAST_PORT = (Inr (), trace)"
    by (simp add: protocol_bind_def example_env_def udp_new_def channel_open_def queue_handle_alloc_def on_receive_def udp_bind_def lwip_check_def
        join_multicast_group_def netif_def)
  have "app_task Dev example_params example_time example_env example_messages (app_init stats_new) =
      Some (Ok (Some (SocketFailed (Lwip (-6))), trace @ protocol_drop (channel_new ()), [(99, 80)],
        (app_init stats_new)\<lparr>app_mem := app_mem (app_init stats_new), app_stream := None\<rparr>))"
    unfolding app_task_def b prod.case sum.case init l by (simp add: stream_drop_def init)
  from app_task_answers_broadcasts [OF this, unfolded option.case app_error.case] show ?thesis by blast
qed

end
