(* ===== verification/ChannelWait.thy ===== *)
theory ChannelWait
  imports Channel
begin

text \<open>
  A receiver and a sender of one channel running at the same time (\<^verbatim>\<open>src/sync/queue.rs\<close>, with the loop of
  \<^verbatim>\<open>src/system/task/execute.rs\<close>): the calls of FreeRTOS and the accesses to the waker set are the steps, in any
  order of the two sides.
\<close>

subsection \<open>Steps\<close>

text \<open>
  The receiver polls, has found the queue empty and not registered yet, or has returned \<^verbatim>\<open>Pending\<close> and waits for
  a notification. The sender is between two calls of \<^verbatim>\<open>try_send\<close>, or has queued its item and not woken yet.
\<close>

datatype rx_pc = RxPolling | RxMissed | RxParked
datatype tx_pc = TxIdle | TxQueued

text \<open>With what was accepted and received so far, and whether the receiver's task has a notification.\<close>

record ('h, 'a) chan_wait =
  cw_channel :: "'h channel"
  cw_rx :: rx_pc
  cw_tx :: tx_pc
  cw_notified :: bool
  cw_sent :: "'a list"
  cw_received :: "'a list"

definition chan_wait_init :: "'h \<Rightarrow> ('h, 'a) chan_wait" where
  "chan_wait_init handle = \<lparr>cw_channel = channel_new handle, cw_rx = RxPolling, cw_tx = TxIdle, cw_notified = False,
     cw_sent = [], cw_received = []\<rparr>"

text \<open>The receiver's task is \<open>task\<close>, registered in slot \<open>n\<close>.\<close>

inductive chan_wait_step ::
    "profile \<Rightarrow> task_ptr \<Rightarrow> nat \<Rightarrow> slots \<Rightarrow> ('h, 'a) rtos_ops \<Rightarrow> ('h, 'a) chan_wait \<Rightarrow> ('h, 'a) chan_wait \<Rightarrow> bool"
  for p task n slots Q where
  cw_take: "cw_rx s = RxPolling \<Longrightarrow> rq_receive Q (ch_handle (cw_channel s)) = (Some x, h) \<Longrightarrow>
    wake_all p slots (ch_notify_tx (cw_channel s)) = Ok (tasks, tx) \<Longrightarrow>
    chan_wait_step p task n slots Q s
      (s\<lparr>cw_channel := (cw_channel s)\<lparr>ch_handle := h, ch_notify_tx := tx\<rparr>, cw_received := cw_received s @ [x]\<rparr>)"
| cw_miss: "cw_rx s = RxPolling \<Longrightarrow> rq_receive Q (ch_handle (cw_channel s)) = (None, h) \<Longrightarrow>
    chan_wait_step p task n slots Q s (s\<lparr>cw_channel := (cw_channel s)\<lparr>ch_handle := h\<rparr>, cw_rx := RxMissed\<rparr>)"
| cw_register: "cw_rx s = RxMissed \<Longrightarrow>
    add_task p (raw_waker_new (nth_id n)) task slots (ch_notify_rx (cw_channel s)) = Ok rx \<Longrightarrow>
    chan_wait_step p task n slots Q s (s\<lparr>cw_channel := (cw_channel s)\<lparr>ch_notify_rx := rx\<rparr>, cw_rx := RxParked\<rparr>)"
| cw_resume: "cw_rx s = RxParked \<Longrightarrow> cw_notified s \<Longrightarrow>
    chan_wait_step p task n slots Q s (s\<lparr>cw_notified := False, cw_rx := RxPolling\<rparr>)"
| cw_queue: "cw_tx s = TxIdle \<Longrightarrow> rq_send Q x (ch_handle (cw_channel s)) = (True, h) \<Longrightarrow>
    chan_wait_step p task n slots Q s
      (s\<lparr>cw_channel := (cw_channel s)\<lparr>ch_handle := h\<rparr>, cw_tx := TxQueued, cw_sent := cw_sent s @ [x]\<rparr>)"
| cw_full: "cw_tx s = TxIdle \<Longrightarrow> rq_send Q x (ch_handle (cw_channel s)) = (False, h) \<Longrightarrow>
    chan_wait_step p task n slots Q s (s\<lparr>cw_channel := (cw_channel s)\<lparr>ch_handle := h\<rparr>\<rparr>)"
| cw_wake: "cw_tx s = TxQueued \<Longrightarrow> wake_all p slots (ch_notify_rx (cw_channel s)) = Ok (tasks, rx) \<Longrightarrow>
    chan_wait_step p task n slots Q s
      (s\<lparr>cw_channel := (cw_channel s)\<lparr>ch_notify_rx := rx\<rparr>, cw_tx := TxIdle,
         cw_notified := (cw_notified s \<or> task \<in> set tasks)\<rparr>)"

inductive chan_wait_steps ::
    "profile \<Rightarrow> task_ptr \<Rightarrow> nat \<Rightarrow> slots \<Rightarrow> ('h, 'a) rtos_ops \<Rightarrow> ('h, 'a) chan_wait \<Rightarrow> ('h, 'a) chan_wait \<Rightarrow> bool"
  for p task n slots Q where
  cws_refl: "chan_wait_steps p task n slots Q s s"
| cws_step: "chan_wait_steps p task n slots Q s s' \<Longrightarrow> chan_wait_step p task n slots Q s' s'' \<Longrightarrow>
    chan_wait_steps p task n slots Q s s''"

inductive_cases chan_wait_stepE: "chan_wait_step p task n slots Q s s'"

subsection \<open>What holds of every run\<close>

text \<open>Nothing is lost or reordered, and a receiver that waits is registered or notified.\<close>

definition chan_wait_inv :: "('h \<Rightarrow> 'a list) \<Rightarrow> 'a list \<Rightarrow> nat \<Rightarrow> ('h, 'a) chan_wait \<Rightarrow> bool" where
  "chan_wait_inv items start n s \<longleftrightarrow>
     start @ cw_sent s = cw_received s @ items (ch_handle (cw_channel s))
     \<and> (cw_rx s = RxParked \<longrightarrow> cw_notified s \<or> n \<in> waker_ids (ch_notify_rx (cw_channel s)))"

lemma chan_wait_step_inv:
  assumes laws: "rtos_laws Q items cap" and slots: "length slots = 32" "n < 32" "slots ! n = Some task"
    and "chan_wait_step p task n slots Q s s'" "chan_wait_inv items start n s"
  shows "chan_wait_inv items start n s'"
  using assms(5,6)
proof (induction rule: chan_wait_step.induct)
  case (cw_take s x h tasks tx)
  then obtain xs where "items (ch_handle (cw_channel s)) = x # xs" "items h = xs"
    using rtos_receive [OF laws] by (cases "items (ch_handle (cw_channel s))") fastforce+
  then show ?case using cw_take by (simp add: chan_wait_inv_def)
next
  case (cw_miss s h)
  then have "items (ch_handle (cw_channel s)) = [] \<and> items h = []"
    using rtos_receive [OF laws] by (cases "items (ch_handle (cw_channel s))") fastforce+
  then show ?case using cw_miss by (simp add: chan_wait_inv_def)
next
  case (cw_register s rx)
  then have "rx = bits_add n (ch_notify_rx (cw_channel s))" using add_task_own [OF slots(2)] by simp
  then have "n \<in> waker_ids rx" using ws.ids_add [OF slots(2)] by simp
  then show ?case using cw_register by (simp add: chan_wait_inv_def)
next
  case (cw_resume s)
  then show ?case by (simp add: chan_wait_inv_def)
next
  case (cw_queue s x h)
  then have "items h = items (ch_handle (cw_channel s)) @ [x]"
    using rtos_send [OF laws, of "ch_handle (cw_channel s)" x] by fastforce
  then show ?case using cw_queue by (simp add: chan_wait_inv_def)
next
  case (cw_full s x h)
  then have "items h = items (ch_handle (cw_channel s))"
    using rtos_send [OF laws, of "ch_handle (cw_channel s)" x] by fastforce
  then show ?case using cw_full by (simp add: chan_wait_inv_def)
next
  case (cw_wake s tasks rx)
  obtain tasks' where "wake_all p slots (ch_notify_rx (cw_channel s)) = Ok (tasks', 0)"
    "set tasks' = {t. \<exists>i\<in>waker_ids (ch_notify_rx (cw_channel s)). slots ! i = Some t}"
    using wake_all_returns [OF slots(1)] by blast
  then have "n \<in> waker_ids (ch_notify_rx (cw_channel s)) \<Longrightarrow> task \<in> set tasks"
    using cw_wake.hyps(2) slots(3) by auto
  then show ?case using cw_wake by (auto simp: chan_wait_inv_def)
qed

lemma chan_wait_steps_inv:
  assumes "rtos_laws Q items cap" "length slots = 32" "n < 32" "slots ! n = Some task"
    and "chan_wait_steps p task n slots Q s s'" "chan_wait_inv items start n s"
  shows "chan_wait_inv items start n s'"
  using assms(5,6) by (induction rule: chan_wait_steps.induct) (auto intro: chan_wait_step_inv [OF assms(1-4)])

lemma chan_wait_inv_init: "chan_wait_inv items (items handle) n (chan_wait_init handle)"
  by (simp add: chan_wait_inv_def chan_wait_init_def channel_new_def)

subsection \<open>Senders in the gap\<close>

text \<open>Sends that complete after the receiver has missed and before it has registered wake nobody.\<close>

lemma sends_in_gap:
  assumes laws: "rtos_laws Q items cap" and slots: "length slots = 32"
    and "cw_rx s = RxMissed" "cw_tx s = TxIdle" "\<not> cw_notified s" "ch_notify_rx (cw_channel s) = 0"
    and "length (items (ch_handle (cw_channel s))) + length xs \<le> cap"
  shows "\<exists>s'. chan_wait_steps p task n slots Q s s' \<and> cw_rx s' = RxMissed \<and> cw_tx s' = TxIdle \<and> \<not> cw_notified s'
    \<and> ch_notify_rx (cw_channel s') = 0 \<and> cw_received s' = cw_received s
    \<and> items (ch_handle (cw_channel s')) = items (ch_handle (cw_channel s)) @ xs"
  using assms(7)
proof (induction xs rule: rev_induct)
  case Nil
  then show ?case using assms(3-6) cws_refl by fastforce
next
  case (snoc x xs)
  then obtain s1 where s1: "chan_wait_steps p task n slots Q s s1" "cw_rx s1 = RxMissed" "cw_tx s1 = TxIdle"
    "\<not> cw_notified s1" "ch_notify_rx (cw_channel s1) = 0" "cw_received s1 = cw_received s"
    "items (ch_handle (cw_channel s1)) = items (ch_handle (cw_channel s)) @ xs" by auto
  then have "length (items (ch_handle (cw_channel s1))) < cap" using snoc.prems by simp
  from rtos_send(1) [OF laws this] obtain h where
    h: "rq_send Q x (ch_handle (cw_channel s1)) = (True, h)" "items h = items (ch_handle (cw_channel s1)) @ [x]" by blast
  let ?s2 = "s1\<lparr>cw_channel := (cw_channel s1)\<lparr>ch_handle := h\<rparr>, cw_tx := TxQueued, cw_sent := cw_sent s1 @ [x]\<rparr>"
  obtain tasks where w: "wake_all p slots 0 = Ok (tasks, 0)" "set tasks = {t. \<exists>i\<in>waker_ids 0. slots ! i = Some t}"
    using wake_all_returns [OF slots] by blast
  have none: "task \<notin> set tasks" using w(2) by (simp add: ws.ids_none)
  let ?s3 = "?s2\<lparr>cw_channel := (cw_channel ?s2)\<lparr>ch_notify_rx := 0\<rparr>, cw_tx := TxIdle,
    cw_notified := (cw_notified ?s2 \<or> task \<in> set tasks)\<rparr>"
  have "chan_wait_steps p task n slots Q s ?s2" using s1(1) chan_wait_step.cw_queue [OF s1(3) h(1)] by (rule cws_step)
  moreover have "chan_wait_step p task n slots Q ?s2 ?s3" by (rule chan_wait_step.cw_wake) (simp_all add: s1(5) w(1))
  ultimately have "chan_wait_steps p task n slots Q s ?s3" by (rule cws_step)
  then show ?case using s1 h(2) none by (intro exI [of _ ?s3]) simp
qed

text \<open>A receiver that waits, with no notification, on a full queue: nothing can happen any more.\<close>

definition chan_stuck :: "('h \<Rightarrow> 'a list) \<Rightarrow> nat \<Rightarrow> ('h, 'a) chan_wait \<Rightarrow> bool" where
  "chan_stuck items cap s \<longleftrightarrow> cw_rx s = RxParked \<and> cw_tx s = TxIdle \<and> \<not> cw_notified s
     \<and> cap \<le> length (items (ch_handle (cw_channel s)))"

lemma chan_stuck_step:
  assumes "rtos_laws Q items cap" "chan_wait_step p task n slots Q s s'" "chan_stuck items cap s"
  shows "chan_stuck items cap s' \<and> cw_received s' = cw_received s
    \<and> items (ch_handle (cw_channel s')) = items (ch_handle (cw_channel s))"
proof -
  have full: "\<not> length (items (ch_handle (cw_channel s))) < cap" using assms(3) by (simp add: chan_stuck_def)
  have send: "\<not> b \<and> items h = items (ch_handle (cw_channel s))"
    if "rq_send Q x (ch_handle (cw_channel s)) = (b, h)" for x b h
    using rtos_send(2) [OF assms(1) full, of x] that by auto
  from assms(2,3) show ?thesis
    by (elim chan_wait_stepE) (auto simp: chan_stuck_def dest: send)
qed

lemma chan_stuck_steps:
  assumes "rtos_laws Q items cap"
  shows "chan_wait_steps p task n slots Q s s' \<Longrightarrow> chan_stuck items cap s \<Longrightarrow>
    chan_stuck items cap s' \<and> cw_received s' = cw_received s \<and> items (ch_handle (cw_channel s')) = items (ch_handle (cw_channel s))"
proof (induction rule: chan_wait_steps.induct)
  case (cws_step s s' s'')
  then show ?case using chan_stuck_step [OF assms cws_step.hyps(2)] by auto
qed simp

lemma steps_trans:
  "chan_wait_steps p task n slots Q s' s'' \<Longrightarrow> chan_wait_steps p task n slots Q s s' \<Longrightarrow> chan_wait_steps p task n slots Q s s''"
  by (induction rule: chan_wait_steps.induct) (auto intro: cws_step)

subsection \<open>Properties\<close>

text \<open>C23: however a receiver and a sender interleave, what was accepted is what was received followed by what is
  queued, in order; and a receiver that waits has been notified or is registered, so that the next send
  that completes wakes it.\<close>

theorem channel_waiter_is_woken_by_next_send:
  assumes "rtos_laws Q items cap" "length slots = 32" "n < 32" "slots ! n = Some task"
    and "chan_wait_steps p task n slots Q (chan_wait_init handle) s"
  shows "items handle @ cw_sent s = cw_received s @ items (ch_handle (cw_channel s))
    \<and> (cw_rx s = RxParked \<longrightarrow> cw_notified s
        \<or> (\<exists>tasks. wake_all p slots (ch_notify_rx (cw_channel s)) = Ok (tasks, 0) \<and> task \<in> set tasks))"
proof -
  have inv: "chan_wait_inv items (items handle) n s"
    using chan_wait_steps_inv [OF assms chan_wait_inv_init] .
  moreover obtain tasks where "wake_all p slots (ch_notify_rx (cw_channel s)) = Ok (tasks, 0)"
    "set tasks = {t. \<exists>i\<in>waker_ids (ch_notify_rx (cw_channel s)). slots ! i = Some t}"
    using wake_all_returns [OF assms(2)] by blast
  ultimately show ?thesis using assms(4) by (auto simp: chan_wait_inv_def)
qed

text \<open>A receiver that found the queue empty and went to sleep.\<close>

lemma example_parked:
  "\<exists>s :: (nat list, nat) chan_wait. chan_wait_steps Dev 300 3 ((replicate 32 None)[3 := Some 300]) (list_rtos 2) (chan_wait_init []) s
    \<and> cw_rx s = RxParked \<and> \<not> cw_notified s"
proof -
  let ?slots = "(replicate 32 None)[3 := Some 300]" and ?s0 = "chan_wait_init [] :: (nat list, nat) chan_wait"
  have h: "rq_receive (list_rtos 2) (ch_handle (cw_channel ?s0)) = (None, [])"
    by (simp add: list_rtos_def chan_wait_init_def channel_new_def)
  note r1 = cws_step [OF cws_refl cw_miss [OF _ h, of Dev 300 3 ?slots]]
  show ?thesis
    by (intro exI conjI, rule cws_step [OF r1 cw_register [OF _ add_task_own]]) (simp_all add: chan_wait_init_def)
qed

theorem channel_waiter_is_woken_by_next_send_witness:
  "\<exists>(s :: (nat list, nat) chan_wait) tasks. cw_rx s = RxParked
    \<and> wake_all Dev ((replicate 32 None)[3 := Some 300]) (ch_notify_rx (cw_channel s)) = Ok (tasks, 0) \<and> 300 \<in> set tasks"
proof -
  obtain s :: "(nat list, nat) chan_wait" where
    s: "chan_wait_steps Dev 300 3 ((replicate 32 None)[3 := Some 300]) (list_rtos 2) (chan_wait_init []) s"
      "cw_rx s = RxParked" "\<not> cw_notified s"
    using example_parked by blast
  have "length ((replicate 32 None)[3 := Some (300 :: nat)]) = 32" "((replicate 32 None)[3 := Some 300]) ! 3 = Some (300 :: nat)"
    by simp_all
  from channel_waiter_is_woken_by_next_send [OF list_rtos_laws this(1) _ this(2) s(1)] s(2,3) show ?thesis by auto
qed

text \<open>C24: but a channel can stop for good: if senders fill the queue after the receiver has found it empty and
  before it has registered, nobody is woken, every later send fails before it would wake anyone, and the
  receiver waits on a full queue whatever the two sides do.\<close>

theorem channel_can_stop:
  fixes xs :: "'a list" and Q :: "('h, 'a) rtos_ops"
  assumes "rtos_laws Q items (length xs)" "length slots = 32" "n < 32" "items handle = []"
  shows "\<exists>s. chan_wait_steps p task n slots Q (chan_wait_init handle) s
    \<and> (\<forall>s'. chan_wait_steps p task n slots Q s s' \<longrightarrow>
         cw_rx s' = RxParked \<and> cw_received s' = [] \<and> items (ch_handle (cw_channel s')) = xs)"
proof -
  let ?s0 = "chan_wait_init handle :: ('h, 'a) chan_wait"
  obtain h where h: "rq_receive Q handle = (None, h)" "items h = []"
    using rtos_receive(1) [OF assms(1,4)] by blast
  let ?s1 = "?s0\<lparr>cw_channel := (cw_channel ?s0)\<lparr>ch_handle := h\<rparr>, cw_rx := RxMissed\<rparr>"
  have "chan_wait_step p task n slots Q ?s0 ?s1"
    by (rule cw_miss) (simp_all add: chan_wait_init_def channel_new_def h(1))
  then have r1: "chan_wait_steps p task n slots Q ?s0 ?s1" by (rule cws_step [OF cws_refl])
  have "\<exists>s'. chan_wait_steps p task n slots Q ?s1 s' \<and> cw_rx s' = RxMissed \<and> cw_tx s' = TxIdle \<and> \<not> cw_notified s'
    \<and> ch_notify_rx (cw_channel s') = 0 \<and> cw_received s' = cw_received ?s1
    \<and> items (ch_handle (cw_channel s')) = items (ch_handle (cw_channel ?s1)) @ xs"
    by (rule sends_in_gap [OF assms(1,2)])
      (simp_all add: chan_wait_init_def channel_new_def waker_set_new_def h(2))
  then obtain s2 where s2: "chan_wait_steps p task n slots Q ?s1 s2" "cw_rx s2 = RxMissed" "cw_tx s2 = TxIdle"
    "\<not> cw_notified s2" "cw_received s2 = []" "items (ch_handle (cw_channel s2)) = xs"
    by (auto simp: h(2) chan_wait_init_def)
  let ?s3 = "s2\<lparr>cw_channel := (cw_channel s2)\<lparr>ch_notify_rx := bits_add n (ch_notify_rx (cw_channel s2))\<rparr>, cw_rx := RxParked\<rparr>"
  have "chan_wait_step p task n slots Q s2 ?s3" by (rule cw_register [OF s2(2) add_task_own [OF assms(3)]])
  with steps_trans [OF s2(1) r1] have r3: "chan_wait_steps p task n slots Q ?s0 ?s3" by (rule cws_step)
  have "chan_stuck items (length xs) ?s3" using s2 by (simp add: chan_stuck_def)
  then have "cw_rx s' = RxParked \<and> cw_received s' = [] \<and> items (ch_handle (cw_channel s')) = xs"
    if "chan_wait_steps p task n slots Q ?s3 s'" for s'
    using chan_stuck_steps [OF assms(1) that] s2(5,6) by (simp add: chan_stuck_def)
  with r3 show ?thesis by blast
qed

theorem channel_can_stop_witness:
  "\<exists>s :: (nat list, nat) chan_wait. chan_wait_steps Dev 300 3 (replicate 32 None) (list_rtos 2) (chan_wait_init []) s
    \<and> cw_rx s = RxParked \<and> cw_received s = [] \<and> ch_handle (cw_channel s) = [5, 6]"
proof -
  have laws: "rtos_laws (list_rtos 2) (\<lambda>h. h) (length [5, 6 :: nat])"
    using list_rtos_laws [of 2] by (simp add: numeral_2_eq_2)
  have slots: "length (replicate 32 (None :: nat option)) = 32" by simp
  obtain s :: "(nat list, nat) chan_wait" where
    s: "chan_wait_steps Dev 300 3 (replicate 32 None) (list_rtos 2) (chan_wait_init []) s"
      "\<forall>s'. chan_wait_steps Dev 300 3 (replicate 32 None) (list_rtos 2) s s' \<longrightarrow>
         cw_rx s' = RxParked \<and> cw_received s' = [] \<and> ch_handle (cw_channel s') = [5, 6]"
    using channel_can_stop [OF laws slots, of 3 "[]" Dev 300] by auto
  then show ?thesis using cws_refl by blast
qed

end
