(* ===== verification/Firmware.thy ===== *)
theory Firmware
  imports AppTask ChannelWait
begin

text \<open>
  The threads of the firmware around the state they share: lwIP's network thread, which enters the receive
  callback with each datagram, the application task, which waits for datagrams and handles a packet at a time,
  the stream tasks, and the task that prints and resets the counters. As in the theory \<open>ChannelWait\<close>, a step of
  the receiver or of the callback is one call of FreeRTOS on the queue or one access to its waker set, so that
  datagrams come between a poll that finds the queue empty and the registration of its task. When the
  application task has ended, the platform task starts another at the next reconnection. The counters are one
  static for all.

  A step that is to handle a packet or to run a turn of a stream task is the whole operation, from the moment it
  has the lock of the packet queue (\<open>LockedQueue\<close>): while it waits for the lock its step is not taken. The model
  has one application task at a time; one that is started while another runs binds a second socket to the same
  port. A panic restarts the device: it has no step.
\<close>

subsection \<open>State\<close>

record ('k, 'e, 'u, 'b, 'p, 'm, 'addr) net_params =
  np_rtos :: "('k, 'e + 'b \<times> 'addr) rtos_ops"
  np_pbuf :: "('e, 'u, 'b) pbuf_ops"
  np_from_buffer :: "'b \<Rightarrow> 'p option"
  np_parse :: "'p \<Rightarrow> 'm option"

text \<open>
  Where the application task is: polling its queue, between an empty poll and the registration, waiting for a
  notification, dropping its socket after an error, or ended.
\<close>

datatype fw_pc = FwPolling | FwMissed | FwParked | FwClosing net_error | FwEnded net_error

text \<open>The callback is between two datagrams, or has queued one and not woken the receiver yet (\<^typ>\<open>tx_pc\<close>).\<close>

record ('k, 'sid, 'tm, 'q) firmware =
  fw_channel :: "'k channel"
  fw_app :: "('sid, 'tm, 'q) app"
  fw_rx :: fw_pc
  fw_tx :: tx_pc
  fw_notified :: bool
  fw_id :: nat
  fw_task :: task_ptr

definition fw_init :: "nat \<Rightarrow> task_ptr \<Rightarrow> 'k \<Rightarrow> ('k, 'sid, 'tm, 'q) firmware" where
  "fw_init n task h = \<lparr>fw_channel = channel_new h, fw_app = app_init stats_new, fw_rx = FwPolling, fw_tx = TxIdle,
     fw_notified = False, fw_id = n, fw_task = task\<rparr>"

type_synonym ('e, 'a, 't, 'addr) fw_msg = "('e, ('a, 't) packet_kind, 'addr) socket_result \<times> ('t, 'addr) surroundings"

text \<open>What a step shows: the datagram, the message handled and the reply sent, the queue and what it gave.\<close>

datatype ('e, 'a, 't, 'b, 'addr) fw_label =
    FwDatagram 'b 'addr
  | FwIdle
  | FwHandled "('e, 'a, 't, 'addr) fw_msg" "('t \<times> 'addr) option"
  | FwEnd "('e, 'a, 't, 'addr) fw_msg" net_error
  | FwStart
  | FwTurn nat "'a option option"
  | FwFail nat
  | FwReport "u32 list"

subsection \<open>Steps\<close>

text \<open>The callback is called until the socket has been dropped.\<close>

definition socket_open :: "('k, 'sid, 'tm, 'q) firmware \<Rightarrow> bool" where
  "socket_open s \<longleftrightarrow> (case fw_rx s of FwEnded e \<Rightarrow> False | _ \<Rightarrow> True)"

definition datagram_result :: "'addr \<Rightarrow> 'e + 'b \<Rightarrow> 'e + 'b \<times> 'addr" where
  "datagram_result addr aligned = (case aligned of Inl e \<Rightarrow> Inl e | Inr b \<Rightarrow> Inr (b, addr))"

text \<open>
  The part of a poll before the registration, with one round of the receive loop: nothing queued, a message to
  be skipped, or a result.
\<close>

definition fw_receive ::
    "profile \<Rightarrow> ('k, 'e, 'u, 'b, 'p, 'm, 'addr) net_params \<Rightarrow> slots \<Rightarrow> 'k channel \<Rightarrow>
     (('e, 'm, 'addr) socket_result option option \<times> 'k channel) outcome" where
  "fw_receive p N slots ch =
     bind_outcome (try_receive p slots (np_rtos N) ch) (\<lambda>(item, _, ch').
       Ok (map_option (classify (np_from_buffer N) (np_parse N)) item, ch'))"

definition fw_queued :: "'k \<Rightarrow> stats \<Rightarrow> ('k, 'sid, 'tm, 'q) firmware \<Rightarrow> ('k, 'sid, 'tm, 'q) firmware" where
  "fw_queued h st s = s\<lparr>fw_channel := (fw_channel s)\<lparr>ch_handle := h\<rparr>, fw_app := (fw_app s)\<lparr>app_stats := st\<rparr>\<rparr>"

inductive fw_step ::
    "profile \<Rightarrow> ('k, 'e, 'u, 'b, 'p, ('a, 't) packet_kind, 'addr) net_params \<Rightarrow>
     ('a, 'sid::linorder, 'q, 'h, 'g, 'd) app_params \<Rightarrow> ('t, 'sid, 'd) time_params \<Rightarrow>
     ('e, 'a, 't, 'b, 'addr) fw_label \<Rightarrow>
     ('k, 'sid, ('h, 'g) timing, 'q) firmware \<Rightarrow> ('k, 'sid, ('h, 'g) timing, 'q) firmware \<Rightarrow> bool"
  for p N P T where
  fw_datagram: "socket_open s \<Longrightarrow> fw_tx s = TxIdle \<Longrightarrow> length (pb_bytes (np_pbuf N) b) \<le> 65535 \<Longrightarrow>
    align_packet_buffer (np_pbuf N) b = Ok aligned \<Longrightarrow>
    rq_send (np_rtos N) (datagram_result addr aligned) (ch_handle (fw_channel s)) = (True, h) \<Longrightarrow>
    st = app_stats (fw_app s) \<Longrightarrow>
    fw_step p N P T (FwDatagram b addr) s (fw_queued h
      (st\<lparr>wifi_packets_received := counter_increment (wifi_packets_received st)\<rparr>) s\<lparr>fw_tx := TxQueued\<rparr>)"
| fw_dropped: "socket_open s \<Longrightarrow> fw_tx s = TxIdle \<Longrightarrow> length (pb_bytes (np_pbuf N) b) \<le> 65535 \<Longrightarrow>
    align_packet_buffer (np_pbuf N) b = Ok aligned \<Longrightarrow>
    rq_send (np_rtos N) (datagram_result addr aligned) (ch_handle (fw_channel s)) = (False, h) \<Longrightarrow>
    st = app_stats (fw_app s) \<Longrightarrow>
    fw_step p N P T (FwDatagram b addr) s (fw_queued h
      (st\<lparr>wifi_packets_received := counter_increment (wifi_packets_received st),
          packets_dropped_in_protocol_queue := counter_increment (packets_dropped_in_protocol_queue st)\<rparr>) s)"
| fw_wake: "fw_tx s = TxQueued \<Longrightarrow> length slots = MAX_TASKS \<Longrightarrow>
    wake_all p slots (ch_notify_rx (fw_channel s)) = Ok (tasks, rx) \<Longrightarrow>
    fw_step p N P T FwIdle s (s\<lparr>fw_channel := (fw_channel s)\<lparr>ch_notify_rx := rx\<rparr>, fw_tx := TxIdle,
      fw_notified := (fw_notified s \<or> fw_task s \<in> set tasks)\<rparr>)"
| fw_notify: "fw_step p N P T FwIdle s (s\<lparr>fw_notified := True\<rparr>)"
| fw_miss: "fw_rx s = FwPolling \<Longrightarrow> length slots = MAX_TASKS \<Longrightarrow>
    fw_receive p N slots (fw_channel s) = Ok (None, ch') \<Longrightarrow>
    fw_step p N P T FwIdle s (s\<lparr>fw_channel := ch', fw_rx := FwMissed\<rparr>)"
| fw_register: "fw_rx s = FwMissed \<Longrightarrow> length slots = MAX_TASKS \<Longrightarrow>
    add_task p (raw_waker_new (nth_id (fw_id s))) (fw_task s) slots (ch_notify_rx (fw_channel s)) = Ok rx \<Longrightarrow>
    fw_step p N P T FwIdle s (s\<lparr>fw_channel := (fw_channel s)\<lparr>ch_notify_rx := rx\<rparr>, fw_rx := FwParked\<rparr>)"
| fw_resume: "fw_rx s = FwParked \<Longrightarrow> fw_notified s \<Longrightarrow>
    fw_step p N P T FwIdle s (s\<lparr>fw_notified := False, fw_rx := FwPolling\<rparr>)"
| fw_skip: "fw_rx s = FwPolling \<Longrightarrow> length slots = MAX_TASKS \<Longrightarrow>
    fw_receive p N slots (fw_channel s) = Ok (Some None, ch') \<Longrightarrow>
    fw_step p N P T FwIdle s (s\<lparr>fw_channel := ch'\<rparr>)"
| fw_alloc_error: "fw_rx s = FwPolling \<Longrightarrow> length slots = MAX_TASKS \<Longrightarrow>
    fw_receive p N slots (fw_channel s) = Ok (Some (Some (AllocatePacketBuffer e)), ch') \<Longrightarrow>
    fw_step p N P T (FwHandled (AllocatePacketBuffer e, su) None) s (s\<lparr>fw_channel := ch'\<rparr>)"
| fw_packet: "fw_rx s = FwPolling \<Longrightarrow> length slots = MAX_TASKS \<Longrightarrow>
    fw_receive p N slots (fw_channel s) = Ok (Some (Some (Received kind addr)), ch') \<Longrightarrow>
    malloc_fresh (su_malloc su) (app_mem (fw_app s)) \<Longrightarrow>
    handle_packet p P T su kind addr (fw_app s) = Some (Ok (Inr reply, app')) \<Longrightarrow>
    fw_step p N P T (FwHandled (Received kind addr, su) reply) s (s\<lparr>fw_channel := ch', fw_app := app'\<rparr>)"
| fw_end: "fw_rx s = FwPolling \<Longrightarrow> length slots = MAX_TASKS \<Longrightarrow>
    fw_receive p N slots (fw_channel s) = Ok (Some (Some (Received kind addr)), ch') \<Longrightarrow>
    malloc_fresh (su_malloc su) (app_mem (fw_app s)) \<Longrightarrow>
    handle_packet p P T su kind addr (fw_app s) = Some (Ok (Inl e, app')) \<Longrightarrow>
    stream_drop P (app_stream app') (app_mem app') = Some m \<Longrightarrow>
    fw_step p N P T (FwEnd (Received kind addr, su) e) s
      (s\<lparr>fw_channel := ch', fw_app := app'\<lparr>app_mem := m, app_stream := None\<rparr>, fw_rx := FwClosing e\<rparr>)"
| fw_close: "fw_rx s = FwClosing e \<Longrightarrow> fw_tx s = TxIdle \<Longrightarrow>
    fw_step p N P T FwIdle s (s\<lparr>fw_rx := FwEnded e\<rparr>)"
| fw_start: "fw_rx s = FwEnded e \<Longrightarrow> n < MAX_TASKS \<Longrightarrow> fst (rq_receive (np_rtos N) h) = None \<Longrightarrow>
    fw_step p N P T FwStart s
      (s\<lparr>fw_channel := channel_new h, fw_rx := FwPolling, fw_notified := False, fw_id := n, fw_task := task\<rparr>)"
| fw_turn: "i < length (app_tasks (fw_app s)) \<Longrightarrow> stream_turn p P i (fw_app s) = Some (Ok (out, app')) \<Longrightarrow>
    fw_step p N P T (FwTurn (app_tasks (fw_app s) ! i) out) s (s\<lparr>fw_app := app'\<rparr>)"
| fw_fail: "i < length (app_tasks (fw_app s)) \<Longrightarrow> stream_task_fails P i (fw_app s) = Some app' \<Longrightarrow>
    fw_step p N P T (FwFail (app_tasks (fw_app s) ! i)) s (s\<lparr>fw_app := app'\<rparr>)"
| fw_report: "stats_report (app_stats (fw_app s)) = (vals, st') \<Longrightarrow>
    fw_step p N P T (FwReport vals) s (s\<lparr>fw_app := (fw_app s)\<lparr>app_stats := st'\<rparr>\<rparr>)"

text \<open>
  The socket is dropped in \<open>fw_close\<close>, which waits for a running callback (\<open>UdpCallback\<close>); what is still queued
  is dropped with it. The receiver of a task that has ended was dropped with its stream (\<open>fw_end\<close>), so a new task
  finds none; a start whose socket cannot be set up (\<open>Protocol\<close>) leaves the state as it is. Notifications may also
  come from other wakers of the task (\<open>fw_notify\<close>).
\<close>

inductive fw_run ::
    "profile \<Rightarrow> ('k, 'e, 'u, 'b, 'p, ('a, 't) packet_kind, 'addr) net_params \<Rightarrow>
     ('a, 'sid::linorder, 'q, 'h, 'g, 'd) app_params \<Rightarrow> ('t, 'sid, 'd) time_params \<Rightarrow>
     ('e, 'a, 't, 'b, 'addr) fw_label list \<Rightarrow>
     ('k, 'sid, ('h, 'g) timing, 'q) firmware \<Rightarrow> ('k, 'sid, ('h, 'g) timing, 'q) firmware \<Rightarrow> bool"
  for p N P T where
  fw_done: "fw_run p N P T [] s s"
| fw_then: "fw_run p N P T log s s1 \<Longrightarrow> fw_step p N P T l s1 s' \<Longrightarrow> fw_run p N P T (log @ [l]) s s'"

lemma fw_run_append:
  "fw_run p N P T log' s1 s2 \<Longrightarrow> fw_run p N P T log s s1 \<Longrightarrow> fw_run p N P T (log @ log') s s2"
  by (induction rule: fw_run.induct) (auto simp flip: append_assoc intro: fw_run.intros)

lemma socket_open_simps:
  "fw_rx s = FwPolling \<Longrightarrow> socket_open s" "fw_rx s = FwMissed \<Longrightarrow> socket_open s" "fw_rx s = FwParked \<Longrightarrow> socket_open s"
  "fw_rx s = FwClosing e \<Longrightarrow> socket_open s" "fw_rx s = FwEnded e \<Longrightarrow> \<not> socket_open s"
  by (simp_all add: socket_open_def)

text \<open>The callback as one operation (\<^const>\<open>on_packet\<close>) is its step and, for a datagram that was queued, the waking.\<close>

lemma on_packet_steps:
  assumes "on_packet p slots (np_rtos N) (np_pbuf N) b addr (app_stats (fw_app s), fw_channel s) = Ok (st', ch')"
    and "socket_open s" "fw_tx s = TxIdle" "length (pb_bytes (np_pbuf N) b) \<le> 65535" "length slots = MAX_TASKS"
  shows "\<exists>log s'. fw_run p N P T (FwDatagram b addr # log) s s' \<and> set log \<subseteq> {FwIdle}
    \<and> fw_channel s' = ch' \<and> fw_app s' = (fw_app s)\<lparr>app_stats := st'\<rparr> \<and> fw_tx s' = TxIdle \<and> fw_rx s' = fw_rx s"
proof -
  let ?st = "app_stats (fw_app s)" and ?ch = "fw_channel s"
  obtain aligned where al: "align_packet_buffer (np_pbuf N) b = Ok aligned"
    using assms(1) by (auto simp: on_packet_def Let_def return_ok)
  obtain sent h where send: "rq_send (np_rtos N) (datagram_result addr aligned) (ch_handle ?ch) = (sent, h)" by fastforce
  show ?thesis
  proof (cases sent)
    case True
    obtain tasks rx where w: "wake_all p slots (ch_notify_rx ?ch) = Ok (tasks, rx)" "ch' = ?ch\<lparr>ch_handle := h, ch_notify_rx := rx\<rparr>"
      "st' = ?st\<lparr>wifi_packets_received := counter_increment (wifi_packets_received ?st)\<rparr>"
      using assms(1) al send True by (auto simp: on_packet_def try_send_def datagram_result_def Let_def return_ok)
    have queued: "rq_send (np_rtos N) (datagram_result addr aligned) (ch_handle ?ch) = (True, h)" using send True by simp
    let ?s1 = "fw_queued h st' s\<lparr>fw_tx := TxQueued\<rparr>"
    have 1: "fw_step p N P T (FwDatagram b addr) s ?s1"
      using fw_datagram [OF assms(2-4) al queued refl] w(3) by simp
    have "fw_step p N P T FwIdle ?s1 (?s1\<lparr>fw_channel := (fw_channel ?s1)\<lparr>ch_notify_rx := rx\<rparr>, fw_tx := TxIdle,
        fw_notified := (fw_notified ?s1 \<or> fw_task ?s1 \<in> set tasks)\<rparr>)"
      by (rule fw_wake [OF _ assms(5)]) (simp_all add: fw_queued_def w(1))
    note both = fw_then [OF fw_then [OF fw_done 1] this, unfolded append.simps]
    show ?thesis
      by (rule exI [of _ "[FwIdle]"], rule exI, rule conjI [OF both]) (simp add: fw_queued_def w(2))
  next
    case False
    have r: "ch' = ?ch\<lparr>ch_handle := h\<rparr>"
      "st' = ?st\<lparr>wifi_packets_received := counter_increment (wifi_packets_received ?st),
          packets_dropped_in_protocol_queue := counter_increment (packets_dropped_in_protocol_queue ?st)\<rparr>"
      using assms(1) al send False by (auto simp: on_packet_def try_send_def datagram_result_def Let_def return_ok)
    have "fw_step p N P T (FwDatagram b addr) s (fw_queued h st' s)"
      using fw_dropped [OF assms(2-4) al _ refl, of addr h p P T] send False r(2) by simp
    note one = fw_then [OF fw_done this, unfolded append.simps]
    show ?thesis
      by (rule exI [of _ "[]"], rule exI, rule conjI [OF one]) (simp add: fw_queued_def r(1) assms(3))
  qed
qed

subsection \<open>What a run shows\<close>

definition messages_in :: "('e, 'u, 'b) pbuf_ops \<Rightarrow> ('e, 'a, 't, 'b, 'addr) fw_label list \<Rightarrow> ('e + 'b \<times> 'addr) list" where
  "messages_in B = List.map_filter (\<lambda>l. case l of FwDatagram b addr \<Rightarrow> Some (message B b addr) | _ \<Rightarrow> None)"

definition handled_in :: "('e, 'a, 't, 'b, 'addr) fw_label list \<Rightarrow> ('e, 'a, 't, 'addr) fw_msg list" where
  "handled_in = List.map_filter (\<lambda>l. case l of FwHandled m reply \<Rightarrow> Some m | FwEnd m e \<Rightarrow> Some m | _ \<Rightarrow> None)"

definition answered_in :: "('e, 'a, 't, 'b, 'addr) fw_label list \<Rightarrow> ('e, 'a, 't, 'addr) fw_msg list" where
  "answered_in = List.map_filter (\<lambda>l. case l of FwHandled m reply \<Rightarrow> Some m | _ \<Rightarrow> None)"

definition replies_in :: "('e, 'a, 't, 'b, 'addr) fw_label list \<Rightarrow> ('t \<times> 'addr) list" where
  "replies_in = List.map_filter (\<lambda>l. case l of FwHandled m reply \<Rightarrow> reply | _ \<Rightarrow> None)"

definition starts_in :: "('e, 'a, 't, 'b, 'addr) fw_label list \<Rightarrow> nat" where
  "starts_in log = length (filter (\<lambda>l. l = FwStart) log)"

definition taken_in :: "('e, 'a, 't, 'b, 'addr) fw_label list \<Rightarrow> 'a option list" where
  "taken_in = List.map_filter (\<lambda>l. case l of FwTurn q out \<Rightarrow> out | _ \<Rightarrow> None)"

text \<open>The sum of what the reports have printed on line \<open>i\<close>.\<close>

definition printed_in :: "nat \<Rightarrow> ('e, 'a, 't, 'b, 'addr) fw_label list \<Rightarrow> u32" where
  "printed_in i log = sum_list (map (\<lambda>l. case l of FwReport vals \<Rightarrow> vals ! i | _ \<Rightarrow> 0) log)"

lemmas in_defs = messages_in_def handled_in_def answered_in_def replies_in_def starts_in_def taken_in_def printed_in_def

lemma in_snoc:
  "messages_in B (log @ [l]) = messages_in B log @ messages_in B [l]"
  "handled_in (log @ [l]) = handled_in log @ handled_in [l]"
  "answered_in (log @ [l]) = answered_in log @ answered_in [l]"
  "replies_in (log @ [l]) = replies_in log @ replies_in [l]"
  "starts_in (log @ [l]) = starts_in log + starts_in [l]"
  "taken_in (log @ [l]) = taken_in log @ taken_in [l]"
  "printed_in i (log @ [l]) = printed_in i log + printed_in i [l]"
  by (simp_all add: in_defs map_filter_append)

lemma in_report:
  "messages_in B [FwReport vals] = []" "handled_in [FwReport vals] = []" "starts_in [FwReport vals] = 0"
  "taken_in [FwReport vals] = []" "printed_in i [FwReport vals] = vals ! i"
  by (simp_all add: in_defs List.map_filter_simps)

subsection \<open>The counters of the callback and of the stream tasks\<close>

text \<open>The receiver leaves the counters of the callback and of the stream tasks alone, and these each other's.\<close>

definition net_counters :: "stats \<Rightarrow> u32 \<times> u32" where
  "net_counters st = (wifi_packets_received st, packets_dropped_in_protocol_queue st)"

definition play_counters :: "stats \<Rightarrow> u32 \<times> u32" where
  "play_counters st = (stream_hit st, stream_miss st)"

definition other_counters :: "stats \<Rightarrow> (u32 \<times> u32) \<times> u32 \<times> u32" where
  "other_counters st = (net_counters st, play_counters st)"

lemma insert_packet_counters:
  assumes "insert_packet p ops seq_of packet shared st = Some (Ok (shared', st'))"
  shows "other_counters st' = other_counters st"
proof -
  obtain slot shared1 where "queue_slot_mut ops (seq_of packet) shared = Some (Ok (slot, shared1))"
    using assms by (auto simp: insert_packet_def return_ok split: outcome.splits)
  then show ?thesis using assms
    by (auto simp: insert_packet_def other_counters_def net_counters_def play_counters_def split: outcome.splits sum.splits prod.splits option.splits no_slot.splits)
qed

lemma stream_drop_unit: "stream_drop P None m = Some m"
  by (simp add: stream_drop_def)

lemma prepare_stream_stats:
  "prepare_stream P malloc sid seq app = Some app1 \<Longrightarrow> app_stats app1 = app_stats app"
  by (auto simp: prepare_stream_def Let_def split: if_splits option.splits prod.splits)

lemma start_task_stats: "start_task spawned s app = Some (Ok app') \<Longrightarrow> app_stats app' = app_stats app"
  by (auto simp: start_task_def split: if_splits)

lemma receive_audio_counters:
  assumes "receive_audio p P spawned packet s app = Some (Ok app')"
  shows "other_counters (app_stats app') = other_counters (app_stats app)"
proof -
  obtain app1 where app1: "queue_receive_packet p P packet (stream_queue s) app = Some (Ok app1)"
    using assms by (auto simp: receive_audio_def return_ok)
  then obtain shared shared' st' where "insert_packet p (ap_deque P) (ap_seq P) packet shared (app_stats app)
      = Some (Ok (shared', st'))" "app_stats app1 = st'"
    by (auto simp: queue_receive_packet_def return_ok)
  then have "other_counters (app_stats app1) = other_counters (app_stats app)" using insert_packet_counters by metis
  moreover have "app_stats app' = app_stats app1"
    using assms app1 by (cases "stream_start s") (auto simp: receive_audio_def Let_def split: if_splits dest: start_task_stats)
  ultimately show ?thesis by simp
qed

lemma handle_audio_counters:
  assumes "handle_audio p P malloc spawned audio app = Some (Ok app')"
  shows "other_counters (app_stats app') = other_counters (app_stats app)"
proof -
  obtain app1 where app1: "prepare_stream P malloc (ap_sid P audio) (ap_seq P audio) app = Some app1"
    using assms by (auto simp: handle_audio_def bind_eq_Some_conv)
  show ?thesis
  proof (cases "app_stream app1")
    case None
    then show ?thesis using assms app1 prepare_stream_stats [OF app1] by (simp add: handle_audio_def)
  next
    case (Some s)
    then have "receive_audio p P spawned audio s app1 = Some (Ok app')"
      using assms app1 by (simp add: handle_audio_def)
    from receive_audio_counters [OF this] show ?thesis by (simp add: prepare_stream_stats [OF app1])
  qed
qed

lemma handle_packet_time:
  assumes "handle_packet p P T su (Time time) addr app = Some (Ok (r, app'))"
  shows "app' = app \<or> app' = handle_stream_reply P (tp_sid T time) (tp_fields T time) app"
proof (cases "tp_phase T time = Some Broadcast")
  case True
  then obtain now where "timestamp (su_micros su) = Ok now"
    using assms by (auto simp: handle_packet_def return_ok)
  then show ?thesis using assms True
    by (cases "su_send su (tp_set_receive_2 T now time) addr") (auto simp: handle_packet_def)
next
  case False
  then show ?thesis using assms
    by (auto simp: handle_packet_def split: option.split_asm time_phase.split_asm)
qed

lemma handle_packet_counters:
  assumes "handle_packet p P T su kind addr app = Some (Ok (r, app'))"
  shows "other_counters (app_stats app') = other_counters (app_stats app)"
proof (cases kind)
  case (Audio a)
  then show ?thesis using assms by (auto simp: handle_packet_def return_ok intro: handle_audio_counters)
next
  case OtherPacket
  then show ?thesis using assms by (auto simp: handle_packet_def)
next
  case (Time time)
  have "app_stats (handle_stream_reply P sid fields app) = app_stats app" for sid fields
    by (simp add: handle_stream_reply_def split: option.split)
  then show ?thesis using handle_packet_time assms Time by metis
qed

lemma stream_turn_counters:
  assumes "stream_turn p P i app = Some (Ok (out, app'))"
  shows "net_counters (app_stats app') = net_counters (app_stats app)"
    and "play_counters (app_stats app') = (let (hit, miss) = play_counters (app_stats app) in
      case out of None \<Rightarrow> (hit, miss) | Some None \<Rightarrow> (hit, miss + 1) | Some (Some packet) \<Rightarrow> (hit + 1, miss))"
proof -
  let ?ptr = "app_tasks app ! i"
  obtain disconnected where d: "queue_disconnected ?ptr (app_mem app) = Some disconnected"
    using assms by (auto simp: stream_turn_def Let_def bind_eq_Some_conv)
  consider (ended) "out = None" "app_stats app' = app_stats app"
    | (plays) packet where "out = Some packet" "app_stats app' = (case packet of
          Some _ \<Rightarrow> (app_stats app)\<lparr>stream_hit := counter_increment (stream_hit (app_stats app))\<rparr>
        | None \<Rightarrow> (app_stats app)\<lparr>stream_miss := counter_increment (stream_miss (app_stats app))\<rparr>)"
    using assms d by (cases disconnected) (auto simp: stream_turn_def Let_def return_ok)
  then have "net_counters (app_stats app') = net_counters (app_stats app) \<and> play_counters (app_stats app') =
      (let (hit, miss) = play_counters (app_stats app) in
      case out of None \<Rightarrow> (hit, miss) | Some None \<Rightarrow> (hit, miss + 1) | Some (Some packet) \<Rightarrow> (hit + 1, miss))"
  proof cases
    case (plays packet)
    then show ?thesis
      by (cases packet) (simp_all add: net_counters_def play_counters_def counter_increment_def counter_add_def)
  qed (simp add: play_counters_def)
  then show "net_counters (app_stats app') = net_counters (app_stats app)"
    "play_counters (app_stats app') = (let (hit, miss) = play_counters (app_stats app) in
      case out of None \<Rightarrow> (hit, miss) | Some None \<Rightarrow> (hit, miss + 1) | Some (Some packet) \<Rightarrow> (hit + 1, miss))"
    by simp_all
qed

subsection \<open>Every state is one of the receiver's\<close>

lemma handle_packet_reach:
  assumes "app_reach p P app" "malloc_fresh (su_malloc su) (app_mem app)"
    and "handle_packet p P T su kind addr app = Some (Ok (r, app'))"
  shows "app_reach p P app'"
proof (cases kind)
  case (Audio a)
  then show ?thesis using assms reach_audio by (auto simp: handle_packet_def return_ok)
next
  case OtherPacket
  then show ?thesis using assms by (auto simp: handle_packet_def)
next
  case (Time time)
  then show ?thesis using handle_packet_time assms reach_reply by metis
qed

lemma fw_step_reach: "fw_step p N P T l s s' \<Longrightarrow> app_reach p P (fw_app s) \<Longrightarrow> app_reach p P (fw_app s')"
proof (induction rule: fw_step.induct)
  case (fw_packet s slots kind addr ch' su reply app')
  then show ?case using handle_packet_reach by fastforce
next
  case (fw_end s slots kind addr ch' su e app' m)
  then have "app_reach p P app'" using handle_packet_reach by fastforce
  then show ?case using reach_drop fw_end.hyps(6) by fastforce
qed (auto simp: fw_queued_def intro: app_reach.intros)

lemma fw_run_reach: "fw_run p N P T log s s' \<Longrightarrow> app_reach p P (fw_app s) \<Longrightarrow> app_reach p P (fw_app s')"
  by (induction rule: fw_run.induct) (auto intro: fw_step_reach)

lemma fw_init_reach: "app_reach p P (fw_app (fw_init n task h))"
  by (simp add: fw_init_def reach_init)

subsection \<open>Accounting for the datagrams\<close>

definition net_laws ::
    "('k, 'e, 'u, 'b, 'p, 'm, 'addr) net_params \<Rightarrow> ('k \<Rightarrow> ('e + 'b \<times> 'addr) list) \<Rightarrow> nat \<Rightarrow> bool" where
  "net_laws N items cap \<longleftrightarrow> rtos_laws (np_rtos N) items cap \<and> pbuf_laws (np_pbuf N)"

lemma net_lawsD:
  assumes "net_laws N items cap"
  shows "rtos_laws (np_rtos N) items cap" "pbuf_laws (np_pbuf N)"
  using assms by (simp_all add: net_laws_def)

text \<open>
  For each application task that has ended, the messages it took and those left in its queue, which were lost;
  then the messages the running task has taken, and those in its queue.
\<close>

definition accepted_by :: "('m list \<times> 'm list) list \<Rightarrow> 'm list \<Rightarrow> 'm list \<Rightarrow> 'm list" where
  "accepted_by past taken queued = concat (map (\<lambda>(took, lost). took @ lost) past) @ taken @ queued"

definition fw_accounted ::
    "('k, 'e, 'u, 'b, 'p, ('a, 't) packet_kind, 'addr) net_params \<Rightarrow> ('k \<Rightarrow> ('e + 'b \<times> 'addr) list) \<Rightarrow>
     ('e, 'a, 't, 'b, 'addr) fw_label list \<Rightarrow> ('k, 'sid, 'tm, 'q) firmware \<Rightarrow>
     (('e + 'b \<times> 'addr) list \<times> ('e + 'b \<times> 'addr) list) list \<Rightarrow> ('e + 'b \<times> 'addr) list \<Rightarrow> bool" where
  "fw_accounted N items log s past taken \<longleftrightarrow>
     length past = starts_in log
     \<and> subseq (accepted_by past taken (items (ch_handle (fw_channel s)))) (messages_in (np_pbuf N) log)
     \<and> map fst (handled_in log) = List.map_filter (classify (np_from_buffer N) (np_parse N)) (concat (map fst past) @ taken)
     \<and> printed_in 0 log + wifi_packets_received (app_stats (fw_app s)) = of_nat (length (messages_in (np_pbuf N) log))
     \<and> printed_in 1 log + packets_dropped_in_protocol_queue (app_stats (fw_app s))
         = of_nat (length (messages_in (np_pbuf N) log) - length (accepted_by past taken (items (ch_handle (fw_channel s)))))"

lemma accepted_by_simps:
  "accepted_by past (taken @ got) queued = accepted_by past taken (got @ queued)"
  "accepted_by (past @ [(taken, queued)]) [] [] = accepted_by past taken queued"
  "accepted_by past taken (queued @ [m]) = accepted_by past taken queued @ [m]"
  by (simp_all add: accepted_by_def)

text \<open>What a round of the receive loop takes from the queue.\<close>

lemma fw_receive_spec:
  assumes "net_laws N items cap" "length slots = MAX_TASKS"
  shows "\<exists>r ch'. fw_receive p N slots ch = Ok (r, ch') \<and> (case items (ch_handle ch) of
      [] \<Rightarrow> r = None \<and> items (ch_handle ch') = []
    | m # ms \<Rightarrow> r = Some (classify (np_from_buffer N) (np_parse N) m) \<and> items (ch_handle ch') = ms)"
proof -
  have "length slots = 32" using assms(2) by (simp add: MAX_TASKS_def)
  then obtain tasks ch' where "try_receive p slots (np_rtos N) ch
      = Ok (case items (ch_handle ch) of [] \<Rightarrow> None | x # _ \<Rightarrow> Some x, tasks, ch')"
    "items (ch_handle ch') = tl (items (ch_handle ch))"
    using try_receive_spec [OF net_lawsD(1) [OF assms(1)]] by blast
  then show ?thesis by (cases "items (ch_handle ch)") (simp_all add: fw_receive_def)
qed

lemma fw_receive_taken:
  assumes "net_laws N items cap" "length slots = MAX_TASKS" "fw_receive p N slots ch = Ok (r, ch')"
  obtains got where "items (ch_handle ch) = got @ items (ch_handle ch')"
    "List.map_filter (classify (np_from_buffer N) (np_parse N)) got = (case r of Some (Some res) \<Rightarrow> [res] | _ \<Rightarrow> [])"
proof (cases "items (ch_handle ch)")
  case Nil
  then show ?thesis using that [of "[]"] fw_receive_spec [OF assms(1,2), of p ch] assms(3)
    by (simp add: List.map_filter_simps)
next
  case (Cons m ms)
  then show ?thesis using that [of "[m]"] fw_receive_spec [OF assms(1,2), of p ch] assms(3)
    by (auto simp: List.map_filter_simps split: option.split)
qed

text \<open>A round that hands out \<open>got\<close>, and a step that changes neither queue nor counters.\<close>

lemma accounted_poll:
  assumes "fw_accounted N items log s past taken"
    and "items (ch_handle (fw_channel s)) = got @ items (ch_handle (fw_channel s'))"
    and "map fst (handled_in [l]) = List.map_filter (classify (np_from_buffer N) (np_parse N)) got"
    and "net_counters (app_stats (fw_app s')) = net_counters (app_stats (fw_app s))"
    and "messages_in (np_pbuf N) [l] = []" "starts_in [l] = 0" "printed_in 0 [l] = 0" "printed_in 1 [l] = 0"
  shows "fw_accounted N items (log @ [l]) s' past (taken @ got)"
  using assms by (auto simp: fw_accounted_def in_snoc map_filter_append net_counters_def accepted_by_simps)

lemma accounted_same:
  assumes "fw_accounted N items log s past taken" "ch_handle (fw_channel s') = ch_handle (fw_channel s)"
    and "net_counters (app_stats (fw_app s')) = net_counters (app_stats (fw_app s))"
    and "handled_in [l] = []" "messages_in (np_pbuf N) [l] = []" "starts_in [l] = 0" "printed_in 0 [l] = 0" "printed_in 1 [l] = 0"
  shows "fw_accounted N items (log @ [l]) s' past taken"
  using accounted_poll [OF assms(1), where got = "[]" and l = l and s' = s'] assms(2-)
  by (simp add: List.map_filter_simps)

lemma accounted_idle:
  assumes "fw_accounted N items log s past taken" "ch_handle (fw_channel s') = ch_handle (fw_channel s)" "fw_app s' = fw_app s"
  shows "\<exists>past' taken'. fw_accounted N items (log @ [FwIdle]) s' past' taken'"
proof -
  have "fw_accounted N items (log @ [FwIdle]) s' past taken"
    by (rule accounted_same [OF assms(1,2)]) (simp_all add: assms(3) in_defs List.map_filter_simps)
  then show ?thesis by blast
qed

text \<open>A datagram, with what became of it.\<close>

lemma message_aligned:
  "align_packet_buffer B b = Ok aligned \<Longrightarrow> message B b addr = datagram_result addr aligned"
  by (simp add: message_def datagram_result_def split: sum.split)

lemma accounted_datagram:
  assumes laws: "net_laws N items cap" and acc: "fw_accounted N items log s past taken"
    and al: "align_packet_buffer (np_pbuf N) b = Ok aligned"
    and send: "rq_send (np_rtos N) (datagram_result addr aligned) (ch_handle (fw_channel s)) = (sent, h)"
    and s': "ch_handle (fw_channel s') = h"
      "wifi_packets_received (app_stats (fw_app s')) = wifi_packets_received (app_stats (fw_app s)) + 1"
      "packets_dropped_in_protocol_queue (app_stats (fw_app s'))
        = packets_dropped_in_protocol_queue (app_stats (fw_app s)) + (if sent then 0 else 1)"
  shows "fw_accounted N items (log @ [FwDatagram b addr]) s' past taken"
proof -
  note acc = acc [unfolded fw_accounted_def]
  let ?msgs = "messages_in (np_pbuf N) log" and ?m = "datagram_result addr aligned"
  let ?acc = "accepted_by past taken (items (ch_handle (fw_channel s)))"
  have h: "items h = (if sent then items (ch_handle (fw_channel s)) @ [?m] else items (ch_handle (fw_channel s)))"
    using rtos_send [OF net_lawsD(1) [OF laws], of "ch_handle (fw_channel s)" ?m] send
    by (cases "length (items (ch_handle (fw_channel s))) < cap") auto
  have one: "messages_in (np_pbuf N) [FwDatagram b addr] = [?m]" "handled_in [FwDatagram b addr] = []"
    "starts_in [FwDatagram b addr] = 0" "printed_in i [FwDatagram b addr] = 0" for i
    by (simp_all add: in_defs List.map_filter_simps message_aligned [OF al])
  have len: "length ?acc \<le> length ?msgs" using acc by (auto dest: list_emb_length)
  have sub: "subseq ?acc (?msgs @ [?m])" "subseq (?acc @ [?m]) (?msgs @ [?m])"
    using acc list_emb_append_mono [of "(=)" ?acc ?msgs "[?m]" "[?m]"] list_emb_prefix [of "(=)" ?acc ?msgs "[?m]"] by auto
  show ?thesis
    using acc len sub unfolding fw_accounted_def in_snoc one s' h
    by (cases sent) (simp_all add: accepted_by_simps Suc_diff_le add.assoc [symmetric])
qed

lemma fw_step_accounted:
  assumes laws: "net_laws N items cap"
  shows "fw_step p N P T l s s' \<Longrightarrow> fw_accounted N items log s past taken \<Longrightarrow>
    \<exists>past' taken'. fw_accounted N items (log @ [l]) s' past' taken'"
proof (induction rule: fw_step.induct)
  case (fw_datagram s b aligned addr h st)
  have "fw_accounted N items (log @ [FwDatagram b addr]) (fw_queued h
      (st\<lparr>wifi_packets_received := counter_increment (wifi_packets_received st)\<rparr>) s\<lparr>fw_tx := TxQueued\<rparr>) past taken"
    by (rule accounted_datagram [OF laws fw_datagram.prems fw_datagram.hyps(4,5)])
      (simp_all add: fw_queued_def fw_datagram.hyps(6) counter_increment_def counter_add_def)
  then show ?case by blast
next
  case (fw_dropped s b aligned addr h st)
  have "fw_accounted N items (log @ [FwDatagram b addr]) (fw_queued h
      (st\<lparr>wifi_packets_received := counter_increment (wifi_packets_received st),
          packets_dropped_in_protocol_queue := counter_increment (packets_dropped_in_protocol_queue st)\<rparr>) s) past taken"
    by (rule accounted_datagram [OF laws fw_dropped.prems fw_dropped.hyps(4,5)])
      (simp_all add: fw_queued_def fw_dropped.hyps(6) counter_increment_def counter_add_def)
  then show ?case by blast
next
  case (fw_miss s slots ch')
  obtain got where t: "items (ch_handle (fw_channel s)) = got @ items (ch_handle ch')"
    "List.map_filter (classify (np_from_buffer N) (np_parse N)) got = []"
    using fw_receive_taken [OF laws fw_miss.hyps(2,3)] by auto
  have "fw_accounted N items (log @ [FwIdle]) (s\<lparr>fw_channel := ch', fw_rx := FwMissed\<rparr>) past (taken @ got)"
    by (rule accounted_poll [OF fw_miss.prems]) (use t in \<open>simp_all add: in_defs List.map_filter_simps\<close>)
  then show ?case by blast
next
  case (fw_skip s slots ch')
  obtain got where t: "items (ch_handle (fw_channel s)) = got @ items (ch_handle ch')"
    "List.map_filter (classify (np_from_buffer N) (np_parse N)) got = []"
    using fw_receive_taken [OF laws fw_skip.hyps(2,3)] by auto
  have "fw_accounted N items (log @ [FwIdle]) (s\<lparr>fw_channel := ch'\<rparr>) past (taken @ got)"
    by (rule accounted_poll [OF fw_skip.prems]) (use t in \<open>simp_all add: in_defs List.map_filter_simps\<close>)
  then show ?case by blast
next
  case (fw_alloc_error s slots e ch' su)
  obtain got where t: "items (ch_handle (fw_channel s)) = got @ items (ch_handle ch')"
    "List.map_filter (classify (np_from_buffer N) (np_parse N)) got = [AllocatePacketBuffer e]"
    using fw_receive_taken [OF laws fw_alloc_error.hyps(2,3)] by auto
  have "fw_accounted N items (log @ [FwHandled (AllocatePacketBuffer e, su) None]) (s\<lparr>fw_channel := ch'\<rparr>) past (taken @ got)"
    by (rule accounted_poll [OF fw_alloc_error.prems]) (use t in \<open>simp_all add: in_defs List.map_filter_simps\<close>)
  then show ?case by blast
next
  case (fw_packet s slots kind addr ch' su reply app')
  obtain got where t: "items (ch_handle (fw_channel s)) = got @ items (ch_handle ch')"
    "List.map_filter (classify (np_from_buffer N) (np_parse N)) got = [Received kind addr]"
    using fw_receive_taken [OF laws fw_packet.hyps(2,3)] by auto
  have "net_counters (app_stats app') = net_counters (app_stats (fw_app s))"
    using handle_packet_counters [OF fw_packet.hyps(5)] by (simp add: other_counters_def)
  then have "fw_accounted N items (log @ [FwHandled (Received kind addr, su) reply])
      (s\<lparr>fw_channel := ch', fw_app := app'\<rparr>) past (taken @ got)"
    by (intro accounted_poll [OF fw_packet.prems]) (use t in \<open>simp_all add: in_defs List.map_filter_simps\<close>)
  then show ?case by blast
next
  case (fw_end s slots kind addr ch' su e app' m)
  obtain got where t: "items (ch_handle (fw_channel s)) = got @ items (ch_handle ch')"
    "List.map_filter (classify (np_from_buffer N) (np_parse N)) got = [Received kind addr]"
    using fw_receive_taken [OF laws fw_end.hyps(2,3)] by auto
  have "net_counters (app_stats app') = net_counters (app_stats (fw_app s))"
    using handle_packet_counters [OF fw_end.hyps(5)] by (simp add: other_counters_def)
  then have "fw_accounted N items (log @ [FwEnd (Received kind addr, su) e])
      (s\<lparr>fw_channel := ch', fw_app := app'\<lparr>app_mem := m, app_stream := None\<rparr>, fw_rx := FwClosing e\<rparr>) past (taken @ got)"
    by (intro accounted_poll [OF fw_end.prems]) (use t in \<open>simp_all add: in_defs List.map_filter_simps\<close>)
  then show ?case by blast
next
  case (fw_start s e n h task)
  have "items h = []"
    using rtos_receive(2) [OF net_lawsD(1) [OF laws], of h] fw_start.hyps(3) by (cases "items h") fastforce+
  then have "fw_accounted N items (log @ [FwStart])
      (s\<lparr>fw_channel := channel_new h, fw_rx := FwPolling, fw_notified := False, fw_id := n, fw_task := task\<rparr>)
      (past @ [(taken, items (ch_handle (fw_channel s)))]) []"
    using fw_start.prems
    by (simp add: fw_accounted_def in_snoc accepted_by_simps channel_new_def) (simp add: in_defs List.map_filter_simps)
  then show ?case by blast
next
  case (fw_turn i s out app')
  have "fw_accounted N items (log @ [FwTurn (app_tasks (fw_app s) ! i) out]) (s\<lparr>fw_app := app'\<rparr>) past taken"
    by (rule accounted_same [OF fw_turn.prems])
      (use stream_turn_counters(1) [OF fw_turn.hyps(2)] in \<open>simp_all add: in_defs List.map_filter_simps\<close>)
  then show ?case by blast
next
  case (fw_fail i s app')
  have "app_stats app' = app_stats (fw_app s)" using fw_fail.hyps(2) by (auto simp: stream_task_fails_def)
  then have "fw_accounted N items (log @ [FwFail (app_tasks (fw_app s) ! i)]) (s\<lparr>fw_app := app'\<rparr>) past taken"
    by (intro accounted_same [OF fw_fail.prems]) (simp_all add: in_defs List.map_filter_simps)
  then show ?case by blast
next
  case (fw_report s vals st')
  have "vals ! 0 = wifi_packets_received (app_stats (fw_app s))" "wifi_packets_received st' = 0"
    "vals ! 1 = packets_dropped_in_protocol_queue (app_stats (fw_app s))" "packets_dropped_in_protocol_queue st' = 0"
    using fw_report.hyps stats_report_resets [of "app_stats (fw_app s)"] by (auto simp: stats_new_def counter_new_def)
  then have "fw_accounted N items (log @ [FwReport vals]) (s\<lparr>fw_app := (fw_app s)\<lparr>app_stats := st'\<rparr>\<rparr>) past taken"
    using fw_report.prems by (auto simp: fw_accounted_def in_snoc in_report)
  then show ?case by blast
qed (erule accounted_idle; simp)+

lemma fw_run_accounted:
  assumes "net_laws N items cap" "items h = []"
  shows "fw_run p N P T log s0 s \<Longrightarrow> s0 = fw_init n task h \<Longrightarrow> \<exists>past taken. fw_accounted N items log s past taken"
proof (induction rule: fw_run.induct)
  case (fw_done s)
  then have "fw_accounted N items [] s [] []"
    using assms(2) by (simp add: fw_accounted_def in_defs List.map_filter_simps fw_init_def channel_new_def app_init_def
        stats_new_def counter_new_def accepted_by_def)
  then show ?case by blast
next
  case (fw_then log s s1 l s')
  then show ?case using fw_step_accounted [OF assms(1) fw_then.hyps(2)] by blast
qed

subsection \<open>Accounting for what the stream tasks take\<close>

definition fw_played :: "('e, 'a, 't, 'b, 'addr) fw_label list \<Rightarrow> ('k, 'sid, 'tm, 'q) firmware \<Rightarrow> bool" where
  "fw_played log s \<longleftrightarrow>
     printed_in 5 log + stream_hit (app_stats (fw_app s)) = of_nat (length (filter (\<lambda>out. out \<noteq> None) (taken_in log)))
     \<and> printed_in 6 log + stream_miss (app_stats (fw_app s)) = of_nat (length (filter (\<lambda>out. out = None) (taken_in log)))"

lemma played_same:
  assumes "fw_played log s" "play_counters (app_stats (fw_app s')) = play_counters (app_stats (fw_app s))"
    and "taken_in [l] = []" "printed_in 5 [l] = 0" "printed_in 6 [l] = 0"
  shows "fw_played (log @ [l]) s'"
  using assms by (simp add: fw_played_def in_snoc play_counters_def)

lemma fw_step_played:
  "fw_step p N P T l s s' \<Longrightarrow> fw_played log s \<Longrightarrow> fw_played (log @ [l]) s'"
proof (induction rule: fw_step.induct)
  case (fw_packet s slots kind addr ch' su reply app')
  then show ?case using handle_packet_counters [OF fw_packet.hyps(5)]
    by (intro played_same [OF fw_packet.prems]) (simp_all add: other_counters_def in_defs List.map_filter_simps)
next
  case (fw_end s slots kind addr ch' su e app' m)
  then show ?case using handle_packet_counters [OF fw_end.hyps(5)]
    by (intro played_same [OF fw_end.prems]) (simp_all add: other_counters_def in_defs List.map_filter_simps)
next
  case (fw_turn i s out app')
  note counted = stream_turn_counters(2) [OF fw_turn.hyps(2)]
  have one: "taken_in [FwTurn (app_tasks (fw_app s) ! i) out] = (case out of None \<Rightarrow> [] | Some o' \<Rightarrow> [o'])"
    "printed_in j [FwTurn (app_tasks (fw_app s) ! i) out] = 0" for j
    by (simp_all add: in_defs List.map_filter_simps split: option.split)
  show ?case using fw_turn.prems counted unfolding fw_played_def in_snoc one
    by (auto simp: play_counters_def add.assoc [symmetric] split: option.splits)
next
  case (fw_fail i s app')
  then have "app_stats app' = app_stats (fw_app s)" by (auto simp: stream_task_fails_def)
  then show ?case by (intro played_same [OF fw_fail.prems]) (simp_all add: in_defs List.map_filter_simps)
next
  case (fw_report s vals st')
  have "vals ! 5 = stream_hit (app_stats (fw_app s))" "stream_hit st' = 0"
    "vals ! 6 = stream_miss (app_stats (fw_app s))" "stream_miss st' = 0"
    using fw_report.hyps stats_report_resets [of "app_stats (fw_app s)"] by (auto simp: stats_new_def counter_new_def)
  then show ?case using fw_report.prems by (auto simp: fw_played_def in_snoc in_report)
qed (erule played_same; simp add: in_defs List.map_filter_simps fw_queued_def play_counters_def)+

lemma fw_run_played:
  "fw_run p N P T log s0 s \<Longrightarrow> s0 = fw_init n task h \<Longrightarrow> fw_played log s"
proof (induction rule: fw_run.induct)
  case (fw_done s)
  then show ?case
    by (simp add: fw_played_def fw_init_def app_init_def stats_new_def counter_new_def in_defs List.map_filter_simps)
next
  case (fw_then log s s1 l s')
  then show ?case using fw_step_played by blast
qed

subsection \<open>Replies\<close>

lemma fw_step_replies:
  "fw_step p N P T l s s' \<Longrightarrow> replies_in [l] = List.map_filter (reply_to T) (answered_in [l])"
proof (induction rule: fw_step.induct)
  case (fw_packet s slots kind addr ch' su reply app')
  then show ?case
    by (cases reply) (simp_all add: in_defs List.map_filter_simps
      handle_packet_reply [OF fw_packet.hyps(5), unfolded sum.case])
qed (simp_all add: in_defs List.map_filter_simps reply_to_def)

lemma fw_run_replies: "fw_run p N P T log s s' \<Longrightarrow> replies_in log = List.map_filter (reply_to T) (answered_in log)"
proof (induction rule: fw_run.induct)
  case (fw_done s)
  show ?case by (simp add: in_defs List.map_filter_simps)
next
  case (fw_then log s s1 l s')
  then show ?case using fw_step_replies [OF fw_then.hyps(2)] by (simp add: in_snoc map_filter_append)
qed

subsection \<open>What does not fail\<close>

lemma handle_packet_total:
  assumes "app_reach p P app" "deque_laws (ap_deque P) items" "ap_queue_bytes P \<noteq> 0"
    and "malloc_fresh (su_malloc su) (app_mem app)"
  shows "handle_packet p P T su kind addr app \<noteq> None"
proof (cases kind)
  case (Audio a)
  then show ?thesis
    using handle_audio_spec [OF app_reach_inv [OF assms(1-3)] assms(2,4,3), of p "su_spawned su" a]
    by (auto simp: handle_packet_def)
qed (auto simp: handle_packet_def split: option.splits time_phase.splits)

text \<open>A datagram of any content that comes between two others is queued or dropped; the callback does not panic.\<close>

lemma fw_datagram_enabled:
  assumes "net_laws N items cap" "socket_open s" "fw_tx s = TxIdle" "length (pb_bytes (np_pbuf N) b) \<le> 65535"
  shows "\<exists>s'. fw_step p N P T (FwDatagram b addr) s s'"
proof -
  obtain aligned where al: "align_packet_buffer (np_pbuf N) b = Ok aligned"
    using align_packet_buffer_spec [OF net_lawsD(2) [OF assms(1)] assms(4)] by blast
  obtain sent h where send: "rq_send (np_rtos N) (datagram_result addr aligned) (ch_handle (fw_channel s)) = (sent, h)" by fastforce
  show ?thesis
  proof (cases sent)
    case True
    with send have "rq_send (np_rtos N) (datagram_result addr aligned) (ch_handle (fw_channel s)) = (True, h)" by simp
    from fw_datagram [OF assms(2-4) al this refl, of p P T] show ?thesis by blast
  next
    case False
    with send have "rq_send (np_rtos N) (datagram_result addr aligned) (ch_handle (fw_channel s)) = (False, h)" by simp
    from fw_dropped [OF assms(2-4) al this refl, of p P T] show ?thesis by blast
  qed
qed

lemma fw_callback_returns:
  fixes s :: "('k, 'sid::linorder, ('h, 'g) timing, 'q) firmware"
  assumes "fw_tx s = TxQueued"
  shows "\<exists>s'. fw_step p N P T FwIdle s s' \<and> fw_tx s' = TxIdle"
proof -
  let ?slots = "replicate MAX_TASKS None :: slots"
  have "length ?slots = 32" by (simp add: MAX_TASKS_def)
  then obtain tasks where w: "wake_all p ?slots (ch_notify_rx (fw_channel s)) = Ok (tasks, 0)"
    using wake_all_returns by blast
  show ?thesis using fw_wake [OF assms _ w] by (intro exI conjI) auto
qed

subsection \<open>After the end of the application task\<close>

inductive_cases fw_endE: "fw_step p N P T (FwEnd m e) s s'"

definition concerns :: "nat \<Rightarrow> ('e, 'a, 't, 'b, 'addr) fw_label \<Rightarrow> bool" where
  "concerns q l \<longleftrightarrow> (case l of FwTurn q' out \<Rightarrow> q' = q | FwFail q' \<Rightarrow> q' = q | _ \<Rightarrow> False)"

text \<open>A task without a receiver stays so as long as it does not get its turn.\<close>

lemma handle_packet_orphaned:
  assumes laws: "deque_laws (ap_deque P) items" "ap_queue_bytes P \<noteq> 0" and reach: "app_reach p P app"
    and h: "malloc_fresh (su_malloc su) (app_mem app)" "handle_packet p P T su kind addr app = Some (Ok (r, app'))"
    and q: "orphaned q app"
  shows "orphaned q app'"
proof (cases kind)
  case (Audio a)
  then have "handle_audio p P (su_malloc su) (su_spawned su) a app = Some (Ok app')"
    using h(2) by (auto simp: handle_packet_def return_ok)
  then show ?thesis using orphaned_audio [OF app_reach_inv [OF reach laws] laws(1) h(1) laws(2) _ q] by blast
next
  case OtherPacket
  then show ?thesis using h(2) q by (auto simp: handle_packet_def)
next
  case (Time time)
  then show ?thesis using handle_packet_time h(2) q orphaned_reply by metis
qed

lemma fw_step_orphaned:
  assumes laws: "deque_laws (ap_deque P) items" "ap_queue_bytes P \<noteq> 0"
  shows "fw_step p N P T l s s' \<Longrightarrow> app_reach p P (fw_app s) \<Longrightarrow> orphaned q (fw_app s) \<Longrightarrow> \<not> concerns q l \<Longrightarrow>
    orphaned q (fw_app s')"
proof (induction rule: fw_step.induct)
  case (fw_packet s slots kind addr ch' su reply app')
  then show ?case using handle_packet_orphaned [OF laws fw_packet.prems(1) fw_packet.hyps(4,5)] by simp
next
  case (fw_end s slots kind addr ch' su e app' m)
  then have "orphaned q app'" using handle_packet_orphaned [OF laws fw_end.prems(1) fw_end.hyps(4,5)] by simp
  then show ?case by (simp add: orphaned_def stream_holds_def)
next
  case (fw_turn i s out app')
  then show ?case
    using orphaned_other(1) [OF app_reach_inv [OF fw_turn.prems(1) laws] laws(1) fw_turn.hyps(1)] by (simp add: concerns_def)
next
  case (fw_fail i s app')
  then show ?case
    using orphaned_other(2) [OF app_reach_inv [OF fw_fail.prems(1) laws] laws(1) fw_fail.hyps(1)] by (simp add: concerns_def)
qed (simp_all add: orphaned_def fw_queued_def)

lemma fw_run_orphaned:
  assumes "deque_laws (ap_deque P) items" "ap_queue_bytes P \<noteq> 0"
  shows "fw_run p N P T log s s' \<Longrightarrow> app_reach p P (fw_app s) \<Longrightarrow> orphaned q (fw_app s) \<Longrightarrow>
    \<forall>l\<in>set log. \<not> concerns q l \<Longrightarrow> orphaned q (fw_app s')"
proof (induction rule: fw_run.induct)
  case (fw_then log s s1 l s')
  then show ?case
    using fw_step_orphaned [OF assms fw_then.hyps(2)] fw_run_reach [OF fw_then.hyps(1) fw_then.prems(1)] by simp
qed simp

subsection \<open>Properties\<close>

text \<open>C2: from the network to the replies, whatever the threads do in whatever order, restarts of the application
  task included: the datagrams that were queued are those that the application tasks took, in order of arrival,
  those lost in the queues of the tasks that ended, and those still in the queue; the packets handled are the
  valid ones among those taken, in that order; the two counters of the network and the two of the stream tasks, with what was
  printed and reset of them, are the numbers of the datagrams that came, of those that were not queued, of the
  packets and of the silences that the stream tasks took (modulo 2 to the 32nd); the replies sent are those that
  the handled packets call for. While the socket is open, a datagram that comes when no callback runs is taken, a callback that runs
  ends without a panic, and no packet that is handled leads to an access to dead memory.\<close>

theorem datagrams_are_handled:
  fixes N :: "('k, 'e, 'u, 'b, 'p, ('a, 't) packet_kind, 'addr) net_params"
  assumes "net_laws N items cap" "deque_laws (ap_deque P) dq_items" "ap_queue_bytes P \<noteq> 0"
    and "fw_run p N P T log (fw_init n task h) s" "items h = []"
  shows "(\<exists>past taken accepted. length past = starts_in log
      \<and> accepted = concat (map (\<lambda>(took, lost). took @ lost) past) @ taken @ items (ch_handle (fw_channel s))
      \<and> subseq accepted (messages_in (np_pbuf N) log)
      \<and> map fst (handled_in log) = List.map_filter (classify (np_from_buffer N) (np_parse N)) (concat (map fst past) @ taken)
      \<and> printed_in 0 log + wifi_packets_received (app_stats (fw_app s)) = of_nat (length (messages_in (np_pbuf N) log))
      \<and> printed_in 1 log + packets_dropped_in_protocol_queue (app_stats (fw_app s))
          = of_nat (length (messages_in (np_pbuf N) log) - length accepted))
    \<and> printed_in 5 log + stream_hit (app_stats (fw_app s)) = of_nat (length (filter (\<lambda>out. out \<noteq> None) (taken_in log)))
    \<and> printed_in 6 log + stream_miss (app_stats (fw_app s)) = of_nat (length (filter (\<lambda>out. out = None) (taken_in log)))
    \<and> replies_in log = List.map_filter (reply_to T) (answered_in log)
    \<and> (\<forall>b addr. socket_open s \<and> fw_tx s = TxIdle \<and> length (pb_bytes (np_pbuf N) b) \<le> 65535 \<longrightarrow>
         (\<exists>s'. fw_step p N P T (FwDatagram b addr) s s'))
    \<and> (fw_tx s = TxQueued \<longrightarrow> (\<exists>s'. fw_step p N P T FwIdle s s' \<and> fw_tx s' = TxIdle))
    \<and> (\<forall>(su :: ('t, 'addr) surroundings) kind addr. malloc_fresh (su_malloc su) (app_mem (fw_app s)) \<longrightarrow>
         handle_packet p P T su kind addr (fw_app s) \<noteq> None)"
proof -
  have reach: "app_reach p P (fw_app s)" using fw_run_reach [OF assms(4) fw_init_reach] .
  obtain past taken where acc: "fw_accounted N items log s past taken"
    using fw_run_accounted [OF assms(1,5,4) refl] by blast
  have "fw_played log s" by (rule fw_run_played [OF assms(4) refl])
  moreover have "\<exists>s'. fw_step p N P T (FwDatagram b addr) s s'"
    if "socket_open s" "fw_tx s = TxIdle" "length (pb_bytes (np_pbuf N) b) \<le> 65535" for b addr
    using fw_datagram_enabled [OF assms(1) that] .
  moreover have "handle_packet p P T su kind addr (fw_app s) \<noteq> None"
    if "malloc_fresh (su_malloc su) (app_mem (fw_app s))" for su :: "('t, 'addr) surroundings" and kind addr
    by (rule handle_packet_total [OF reach assms(2,3) that])
  ultimately show ?thesis
    using acc [unfolded fw_accounted_def accepted_by_def] fw_run_replies [OF assms(4)] fw_callback_returns
    unfolding fw_played_def by blast
qed

text \<open>A socket with room for one datagram; the first one is an audio packet, the second is dropped.\<close>

definition example_net :: "((string + (nat \<times> u8 list) \<times> nat) list, string, nat, nat \<times> u8 list, nat \<times> u8 list,
    (u64 \<times> nat, nat) packet_kind, nat) net_params" where
  "example_net = \<lparr>np_rtos = list_rtos 1, np_pbuf = list_pbuf, np_from_buffer = Some,
     np_parse = (\<lambda>b. if snd b = [1] then Some (Audio (7, 3)) else if snd b = [2] then Some (Time 1) else None)\<rparr>"

lemma example_net_laws: "net_laws example_net (\<lambda>h. h) 1"
  using list_rtos_laws list_pbuf_laws by (simp add: net_laws_def example_net_def)

definition example_su :: "(nat, nat) surroundings" where
  "example_su = \<lparr>su_micros = 99, su_malloc = (\<lambda>_. 4096), su_spawned = True,
     su_send = (\<lambda>t addr. protocol_send example_env (\<lambda>t. [of_nat t]) t (UNSPECIFIED, of_nat addr))\<rparr>"

lemma example_message: "message list_pbuf (8, bytes) addr = Inr ((8, bytes), addr)"
  by (simp add: message_def align_packet_buffer_def list_pbuf_def ALIGN_def)

lemma example_aligned: "align_packet_buffer list_pbuf (8, bytes) = Ok (Inr (8, bytes))"
  by (simp add: align_packet_buffer_def list_pbuf_def ALIGN_def)

text \<open>In a state of the socket: a datagram that is queued and its waking, one that is dropped, and one that is taken.\<close>

abbreviation example_step where "example_step \<equiv> fw_step Dev example_net example_params example_time"
abbreviation example_run where "example_run \<equiv> fw_run Dev example_net example_params example_time"

lemma example_queue:
  assumes "socket_open s" "fw_tx s = TxIdle" "ch_handle (fw_channel s) = []" "length bytes \<le> 65535"
  shows "\<exists>s1 s2 st. example_step (FwDatagram (8, bytes) addr) s s1 \<and> example_step FwIdle s1 s2
    \<and> fw_app s2 = (fw_app s)\<lparr>app_stats := st\<rparr> \<and> fw_rx s2 = fw_rx s \<and> fw_tx s2 = TxIdle
    \<and> ch_handle (fw_channel s2) = [Inr ((8, bytes), addr)]"
proof -
  let ?st = "(app_stats (fw_app s))\<lparr>wifi_packets_received := counter_increment (wifi_packets_received (app_stats (fw_app s)))\<rparr>"
    and ?slots = "replicate MAX_TASKS None :: slots"
  let ?s1 = "fw_queued [Inr ((8, bytes), addr)] ?st s\<lparr>fw_tx := TxQueued\<rparr>"
  have 1: "example_step (FwDatagram (8, bytes) addr) s ?s1"
    by (rule fw_datagram [OF assms(1,2) _ _ _ refl, where aligned = "Inr (8, bytes)"])
      (simp_all add: example_net_def example_aligned [unfolded list_pbuf_def] assms(3,4) datagram_result_def list_rtos_def list_pbuf_def)
  have "length ?slots = 32" by (simp add: MAX_TASKS_def)
  then obtain tasks where w: "wake_all Dev ?slots (ch_notify_rx (fw_channel s)) = Ok (tasks, 0)"
    using wake_all_returns by blast
  have 2: "example_step FwIdle ?s1 (?s1\<lparr>fw_channel := (fw_channel ?s1)\<lparr>ch_notify_rx := 0\<rparr>, fw_tx := TxIdle,
      fw_notified := (fw_notified ?s1 \<or> fw_task ?s1 \<in> set tasks)\<rparr>)"
    by (rule fw_wake [where slots = ?slots]) (simp_all add: fw_queued_def w)
  show ?thesis
    by (rule exI, rule exI, rule exI [of _ ?st], rule conjI [OF 1], rule conjI [OF 2]) (simp add: fw_queued_def)
qed

lemma example_drop:
  assumes "socket_open s" "fw_tx s = TxIdle" "ch_handle (fw_channel s) = [m]" "length bytes \<le> 65535"
  shows "\<exists>s1 st. example_step (FwDatagram (8, bytes) addr) s s1
    \<and> fw_app s1 = (fw_app s)\<lparr>app_stats := st\<rparr> \<and> fw_rx s1 = fw_rx s \<and> fw_tx s1 = TxIdle \<and> ch_handle (fw_channel s1) = [m]"
proof -
  let ?st = "(app_stats (fw_app s))\<lparr>wifi_packets_received := counter_increment (wifi_packets_received (app_stats (fw_app s))),
    packets_dropped_in_protocol_queue := counter_increment (packets_dropped_in_protocol_queue (app_stats (fw_app s)))\<rparr>"
  have 1: "example_step (FwDatagram (8, bytes) addr) s (fw_queued [m] ?st s)"
    by (rule fw_dropped [OF assms(1,2) _ _ _ refl, where aligned = "Inr (8, bytes)"])
      (simp_all add: example_net_def example_aligned [unfolded list_pbuf_def] assms(3,4) datagram_result_def list_rtos_def list_pbuf_def)
  show ?thesis
    by (rule exI, rule exI [of _ ?st], rule conjI [OF 1]) (simp add: fw_queued_def assms(2))
qed

lemma example_receive:
  assumes "ch_handle ch = [Inr ((8, bytes), addr)]"
  shows "\<exists>ch'. fw_receive Dev example_net (replicate MAX_TASKS None) ch
      = Ok (Some (map_option (\<lambda>kind. Received kind addr) (np_parse example_net (8, bytes))), ch') \<and> ch_handle ch' = []"
  using fw_receive_spec [OF example_net_laws, of "replicate MAX_TASKS None" Dev ch] assms
  by (auto simp: classify_def example_net_def)

lemma example_fw_run:
  "\<exists>s st. example_run [FwDatagram (8, [1]) 80, FwIdle, FwDatagram (8, [2]) 80] (fw_init 3 100 []) s
    \<and> fw_rx s = FwPolling \<and> fw_tx s = TxIdle \<and> fw_app s = app_init st \<and> ch_handle (fw_channel s) = [Inr ((8, [1]), 80)]"
proof -
  have init: "socket_open (fw_init 3 100 [])" "fw_tx (fw_init 3 100 []) = TxIdle" "ch_handle (fw_channel (fw_init 3 100 [])) = []"
    by (simp_all add: fw_init_def socket_open_def channel_new_def)
  obtain s1 s2 st where q: "example_step (FwDatagram (8, [1]) 80) (fw_init 3 100 []) s1" "example_step FwIdle s1 s2"
    "fw_app s2 = (fw_app (fw_init 3 100 []))\<lparr>app_stats := st\<rparr>" "fw_rx s2 = FwPolling" "fw_tx s2 = TxIdle"
    "ch_handle (fw_channel s2) = [Inr ((8, [1]), 80)]"
    using example_queue [OF init, of "[1]" 80] by (auto simp: fw_init_def)
  obtain s3 st' where d: "example_step (FwDatagram (8, [2]) 80) s2 s3" "fw_app s3 = (fw_app s2)\<lparr>app_stats := st'\<rparr>"
    "fw_rx s3 = FwPolling" "fw_tx s3 = TxIdle" "ch_handle (fw_channel s3) = [Inr ((8, [1]), 80)]"
    using example_drop [OF socket_open_simps(1) [OF q(4)] q(5,6), of "[2]" 80] q(4) by auto
  have "fw_app s3 = app_init st'" using d(2) q(3) by (simp add: fw_init_def app_init_def)
  with fw_then [OF fw_then [OF fw_then [OF fw_done q(1)] q(2)] d(1)] d(3-5) show ?thesis by auto
qed

theorem datagrams_are_handled_witness:
  "\<exists>s st. example_run [FwDatagram (8, [1]) 80, FwIdle, FwDatagram (8, [2]) 80] (fw_init 3 100 []) s
    \<and> fw_app s = app_init st \<and> wifi_packets_received st = 2 \<and> packets_dropped_in_protocol_queue st = 1
    \<and> (\<exists>s'. example_step (FwDatagram (8, [4]) 80) s s')"
proof -
  let ?log = "[FwDatagram (8, [1]) 80, FwIdle, FwDatagram (8, [2]) 80] ::
    (string, u64 \<times> nat, nat, nat \<times> u8 list, nat) fw_label list"
  obtain s st where s: "example_run ?log (fw_init 3 100 []) s" "fw_rx s = FwPolling" "fw_tx s = TxIdle"
    "fw_app s = app_init st" "ch_handle (fw_channel s) = [Inr ((8, [1]), 80)]"
    using example_fw_run by blast
  note all = datagrams_are_handled [OF example_net_laws example_params_laws s(1) refl]
  have msgs: "messages_in (np_pbuf example_net) ?log = [Inr ((8, [1]), 80), Inr ((8, [2]), 80)]" "handled_in ?log = []"
    "starts_in ?log = 0" "printed_in i ?log = 0" for i
    by (simp_all add: in_defs List.map_filter_simps example_net_def example_message)
  obtain accepted taken :: "(string + (nat \<times> u8 list) \<times> nat) list" where acc: "accepted = taken @ [Inr ((8, [1]), 80)]"
    "subseq accepted [Inr ((8, [1]), 80), Inr ((8, [2]), 80)]"
    "wifi_packets_received st = 2" "packets_dropped_in_protocol_queue st = of_nat (2 - length accepted)"
    using conjunct1 [OF all] by (auto simp: msgs s(4,5) app_init_def)
  have "taken = []" using acc(1,2) by (cases taken; cases "tl taken") (auto split: if_splits)
  then have "packets_dropped_in_protocol_queue st = 1" using acc(1,4) by simp
  moreover have "\<exists>s'. example_step (FwDatagram (8, [4]) 80) s s'"
    using all s(3) socket_open_simps(1) [OF s(2)] by (simp add: example_net_def list_pbuf_def)
  ultimately show ?thesis using s(1,4) acc(3) by blast
qed

text \<open>C20: one reply that cannot be sent stops the sound: an application task that runs ends only with a
  time broadcast whose reply lwIP refuses to send; then no stream is current, and each stream task that runs at
  that moment ends at its next turn, whenever that comes, even if the application task has been started
  again and plays new streams by then.\<close>

theorem failed_reply_stops_playback:
  assumes "deque_laws (ap_deque P) items" "ap_queue_bytes P \<noteq> 0"
    and "fw_run p N P T log0 (fw_init n task h) s0" "fw_step p N P T (FwEnd m e) s0 s1" "fw_run p N P T log s1 s2"
  shows "(\<exists>reply. reply_to T m = Some reply \<and> su_send (snd m) (fst reply) (snd reply) = Inl e)
    \<and> app_stream (fw_app s1) = None
    \<and> (\<forall>q\<in>set (app_tasks (fw_app s1)). (\<forall>l\<in>set log. \<not> concerns q l) \<longrightarrow>
         (\<exists>i<length (app_tasks (fw_app s2)). app_tasks (fw_app s2) ! i = q
            \<and> (\<exists>app'. stream_turn p P i (fw_app s2) = Some (Ok (None, app')))))"
proof -
  have reach: "app_reach p P (fw_app s1)"
    using fw_step_reach [OF assms(4) fw_run_reach [OF assms(3) fw_init_reach]] .
  have none: "app_stream (fw_app s1) = None" using assms(4) by (auto elim!: fw_endE)
  have "\<exists>i<length (app_tasks (fw_app s2)). app_tasks (fw_app s2) ! i = q
      \<and> (\<exists>app'. stream_turn p P i (fw_app s2) = Some (Ok (None, app')))"
    if "q \<in> set (app_tasks (fw_app s1))" "\<forall>l\<in>set log. \<not> concerns q l" for q
  proof -
    have "orphaned q (fw_app s1)" using that(1) none by (simp add: orphaned_def stream_holds_def)
    then have "orphaned q (fw_app s2)" using fw_run_orphaned [OF assms(1,2,5) reach] that(2) by blast
    then show ?thesis
      by (rule orphaned_turn [OF app_reach_inv [OF fw_run_reach [OF assms(5) reach] assms(1,2)] assms(1)])
  qed
  moreover have "\<exists>reply. reply_to T m = Some reply \<and> su_send (snd m) (fst reply) (snd reply) = Inl e"
    using assms(4)
  proof (rule fw_endE)
    fix slots kind addr ch' su app' m'
    assume h: "handle_packet p P T su kind addr (fw_app s0) = Some (Ok (Inl e, app'))" and m: "m = (Received kind addr, su)"
    show ?thesis using handle_packet_reply [OF h, unfolded sum.case] m by simp
  qed
  ultimately show ?thesis using none by blast
qed

text \<open>A session, then a broadcast from port 0, to which lwIP cannot reply; and a second application task.\<close>

abbreviation example_opening :: "(string, u64 \<times> nat, nat, nat \<times> u8 list, nat) fw_label" where
  "example_opening \<equiv> FwHandled (Received (Audio (7, 3)) 80, example_su) None"

lemma example_opened:
  assumes "fw_rx s = FwPolling" "fw_app s = app_init st" "ch_handle (fw_channel s) = [Inr ((8, [1]), 80)]"
  shows "\<exists>ch st'. example_step example_opening s (s\<lparr>fw_channel := ch, fw_app := example_running\<lparr>app_stats := st'\<rparr>\<rparr>)
    \<and> ch_handle ch = []"
proof -
  obtain ch1 where ch1: "fw_receive Dev example_net (replicate MAX_TASKS None) (fw_channel s) = Ok (Some (Some (Received (Audio (7, 3)) 80)), ch1)"
    "ch_handle ch1 = []"
    using example_receive [OF assms(3)] by (auto simp: example_net_def)
  let ?st = "st\<lparr>audio_packets_received_on_time := audio_packets_received_on_time st + 1\<rparr>"
  have "example_step example_opening s (s\<lparr>fw_channel := ch1, fw_app := example_running\<lparr>app_stats := ?st\<rparr>\<rparr>)"
    by (rule fw_packet [OF assms(1) _ ch1(1)])
      (use example_first_packet_any [of st] in \<open>simp_all add: handle_packet_def example_su_def malloc_fresh_def app_init_def assms(2)\<close>)
  with ch1(2) show ?thesis by blast
qed

lemma example_refused:
  assumes "fw_rx s = FwPolling" "fw_app s = example_running\<lparr>app_stats := st\<rparr>" "ch_handle (fw_channel s) = [Inr ((8, [2]), 0)]"
  shows "\<exists>s1. example_step (FwEnd (Received (Time 1) 0, example_surroundings 99) (Lwip (-6))) s s1 \<and> fw_rx s1 = FwClosing (Lwip (-6))
    \<and> fw_tx s1 = fw_tx s \<and> app_tasks (fw_app s1) = [4096]"
proof -
  obtain ch1 where ch1: "fw_receive Dev example_net (replicate MAX_TASKS None) (fw_channel s) = Ok (Some (Some (Received (Time 1) 0)), ch1)"
    using example_receive [OF assms(3)] by (auto simp: example_net_def)
  have h: "handle_packet Dev example_params example_time (example_surroundings 99) (Time 1) 0 (fw_app s) = Some (Ok (Inl (Lwip (-6)), fw_app s))"
    by (simp add: handle_packet_def example_time_def example_surroundings_def timestamp_def Let_def protocol_send_def udp_send_to_def
        lwip_check_def example_env_def)
  have "app_inv example_params (\<lambda>q. q) example_running"
    by (rule app_reach_inv [OF example_running_reach example_params_laws])
  then have "app_inv example_params (\<lambda>q. q) (fw_app s)" by (simp add: assms(2) app_inv_stats)
  then obtain m where "stream_drop example_params (app_stream (fw_app s)) (app_mem (fw_app s)) = Some m"
    using app_inv_dropped by blast
  then have 1: "example_step (FwEnd (Received (Time 1) 0, example_surroundings 99) (Lwip (-6))) s
      (s\<lparr>fw_channel := ch1, fw_app := (fw_app s)\<lparr>app_mem := m, app_stream := None\<rparr>, fw_rx := FwClosing (Lwip (-6))\<rparr>)"
    using fw_end [OF assms(1) _ ch1 _ h] by (simp add: malloc_fresh_def assms(2) example_running_def example_surroundings_def)
  show ?thesis by (rule exI, rule conjI [OF 1]) (simp add: assms(2) example_running_def)
qed

lemma example_restart:
  "\<exists>log0 s0 s1 s2. example_run log0 (fw_init 3 100 []) s0
    \<and> example_step (FwEnd (Received (Time 1) 0, example_surroundings 99) (Lwip (-6))) s0 s1
    \<and> example_run [FwIdle, FwStart] s1 s2 \<and> fw_rx s2 = FwPolling
    \<and> app_tasks (fw_app s1) = [4096] \<and> app_tasks (fw_app s2) = [4096]"
proof -
  obtain s1 st where s1: "example_run [FwDatagram (8, [1]) 80, FwIdle, FwDatagram (8, [2]) 80] (fw_init 3 100 []) s1"
    "fw_rx s1 = FwPolling" "fw_tx s1 = TxIdle" "fw_app s1 = app_init st" "ch_handle (fw_channel s1) = [Inr ((8, [1]), 80)]"
    using example_fw_run by blast
  obtain s2 st2 where s2: "example_step example_opening s1 s2" "fw_rx s2 = FwPolling" "fw_tx s2 = TxIdle"
    "fw_app s2 = example_running\<lparr>app_stats := st2\<rparr>" "ch_handle (fw_channel s2) = []"
    using example_opened [OF s1(2,4,5)] s1(2,3) by fastforce
  obtain s3 s4 st4 where s4: "example_step (FwDatagram (8, [2]) 0) s2 s3" "example_step FwIdle s3 s4"
    "fw_app s4 = example_running\<lparr>app_stats := st4\<rparr>" "fw_rx s4 = FwPolling" "fw_tx s4 = TxIdle"
    "ch_handle (fw_channel s4) = [Inr ((8, [2]), 0)]"
    using example_queue [OF socket_open_simps(1) [OF s2(2)] s2(3,5), of "[2]" 0] s2(2,4) by auto
  note run = fw_then [OF fw_then [OF fw_then [OF s1(1) s2(1)] s4(1)] s4(2)]
  obtain s5 where s5: "example_step (FwEnd (Received (Time 1) 0, example_surroundings 99) (Lwip (-6))) s4 s5"
    "fw_rx s5 = FwClosing (Lwip (-6))" "fw_tx s5 = TxIdle" "app_tasks (fw_app s5) = [4096]"
    using example_refused [OF s4(4,3,6)] s4(5) by auto
  let ?s6 = "s5\<lparr>fw_rx := FwEnded (Lwip (-6))\<rparr>"
  have 6: "example_step FwIdle s5 ?s6" by (rule fw_close [OF s5(2,3)])
  have 7: "example_step FwStart ?s6
      (?s6\<lparr>fw_channel := channel_new [], fw_rx := FwPolling, fw_notified := False, fw_id := 4, fw_task := 200\<rparr>)"
    by (rule fw_start) (simp_all add: MAX_TASKS_def example_net_def list_rtos_def)
  note again = fw_then [OF fw_then [OF fw_done 6] 7, unfolded append.simps]
  show ?thesis
    by (rule exI, rule exI, rule exI, rule exI, rule conjI [OF run], rule conjI [OF s5(1)], rule conjI [OF again])
      (simp add: s5(4))
qed

theorem failed_reply_stops_playback_witness:
  "\<exists>log0 s0 s1 s2 app'. example_run log0 (fw_init 3 100 []) s0
    \<and> example_step (FwEnd (Received (Time 1) 0, example_surroundings 99) (Lwip (-6))) s0 s1
    \<and> example_run [FwIdle, FwStart] s1 s2 \<and> fw_rx s2 = FwPolling \<and> app_stream (fw_app s1) = None
    \<and> stream_turn Dev example_params 0 (fw_app s2) = Some (Ok (None, app'))"
proof -
  obtain log0 s0 s1 s2 where s: "example_run log0 (fw_init 3 100 []) s0"
    "example_step (FwEnd (Received (Time 1) 0, example_surroundings 99) (Lwip (-6))) s0 s1"
    "example_run [FwIdle, FwStart] s1 s2" "fw_rx s2 = FwPolling"
    "app_tasks (fw_app s1) = [4096]" "app_tasks (fw_app s2) = [4096]"
    using example_restart by blast
  note stops = failed_reply_stops_playback [OF example_params_laws s(1-3)]
  have "\<exists>app'. stream_turn Dev example_params 0 (fw_app s2) = Some (Ok (None, app'))"
    using stops s(5,6) by (auto simp: concerns_def)
  then show ?thesis using s(1-4) stops by blast
qed

end
