(* ===== verification/BoundedFifo.thy ===== *)
theory BoundedFifo
  imports Prelude
begin

text \<open>
  The contract between a bounded FIFO and the code that moves data through it: a push accepts the
  longest prefix that fits, a pop fills the front of a destination buffer and reports how many
  elements it wrote, and neither reorders, loses or duplicates an element. The ring buffer provides
  it; the DAC driver relies on it.
\<close>

locale bounded_fifo =
  fixes invar :: "'q \<Rightarrow> bool"
    and items :: "'q \<Rightarrow> 'a list"
    and cap :: "'q \<Rightarrow> nat"
    and push :: "'a list \<Rightarrow> 'q \<Rightarrow> (nat \<times> 'q) outcome"
    and pop :: "'a list \<Rightarrow> 'q \<Rightarrow> (nat \<times> 'a list \<times> 'q) outcome"
  assumes bounded: "invar q \<Longrightarrow> length (items q) \<le> cap q"
    and push: "invar q \<Longrightarrow>
      \<exists>q'. push xs q = Ok (min (length xs) (cap q - length (items q)), q') \<and> invar q' \<and> cap q' = cap q
        \<and> items q' = items q @ take (cap q - length (items q)) xs"
    and pop: "invar q \<Longrightarrow>
      \<exists>q'. pop dst q = Ok (min (length dst) (length (items q)),
            take (length dst) (items q) @ drop (length (items q)) dst, q') \<and> invar q' \<and> cap q' = cap q
        \<and> items q' = drop (length dst) (items q)"

datatype 'a fifo_op = Push "'a list" | Pop "'a list"

fun fifo_run ::
    "('a list \<Rightarrow> 'q \<Rightarrow> (nat \<times> 'q) outcome) \<Rightarrow> ('a list \<Rightarrow> 'q \<Rightarrow> (nat \<times> 'a list \<times> 'q) outcome) \<Rightarrow>
     'a fifo_op list \<Rightarrow> 'q \<Rightarrow> ('a list \<times> 'a list \<times> 'q) outcome" where
  "fifo_run push pop [] q = Ok ([], [], q)"
| "fifo_run push pop (Push xs # ops) q =
     bind_outcome (push xs q) (\<lambda>(n, q1).
     bind_outcome (fifo_run push pop ops q1) (\<lambda>(ins, outs, q2). Ok (take n xs @ ins, outs, q2)))"
| "fifo_run push pop (Pop dst # ops) q =
     bind_outcome (pop dst q) (\<lambda>(n, dst', q1).
     bind_outcome (fifo_run push pop ops q1) (\<lambda>(ins, outs, q2). Ok (ins, take n dst' @ outs, q2)))"

context bounded_fifo begin

lemma run_fifo:
  "invar q \<Longrightarrow> \<exists>ins outs q'. fifo_run push pop ops q = Ok (ins, outs, q') \<and> invar q' \<and> cap q' = cap q
     \<and> items q @ ins = outs @ items q' \<and> length (items q') \<le> cap q"
proof (induction ops arbitrary: q)
  case Nil
  then show ?case using bounded by simp
next
  case (Cons op ops)
  show ?case
  proof (cases op)
    case (Push xs)
    obtain q1 where q1: "push xs q = Ok (min (length xs) (cap q - length (items q)), q1)"
      "invar q1" "cap q1 = cap q" "items q1 = items q @ take (cap q - length (items q)) xs"
      using push [OF Cons.prems] by blast
    from Cons.IH [OF q1(2)] obtain ins outs q2 where
      "fifo_run push pop ops q1 = Ok (ins, outs, q2)" "invar q2" "cap q2 = cap q1"
      "items q1 @ ins = outs @ items q2" "length (items q2) \<le> cap q1" by blast
    with q1 show ?thesis by (simp add: Push)
  next
    case (Pop dst)
    obtain q1 where q1: "pop dst q = Ok (min (length dst) (length (items q)),
        take (length dst) (items q) @ drop (length (items q)) dst, q1)"
      "invar q1" "cap q1 = cap q" "items q1 = drop (length dst) (items q)"
      using pop [OF Cons.prems] by blast
    from Cons.IH [OF q1(2)] obtain ins outs q2 where r:
      "fifo_run push pop ops q1 = Ok (ins, outs, q2)" "invar q2" "cap q2 = cap q1"
      "items q1 @ ins = outs @ items q2" "length (items q2) \<le> cap q1" by blast
    have "items q @ ins = take (length dst) (items q) @ outs @ items q2"
      using r(4) q1(4) by (metis append.assoc append_take_drop_id)
    with q1 r show ?thesis by (simp add: Pop min_def)
  qed
qed

end

text \<open>
  A FIFO that can also be drained in place: a closure sees the stored elements as two slices and
  says how many it consumed. What it computes must not depend on where the slices are split.
\<close>

locale inplace_fifo = bounded_fifo invar items cap push pop
  for invar :: "'q \<Rightarrow> bool" and items :: "'q \<Rightarrow> 'a list" and cap :: "'q \<Rightarrow> nat"
    and push :: "'a list \<Rightarrow> 'q \<Rightarrow> (nat \<times> 'q) outcome"
    and pop :: "'a list \<Rightarrow> 'q \<Rightarrow> (nat \<times> 'a list \<times> 'q) outcome" +
  fixes consume :: "('a list \<Rightarrow> 'a list \<Rightarrow> nat \<times> 'b) \<Rightarrow> 'q \<Rightarrow> (nat \<times> 'b \<times> 'q) outcome"
  assumes consume: "invar q \<Longrightarrow> (\<And>l r. func l r = (n (l @ r), res (l @ r))) \<Longrightarrow>
      (\<And>xs. n xs \<le> length xs) \<Longrightarrow>
      \<exists>q'. consume func q = Ok (n (items q), res (items q), q') \<and> invar q' \<and> cap q' = cap q
        \<and> items q' = drop (n (items q)) (items q)"

end
