(* ===== verification/RingBuffer.thy ===== *)
theory RingBuffer
  imports BoundedFifo
begin

text \<open>
  The lock-free ring buffer of \<^verbatim>\<open>src/sync/ringbuffer.rs\<close>, one call at a time (the interleaving of a
  reader with a writer is the subject of \<open>RingBufferSpsc\<close>). The const generic \<open>N\<close> is the length
  of the buffer. \<open>reader = writer\<close> means empty, so at most \<open>N - 1\<close> elements are ever stored.
  Indices are natural numbers: every sum of indices here stays below \<open>2 * N\<close>.
\<close>

subsection \<open>State\<close>

record 'a ring_buffer =
  rb_reader :: nat
  rb_writer :: nat
  rb_buffer :: "'a list"

definition new_with_buffer :: "'a list \<Rightarrow> 'a ring_buffer" where
  "new_with_buffer buffer = \<lparr>rb_reader = 0, rb_writer = 0, rb_buffer = buffer\<rparr>"

definition rb_reset :: "'a ring_buffer \<Rightarrow> 'a ring_buffer" where
  "rb_reset rb = rb\<lparr>rb_reader := 0, rb_writer := 0\<rparr>"

definition buffer_len :: "'a ring_buffer \<Rightarrow> nat" where
  "buffer_len rb = length (rb_buffer rb)"

subsection \<open>Slices of the ring\<close>

definition reader_slices :: "nat \<Rightarrow> nat \<Rightarrow> nat \<Rightarrow> region \<times> region" where
  "reader_slices len start stop =
     (if start \<le> stop then ((start, stop - start), (0, 0))
      else ((start, len - start), (0, stop)))"

definition writer_slices :: "nat \<Rightarrow> nat \<Rightarrow> nat \<Rightarrow> region \<times> region" where
  "writer_slices len start stop =
     (if start < stop then ((start, stop - start), (0, 0))
      else ((start, len - start), (0, stop)))"

text \<open>The new contents of the destination slices, after how many elements were copied.\<close>

definition copy_to_split :: "'a list \<Rightarrow> 'a list \<Rightarrow> 'a list \<Rightarrow> nat \<times> 'a list \<times> 'a list" where
  "copy_to_split src dst_left dst_right =
     (let nleft = min (length src) (length dst_left);
          left' = take nleft src @ drop nleft dst_left;
          src' = drop nleft src;
          nright = min (length src') (length dst_right);
          right' = take nright src' @ drop nright dst_right
      in (nleft + nright, left', right'))"

definition copy_from_split :: "'a list \<Rightarrow> 'a list \<Rightarrow> 'a list \<Rightarrow> nat \<times> 'a list" where
  "copy_from_split src_left src_right dst =
     (let nleft = min (length dst) (length src_left);
          dst1 = take nleft src_left @ drop nleft dst;
          rest = drop nleft dst1;
          nright = min (length rest) (length src_right)
      in (nleft + nright, take nleft dst1 @ take nright src_right @ drop nright rest))"

subsection \<open>Operations\<close>

text \<open>
  \<open>read_in_place\<close> hands the two readable slices to a closure, which returns how many elements it
  consumed; what else the closure computes (it may write to captured buffers) is its second result.
\<close>

definition read_in_place ::
    "('a list \<Rightarrow> 'a list \<Rightarrow> nat \<times> 'b) \<Rightarrow> 'a ring_buffer \<Rightarrow> (nat \<times> 'b \<times> 'a ring_buffer) outcome" where
  "read_in_place func rb =
     (let reader = rb_reader rb; writer = rb_writer rb;
          (left, right) = reader_slices (buffer_len rb) reader writer;
          (copied, res) = func (load_region (rb_buffer rb) left) (load_region (rb_buffer rb) right)
      in bind_outcome (rem_nat (reader + copied) (buffer_len rb))
           (\<lambda>reader'. Ok (copied, res, rb\<lparr>rb_reader := reader'\<rparr>)))"

definition rb_read :: "'a list \<Rightarrow> 'a ring_buffer \<Rightarrow> (nat \<times> 'a list \<times> 'a ring_buffer) outcome" where
  "rb_read data rb = read_in_place (\<lambda>left right. copy_from_split left right data) rb"

definition rb_write :: "'a list \<Rightarrow> 'a ring_buffer \<Rightarrow> (nat \<times> 'a ring_buffer) outcome" where
  "rb_write data rb =
     (let reader = rb_reader rb; writer = rb_writer rb;
          (left, right) = writer_slices (buffer_len rb) writer reader;
          available = snd left + snd right;
          data' = (if length data \<ge> available then take (available - 1) data else data);
          (copied, left', right') =
            copy_to_split data' (load_region (rb_buffer rb) left) (load_region (rb_buffer rb) right);
          buf = store_region (store_region (rb_buffer rb) left left') right right'
      in bind_outcome (rem_nat (writer + copied) (buffer_len rb))
           (\<lambda>writer'. Ok (copied, rb\<lparr>rb_writer := writer', rb_buffer := buf\<rparr>)))"

definition rb_fill :: "'a \<Rightarrow> 'a ring_buffer \<Rightarrow> 'a ring_buffer outcome" where
  "rb_fill value rb =
     (let reader = rb_reader rb; writer = rb_writer rb;
          (left, right) = writer_slices (buffer_len rb) writer reader;
          buf = store_region (store_region (rb_buffer rb) left (replicate (snd left) value))
                  right (replicate (snd right) value);
          copied = (snd left + snd right) - 1
      in bind_outcome (rem_nat (writer + copied) (buffer_len rb))
           (\<lambda>writer'. Ok (rb\<lparr>rb_writer := writer', rb_buffer := buf\<rparr>)))"

subsection \<open>The ring as a list\<close>

text \<open>
  \<open>ring_dist N a b\<close> is how far index \<open>b\<close> lies ahead of \<open>a\<close> on the ring. The stored elements
  are the ones from the read index up to the write index.
\<close>


definition ring_dist :: "nat \<Rightarrow> nat \<Rightarrow> nat \<Rightarrow> nat" where
  "ring_dist N a b = (b + N - a) mod N"

lemma ring_dist_cases:
  "a < N \<Longrightarrow> b < N \<Longrightarrow> ring_dist N a b = (if a \<le> b then b - a else b + N - a)"
  by (auto simp: ring_dist_def mod_if)

definition rb_wf :: "'a ring_buffer \<Rightarrow> bool" where
  "rb_wf rb \<longleftrightarrow> rb_reader rb < buffer_len rb \<and> rb_writer rb < buffer_len rb"

definition rb_count :: "'a ring_buffer \<Rightarrow> nat" where
  "rb_count rb = ring_dist (buffer_len rb) (rb_reader rb) (rb_writer rb)"

definition rb_contents :: "'a ring_buffer \<Rightarrow> 'a list" where
  "rb_contents rb =
     map (\<lambda>i. rb_buffer rb ! ((rb_reader rb + i) mod buffer_len rb)) [0..<rb_count rb]"

definition rb_free :: "'a ring_buffer \<Rightarrow> nat" where
  "rb_free rb = buffer_len rb - 1 - rb_count rb"

lemma ring_dist_add:
  assumes "a < N" "b < N" "ring_dist N a b + k < N"
  shows "ring_dist N a ((b + k) mod N) = ring_dist N a b + k"
  using assms by (auto simp: ring_dist_cases mod_if split: if_splits)

lemma ring_dist_less: "0 < N \<Longrightarrow> ring_dist N a b < N"
  by (simp add: ring_dist_def)

lemma ring_dist_forward:
  assumes "a < N" "i < N"
  shows "ring_dist N a ((a + i) mod N) = i"
  using assms by (auto simp: ring_dist_cases mod_if split: if_splits)

lemma length_rb_contents [simp]: "length (rb_contents rb) = rb_count rb"
  by (simp add: rb_contents_def)

lemma reader_slices_in:
  assumes "start < length buf" "stop < length buf" "reader_slices (length buf) start stop = (l, r)"
  shows "region_in buf l" "region_in buf r" "snd l + snd r = ring_dist (length buf) start stop"
  using assms by (auto simp: reader_slices_def region_in_def ring_dist_cases split: if_splits)

lemma reader_slices_contents:
  assumes "start < length buf" "stop < length buf" "reader_slices (length buf) start stop = (l, r)"
  shows "load_region buf l @ load_region buf r =
    map (\<lambda>i. buf ! ((start + i) mod length buf)) [0..<ring_dist (length buf) start stop]"
proof (rule nth_equalityI)
  note io = reader_slices_in [OF assms]
  show "length (load_region buf l @ load_region buf r) =
      length (map (\<lambda>i. buf ! ((start + i) mod length buf)) [0..<ring_dist (length buf) start stop])"
    using io by (simp add: length_load_region)
  fix i
  assume "i < length (load_region buf l @ load_region buf r)"
  then have i: "i < snd l + snd r"
    using io by (simp add: length_load_region)
  have mod: "(start + i) mod length buf = (if start + i < length buf then start + i else start + i - length buf)"
    using assms(1) i io ring_dist_less [of "length buf" start stop]
    by (intro mod_add_less_twice) linarith+
  have nth: "(load_region buf l @ load_region buf r) ! i =
      (if i < snd l then buf ! (fst l + i) else buf ! (fst r + (i - snd l)))"
    using i io by (simp add: nth_append length_load_region nth_load_region)
  have "(load_region buf l @ load_region buf r) ! i = buf ! ((start + i) mod length buf)"
    using assms i unfolding nth mod by (auto simp: reader_slices_def add.commute split: if_splits)
  then show "(load_region buf l @ load_region buf r) ! i =
      map (\<lambda>i. buf ! ((start + i) mod length buf)) [0..<ring_dist (length buf) start stop] ! i"
    using i io by simp
qed

lemma writer_slices_in:
  assumes "start < length buf" "stop < length buf" "writer_slices (length buf) start stop = (l, r)"
  shows "region_in buf l" "region_in buf r"
    "snd l + snd r = length buf - ring_dist (length buf) stop start"
  using assms by (auto simp: writer_slices_def region_in_def ring_dist_cases split: if_splits)

lemma nth_store_writer_slices:
  assumes "start < length buf" "stop < length buf" "writer_slices (length buf) start stop = (l, r)"
    and "length xs = snd l" "length ys = snd r" "j < length buf"
  shows "store_region (store_region buf l xs) r ys ! j =
    (if ring_dist (length buf) start j < snd l + snd r
     then (xs @ ys) ! ring_dist (length buf) start j else buf ! j)"
proof -
  note io = writer_slices_in [OF assms(1,2,3)]
  have len: "length (store_region buf l xs) = length buf"
    using io assms(4) by (simp add: length_store_region)
  have r': "region_in (store_region buf l xs) r"
    using io by (simp add: region_in_def len)
  have "store_region (store_region buf l xs) r ys ! j =
      (if fst r \<le> j \<and> j < fst r + snd r then ys ! (j - fst r)
       else if fst l \<le> j \<and> j < fst l + snd l then xs ! (j - fst l) else buf ! j)"
    using io assms(4,5,6) r' len by (simp add: nth_store_region)
  then show ?thesis
    using assms by (auto simp: writer_slices_def ring_dist_cases nth_append split: if_splits)
qed

lemma ring_dist_between:
  assumes "r < N" "w < N" "i < N"
  shows "ring_dist N w ((r + i) mod N) =
    (if ring_dist N r w \<le> i then i - ring_dist N r w else N + i - ring_dist N r w)"
  using assms by (auto simp: ring_dist_cases mod_if split: if_splits)

lemma copy_to_split_spec:
  assumes "copy_to_split src dl dr = (n, l', r')"
  shows "n = min (length src) (length dl + length dr)"
    and "length l' = length dl" "length r' = length dr"
    and "l' @ r' = take n src @ drop n (dl @ dr)"
  using assms by (auto simp: copy_to_split_def Let_def min_def take_add[symmetric] split: if_splits)

lemma copy_from_split_spec:
  assumes "copy_from_split sl sr dst = (n, dst')"
  shows "n = min (length dst) (length sl + length sr)"
    and "dst' = take n (sl @ sr) @ drop n dst"
  using assms by (auto simp: copy_from_split_def Let_def min_def add.commute split: if_splits)

lemma rb_count_less: "rb_wf rb \<Longrightarrow> rb_count rb < buffer_len rb"
  by (auto simp: rb_wf_def rb_count_def intro: ring_dist_less)

text \<open>Consuming: the read index moves past the first \<open>k\<close> elements.\<close>

lemma rb_contents_advance:
  assumes wf: "rb_wf rb" and k: "k \<le> rb_count rb"
  defines "rb' \<equiv> rb\<lparr>rb_reader := (rb_reader rb + k) mod buffer_len rb\<rparr>"
  shows "rb_wf rb' \<and> rb_contents rb' = drop k (rb_contents rb) \<and> rb_count rb' = rb_count rb - k
    \<and> buffer_len rb' = buffer_len rb"
proof -
  define N where "N = buffer_len rb"
  define r where "r = rb_reader rb"
  define w where "w = rb_writer rb"
  have N: "length (rb_buffer rb) = N" "r < N" "w < N" "rb_count rb < N"
    using wf rb_count_less [OF wf] by (simp_all add: N_def r_def w_def rb_wf_def buffer_len_def)
  have "rb_count rb = ring_dist N r w" by (simp add: rb_count_def N_def r_def w_def)
  then have cnt: "rb_count rb' = rb_count rb - k"
    using N k by (auto simp: rb_count_def rb'_def buffer_len_def w_def r_def ring_dist_cases mod_if
        split: if_splits)
  have "rb_contents rb' = drop k (rb_contents rb)"
  proof (rule nth_equalityI)
    show "length (rb_contents rb') = length (drop k (rb_contents rb))" using cnt by simp
    fix i
    assume "i < length (rb_contents rb')"
    then have i: "i < rb_count rb - k" using cnt by simp
    have "((r + k) mod N + i) mod N = (r + (k + i)) mod N"
      by (simp add: mod_add_left_eq add.assoc)
    moreover have "k + i < rb_count rb" using i by simp
    ultimately show "rb_contents rb' ! i = drop k (rb_contents rb) ! i"
      using i cnt N by (simp add: rb_contents_def rb'_def buffer_len_def r_def)
  qed
  then show ?thesis
    using N cnt by (auto simp: rb_wf_def rb'_def buffer_len_def w_def)
qed

lemma read_in_place_eq:
  assumes wf: "rb_wf rb" and func: "\<And>l r. func l r = (n (l @ r), res (l @ r))"
  shows "read_in_place func rb = Ok (n (rb_contents rb), res (rb_contents rb),
    rb\<lparr>rb_reader := (rb_reader rb + n (rb_contents rb)) mod buffer_len rb\<rparr>)"
proof -
  obtain left right where
    sl: "reader_slices (buffer_len rb) (rb_reader rb) (rb_writer rb) = (left, right)"
    by (cases "reader_slices (buffer_len rb) (rb_reader rb) (rb_writer rb)")
  have "load_region (rb_buffer rb) left @ load_region (rb_buffer rb) right = rb_contents rb"
    using reader_slices_contents [of "rb_reader rb" "rb_buffer rb" "rb_writer rb" left right] wf sl
    by (simp add: rb_contents_def rb_count_def buffer_len_def rb_wf_def)
  moreover have "0 < buffer_len rb" using wf by (auto simp: rb_wf_def)
  ultimately show ?thesis using sl by (simp add: read_in_place_def func)
qed

lemma read_in_place_spec:
  assumes wf: "rb_wf rb"
    and func: "\<And>l r. func l r = (n (l @ r), res (l @ r))" "\<And>xs. n xs \<le> length xs"
  shows "\<exists>rb'. read_in_place func rb = Ok (n (rb_contents rb), res (rb_contents rb), rb')
    \<and> rb_wf rb' \<and> rb_contents rb' = drop (n (rb_contents rb)) (rb_contents rb)
    \<and> buffer_len rb' = buffer_len rb"
  using rb_contents_advance [OF wf, of "n (rb_contents rb)"] func(2) [of "rb_contents rb"]
    read_in_place_eq [OF wf, of func n res, OF func(1)] by simp

text \<open>
  What extends the contents: new elements at the \<open>k\<close> positions from the write index on, the old
  elements kept, and the write index moved by \<open>k\<close>. Both \<open>write\<close> and \<open>fill\<close> are instances.
\<close>

lemma rb_contents_extend:
  fixes rb :: "'a ring_buffer"
  defines "N \<equiv> buffer_len rb" and "w \<equiv> rb_writer rb"
  assumes wf: "rb_wf rb" and len: "length buf' = N" "length xs \<le> rb_free rb"
    and new: "\<And>j. j < N \<Longrightarrow> ring_dist N w j < length xs \<Longrightarrow> buf' ! j = xs ! ring_dist N w j"
    and old: "\<And>j. j < N \<Longrightarrow> N - rb_count rb \<le> ring_dist N w j \<Longrightarrow> buf' ! j = rb_buffer rb ! j"
  defines "rb' \<equiv> rb\<lparr>rb_writer := (w + length xs) mod N, rb_buffer := buf'\<rparr>"
  shows "rb_wf rb' \<and> rb_contents rb' = rb_contents rb @ xs \<and> buffer_len rb' = N"
proof -
  define r where "r = rb_reader rb"
  have N: "r < N" "w < N" "rb_count rb < N"
    using wf rb_count_less [OF wf] by (simp_all add: N_def r_def w_def rb_wf_def)
  have c: "ring_dist N r w = rb_count rb" by (simp add: rb_count_def N_def r_def w_def)
  have k: "rb_count rb + length xs < N" using len(2) N(3) by (auto simp: rb_free_def N_def)
  have cnt: "rb_count rb' = rb_count rb + length xs"
    using ring_dist_add [of r N w "length xs"] N k c len(1)
    by (simp add: rb_count_def rb'_def buffer_len_def r_def)
  have "rb_contents rb' = rb_contents rb @ xs"
  proof (rule nth_equalityI)
    show "length (rb_contents rb') = length (rb_contents rb @ xs)"
      using cnt by simp
    fix i
    assume "i < length (rb_contents rb')"
    then have i: "i < rb_count rb + length xs" using cnt by simp
    then have iN: "i < N" using k by linarith
    have d: "ring_dist N w ((r + i) mod N) =
        (if rb_count rb \<le> i then i - rb_count rb else N + i - rb_count rb)"
      using ring_dist_between [OF N(1) N(2) iN] c by simp
    have "rb_contents rb' ! i = buf' ! ((r + i) mod N)"
      using i cnt len(1) by (simp add: rb_contents_def rb'_def buffer_len_def r_def)
    also have "\<dots> = (if rb_count rb \<le> i then xs ! (i - rb_count rb) else rb_buffer rb ! ((r + i) mod N))"
      using new [of "(r + i) mod N"] old [of "(r + i) mod N"] iN d i k N(1) by auto
    also have "\<dots> = (rb_contents rb @ xs) ! i"
      using i by (auto simp: nth_append rb_contents_def r_def N_def)
    finally show "rb_contents rb' ! i = (rb_contents rb @ xs) ! i" .
  qed
  moreover have "rb_wf rb'" "buffer_len rb' = N"
    using N len(1) mod_less_divisor [of N "w + length xs"]
    by (auto simp: rb_wf_def rb'_def buffer_len_def r_def)
  ultimately show ?thesis by simp
qed

lemma rb_write_spec:
  assumes wf: "rb_wf rb"
  shows "\<exists>rb'. rb_write data rb = Ok (min (length data) (rb_free rb), rb')
    \<and> rb_wf rb' \<and> rb_contents rb' = rb_contents rb @ take (rb_free rb) data
    \<and> buffer_len rb' = buffer_len rb"
proof -
  define N where "N = buffer_len rb"
  define w where "w = rb_writer rb"
  define r where "r = rb_reader rb"
  define xs where "xs = take (rb_free rb) data"
  let ?buf = "rb_buffer rb"
  have N: "length ?buf = N" "r < N" "w < N" "rb_count rb < N"
    using wf rb_count_less [OF wf] by (simp_all add: N_def r_def w_def rb_wf_def buffer_len_def)
  obtain left right where sl: "writer_slices N w r = (left, right)"
    by (cases "writer_slices N w r")
  note io = writer_slices_in [of w ?buf r left right, unfolded N, OF N(3) N(2) sl]
  have avail: "snd left + snd right = N - rb_count rb"
    using io(3) by (simp add: rb_count_def N_def w_def r_def)
  have data': "(if length data \<ge> snd left + snd right
      then take (snd left + snd right - 1) data else data) = xs"
    using avail N(4) by (auto simp: xs_def rb_free_def N_def)
  obtain n left' right' where
    cp: "copy_to_split xs (load_region ?buf left) (load_region ?buf right) = (n, left', right')"
    by (cases "copy_to_split xs (load_region ?buf left) (load_region ?buf right)") auto
  note cps = copy_to_split_spec [OF cp]
  have k: "length xs < snd left + snd right" "length xs \<le> rb_free rb"
    using avail N(4) by (auto simp: xs_def rb_free_def N_def)
  have n: "n = length xs"
    using cps(1) k(1) io(1,2) by (simp add: length_load_region)
  have len': "length left' = snd left" "length right' = snd right"
    using cps(2,3) io(1,2) by (simp_all add: length_load_region)
  define buf' where "buf' = store_region (store_region ?buf left left') right right'"
  define rb' where "rb' = rb\<lparr>rb_writer := (w + length xs) mod N, rb_buffer := buf'\<rparr>"
  have lenb: "length buf' = N"
    using io(1,2) len' N(1) by (simp add: buf'_def length_store_region region_in_def)
  have op: "rb_write data rb = Ok (length xs, rb')"
    using N(1,2) sl cp n data'
    by (simp add: rb_write_def Let_def buffer_len_def w_def[symmetric] r_def[symmetric]
        buf'_def rb'_def)
  have new: "buf' ! j = xs ! ring_dist N w j" if "j < N" "ring_dist N w j < length xs" for j
  proof -
    have "buf' ! j = (left' @ right') ! ring_dist N w j"
      using nth_store_writer_slices [of w ?buf r left right left' right' j] N(1-3) sl len' that k(1)
      by (simp add: buf'_def)
    then show ?thesis
      using cps(4) n that by (simp add: nth_append)
  qed
  have old: "buf' ! j = ?buf ! j" if "j < N" "N - rb_count rb \<le> ring_dist N w j" for j
    using nth_store_writer_slices [of w ?buf r left right left' right' j] N(1-3) sl len' that avail
    by (simp add: buf'_def)
  show ?thesis
    using rb_contents_extend [OF wf, of buf' xs] lenb k(2) new old op
    by (simp add: N_def w_def rb'_def xs_def min.commute)
qed

lemma rb_read_eq:
  fixes rb :: "'a ring_buffer" and data :: "'a list"
  assumes "rb_wf rb"
  defines "m \<equiv> min (length data) (rb_count rb)"
  shows "rb_read data rb = Ok (m, take m (rb_contents rb) @ drop m data,
    rb\<lparr>rb_reader := (rb_reader rb + m) mod buffer_len rb\<rparr>)"
proof -
  have func: "copy_from_split l r data =
      (min (length data) (length (l @ r)),
       take (min (length data) (length (l @ r))) (l @ r) @ drop (min (length data) (length (l @ r))) data)"
    for l r :: "'a list"
    using copy_from_split_spec [of l r data] by (cases "copy_from_split l r data") simp
  show ?thesis
    using read_in_place_eq [OF assms(1), where func = "\<lambda>l r. copy_from_split l r data"
        and n = "\<lambda>xs. min (length data) (length xs)"
        and res = "\<lambda>xs. take (min (length data) (length xs)) xs @ drop (min (length data) (length xs)) data",
        OF func]
    by (simp add: rb_read_def m_def)
qed

lemma rb_read_spec:
  fixes rb :: "'a ring_buffer" and data :: "'a list"
  assumes "rb_wf rb"
  defines "m \<equiv> min (length data) (rb_count rb)"
  shows "\<exists>rb'. rb_read data rb = Ok (m, take m (rb_contents rb) @ drop m data, rb')
    \<and> rb_wf rb' \<and> rb_contents rb' = drop m (rb_contents rb) \<and> buffer_len rb' = buffer_len rb"
  using rb_read_eq [OF assms(1), of data] rb_contents_advance [OF assms(1), of m]
  by (simp add: m_def)

lemma rb_reset_spec:
  "0 < buffer_len rb \<Longrightarrow>
   rb_wf (rb_reset rb) \<and> rb_contents (rb_reset rb) = [] \<and> buffer_len (rb_reset rb) = buffer_len rb"
  by (simp add: rb_wf_def rb_reset_def buffer_len_def rb_contents_def rb_count_def ring_dist_def)

text \<open>Writing a run of copies of one value is what \<open>fill\<close> does, except for the one reserved slot.\<close>

lemma rb_fill_spec:
  assumes wf: "rb_wf rb"
  shows "\<exists>rb'. rb_fill v rb = Ok rb' \<and> rb_wf rb'
    \<and> rb_contents rb' = rb_contents rb @ replicate (rb_free rb) v \<and> buffer_len rb' = buffer_len rb"
proof -
  define N where "N = buffer_len rb"
  define w where "w = rb_writer rb"
  define r where "r = rb_reader rb"
  define k where "k = rb_free rb"
  let ?buf = "rb_buffer rb"
  have N: "length ?buf = N" "r < N" "w < N" "rb_count rb < N"
    using wf rb_count_less [OF wf] by (simp_all add: N_def r_def w_def rb_wf_def buffer_len_def)
  obtain left right where sl: "writer_slices N w r = (left, right)"
    by (cases "writer_slices N w r")
  note io = writer_slices_in [of w ?buf r left right, unfolded N, OF N(3) N(2) sl]
  have avail: "snd left + snd right = N - rb_count rb"
    using io(3) by (simp add: rb_count_def N_def w_def r_def)
  have k: "snd left + snd right - 1 = k" "rb_count rb + k < N" "k < snd left + snd right"
    using avail N(4) by (auto simp: k_def rb_free_def N_def)
  define xs where "xs = replicate (snd left) v"
  define ys where "ys = replicate (snd right) v"
  define buf' where "buf' = store_region (store_region ?buf left xs) right ys"
  have lenb: "length buf' = N"
    using io(1,2) N(1) by (simp add: buf'_def xs_def ys_def length_store_region region_in_def)
  define rb' where "rb' = rb\<lparr>rb_writer := (w + k) mod N, rb_buffer := buf'\<rparr>"
  have op: "rb_fill v rb = Ok rb'"
    using N sl k(1)
    by (simp add: rb_fill_def Let_def buffer_len_def w_def[symmetric] r_def[symmetric]
        buf'_def xs_def ys_def rb'_def)
  have nth: "buf' ! j = (if ring_dist N w j < snd left + snd right then v else ?buf ! j)"
    if "j < N" for j
    using nth_store_writer_slices [of w ?buf r left right xs ys j] N(1-3) sl that
    by (auto simp: buf'_def xs_def ys_def replicate_add [symmetric])
  show ?thesis
    using rb_contents_extend [OF wf, of buf' "replicate k v"] lenb nth k avail op
    by (simp add: N_def w_def rb'_def k_def)
qed

text \<open>
  The slice copies of \<open>write\<close> amount to storing one element after the other from the write index
  on, which is how the interleaved model performs them.
\<close>

lemma nth_load_writer_slices:
  assumes "start < length buf" "stop < length buf" "writer_slices (length buf) start stop = (l, r)"
    and "j < length buf" "ring_dist (length buf) start j < snd l + snd r"
  shows "(load_region buf l @ load_region buf r) ! ring_dist (length buf) start j = buf ! j"
proof -
  note io = writer_slices_in [OF assms(1,2,3)]
  let ?d = "ring_dist (length buf) start j"
  have "(load_region buf l @ load_region buf r) ! ?d =
      (if ?d < snd l then buf ! (fst l + ?d) else buf ! (fst r + (?d - snd l)))"
    using assms(5) io by (simp add: nth_append length_load_region nth_load_region)
  then show ?thesis
    using assms by (auto simp: writer_slices_def ring_dist_cases split: if_splits)
qed

fun put_first :: "nat \<Rightarrow> 'a list \<Rightarrow> nat \<Rightarrow> 'a list \<Rightarrow> 'a list" where
  "put_first w xs 0 buf = buf"
| "put_first w xs (Suc k) buf = (put_first w xs k buf)[(w + k) mod length buf := xs ! k]"

lemma length_put_first [simp]: "length (put_first w xs k buf) = length buf"
  by (induction k) auto

lemma nth_put_first:
  assumes "w < length buf" "k \<le> length buf" "j < length buf"
  shows "put_first w xs k buf ! j =
    (if ring_dist (length buf) w j < k then xs ! ring_dist (length buf) w j else buf ! j)"
  using assms(2)
proof (induction k)
  case 0
  then show ?case by simp
next
  case (Suc k)
  have j: "j = (w + k) mod length buf \<longleftrightarrow> ring_dist (length buf) w j = k"
    using assms(1,3) Suc.prems by (auto simp: ring_dist_cases mod_if)
  show ?case
    using Suc j assms(3) by (cases "ring_dist (length buf) w j = k") (auto simp: nth_list_update_neq)
qed

lemma rb_write_elementwise:
  fixes data :: "'a list" and rb :: "'a ring_buffer"
  assumes wf: "rb_wf rb"
  defines "xs \<equiv> take (rb_free rb) data"
  shows "rb_write data rb = Ok (length xs, rb\<lparr>
    rb_writer := (rb_writer rb + length xs) mod buffer_len rb,
    rb_buffer := put_first (rb_writer rb) xs (length xs) (rb_buffer rb)\<rparr>)"
proof -
  define N where "N = buffer_len rb"
  define w where "w = rb_writer rb"
  define r where "r = rb_reader rb"
  let ?buf = "rb_buffer rb"
  have N: "length ?buf = N" "r < N" "w < N" "rb_count rb < N"
    using wf rb_count_less [OF wf] by (simp_all add: N_def r_def w_def rb_wf_def buffer_len_def)
  obtain left right where sl: "writer_slices N w r = (left, right)"
    by (cases "writer_slices N w r")
  note io = writer_slices_in [of w ?buf r left right, unfolded N, OF N(3) N(2) sl]
  have avail: "snd left + snd right = N - rb_count rb"
    using io(3) by (simp add: rb_count_def N_def w_def r_def)
  have k: "length xs < snd left + snd right" "length xs \<le> N"
    using avail N(4) by (auto simp: xs_def rb_free_def N_def)
  have data': "(if length data \<ge> snd left + snd right
      then take (snd left + snd right - 1) data else data) = xs"
    using avail N(4) by (auto simp: xs_def rb_free_def N_def)
  obtain n left' right' where
    cp: "copy_to_split xs (load_region ?buf left) (load_region ?buf right) = (n, left', right')"
    by (cases "copy_to_split xs (load_region ?buf left) (load_region ?buf right)") auto
  note cps = copy_to_split_spec [OF cp]
  have n: "n = length xs"
    using cps(1) k(1) io(1,2) by (simp add: length_load_region)
  have len': "length left' = snd left" "length right' = snd right"
    using cps(2,3) io(1,2) by (simp_all add: length_load_region)
  have "store_region (store_region ?buf left left') right right' = put_first w xs (length xs) ?buf"
  proof (rule nth_equalityI)
    show "length (store_region (store_region ?buf left left') right right') =
        length (put_first w xs (length xs) ?buf)"
      using io(1,2) len' by (simp add: length_store_region region_in_def)
    fix j
    assume "j < length (store_region (store_region ?buf left left') right right')"
    then have j: "j < N"
      using io(1,2) len' N(1) by (simp add: length_store_region region_in_def)
    have "(left' @ right') ! ring_dist N w j =
        (if ring_dist N w j < length xs then xs ! ring_dist N w j else ?buf ! j)"
      if d: "ring_dist N w j < snd left + snd right"
    proof -
      have "(left' @ right') ! ring_dist N w j = (if ring_dist N w j < length xs
          then xs ! ring_dist N w j else (load_region ?buf left @ load_region ?buf right) ! ring_dist N w j)"
        unfolding cps(4) n using k(1) d io(1,2)
        by (intro nth_overwrite_prefix) (simp_all add: length_load_region)
      then show ?thesis
        using nth_load_writer_slices [of w ?buf r left right j] N(1-3) sl j d by simp
    qed
    then show "store_region (store_region ?buf left left') right right' ! j =
        put_first w xs (length xs) ?buf ! j"
      using nth_store_writer_slices [of w ?buf r left right left' right' j]
        nth_put_first [of w ?buf "length xs" j xs] N(1-3) sl len' j k by auto
  qed
  then show ?thesis
    using N(1,2) sl cp n data'
    by (simp add: rb_write_def Let_def buffer_len_def w_def[symmetric] r_def[symmetric])
qed

subsection \<open>The ring buffer as a provider of the FIFO contract\<close>

definition rb_cap :: "'a ring_buffer \<Rightarrow> nat" where
  "rb_cap rb = buffer_len rb - 1"

lemma rb_free_cap: "rb_free rb = rb_cap rb - length (rb_contents rb)"
  by (simp add: rb_free_def rb_cap_def)

interpretation ring: bounded_fifo rb_wf rb_contents rb_cap rb_write rb_read
proof (unfold_locales, goal_cases)
  case (1 q)
  then show ?case using rb_count_less [of q] by (simp add: rb_cap_def)
next
  case (2 q xs)
  then show ?case using rb_write_spec [of q xs] by (auto simp: rb_free_cap rb_cap_def)
next
  case (3 q dst)
  then show ?case using rb_read_spec [of q dst] by (auto simp: rb_cap_def min_def)
qed

interpretation ring_inplace: inplace_fifo rb_wf rb_contents rb_cap rb_write rb_read read_in_place
proof (unfold_locales, goal_cases)
  case (1 q func n res)
  then show ?case using read_in_place_spec [of q func n res] by (auto simp: rb_cap_def)
qed

subsection \<open>Properties\<close>

text \<open>Any sequence of writes and reads on a well-formed ring runs without a panic, accepts at
  each write the longest prefix that fits, and delivers exactly the accepted elements in order: what
  was stored plus what was accepted is what was read plus what is still stored. At most \<open>N - 1\<close>
  elements are ever stored.\<close>

theorem ring_buffer_run_fifo:
  assumes "rb_wf rb"
  shows "\<exists>ins outs rb'. fifo_run rb_write rb_read ops rb = Ok (ins, outs, rb') \<and> rb_wf rb'
    \<and> rb_contents rb @ ins = outs @ rb_contents rb' \<and> length (rb_contents rb') < buffer_len rb"
proof -
  have "0 < buffer_len rb" using assms by (auto simp: rb_wf_def)
  then show ?thesis using ring.run_fifo [OF assms, of ops] by (fastforce simp: rb_cap_def)
qed

theorem ring_buffer_run_fifo_witness:
  "\<exists>ins outs rb'. fifo_run rb_write rb_read [Push [1, 2, 3 :: nat], Pop [0, 0], Push [4]]
      (new_with_buffer [0, 0, 0]) = Ok (ins, outs, rb') \<and> rb_wf rb'
    \<and> rb_contents (new_with_buffer [0, 0, 0]) @ ins = outs @ rb_contents rb'
    \<and> length (rb_contents rb') < buffer_len (new_with_buffer [0, 0, 0 :: nat])"
  by (rule ring_buffer_run_fifo) (simp add: rb_wf_def new_with_buffer_def buffer_len_def)

text \<open>One write stores \<open>min |data| (N - 1 - stored)\<close> elements behind the stored ones, one read
  takes \<open>min |data| stored\<close> elements from their front and leaves the rest of its destination as it
  was.\<close>

theorem ring_buffer_write_read:
  assumes "rb_wf rb"
  shows "(\<exists>rb'. rb_write data rb = Ok (min (length data) (buffer_len rb - 1 - rb_count rb), rb')
      \<and> rb_contents rb' = rb_contents rb @ take (buffer_len rb - 1 - rb_count rb) data)
    \<and> (\<exists>rb'. rb_read data rb = Ok (min (length data) (rb_count rb),
        take (length data) (rb_contents rb) @ drop (rb_count rb) data, rb')
      \<and> rb_contents rb' = drop (length data) (rb_contents rb))"
  using rb_write_spec [OF assms, of data] rb_read_spec [OF assms, of data]
  by (auto simp: rb_free_def min_def)

theorem ring_buffer_write_read_witness:
  "(\<exists>rb'. rb_write [5, 6, 7 :: nat] \<lparr>rb_reader = 2, rb_writer = 0, rb_buffer = [0, 0, 9]\<rparr>
        = Ok (1, rb') \<and> rb_contents rb' = [9, 5])"
proof -
  let ?rb = "\<lparr>rb_reader = 2, rb_writer = 0, rb_buffer = [0, 0, 9 :: nat]\<rparr>"
  have "rb_wf ?rb" "rb_count ?rb = 1" "buffer_len ?rb = 3" "rb_contents ?rb = [9]"
    by (simp_all add: rb_wf_def buffer_len_def rb_count_def ring_dist_def rb_contents_def)
  then show ?thesis using ring_buffer_write_read [of ?rb "[5, 6, 7]"] by auto
qed

end
