(* ===== verification/Dac.thy ===== *)
theory Dac
  imports RingBuffer Waker Stats
begin

text \<open>
  The driver of the built-in DAC (\<^verbatim>\<open>src/platform/dac.rs\<close>): the conversion of 8-bit frames to the
  words that the DMA engine plays, the interrupt that refills a DMA buffer from the ring, the
  asynchronous \<^verbatim>\<open>write\<close> that fills the ring, and the life of the driver handle. The ESP-IDF driver
  is a parameter \<open>drv\<close>: what \<^verbatim>\<open>esp!\<close> makes of the result of each call, given the calls before it.
\<close>

subsection \<open>Frames\<close>

datatype frame = Frame i8 i8

datatype dma_frame = DmaFrame u16 u16

text \<open>The silent frames, which are the defaults of their types.\<close>

definition silent_frame :: frame where
  "silent_frame = Frame 0 0"

definition silent_dma_frame :: dma_frame where
  "silent_dma_frame = DmaFrame 0x8000 0x8000"

instantiation frame :: default
begin
definition default_frame :: frame where "default_frame = silent_frame"
instance ..
end

instantiation dma_frame :: default
begin
definition default_dma_frame :: dma_frame where "default_dma_frame = silent_dma_frame"
instance ..
end

lemmas silence_defs = default_frame_def default_dma_frame_def silent_frame_def silent_dma_frame_def

definition DMA_BUFFER_SIZE :: nat where
  "DMA_BUFFER_SIZE = 512"

definition wrapping_add_signed :: "u8 \<Rightarrow> i8 \<Rightarrow> u8" where
  "wrapping_add_signed a b = a + b"

fun dma_of_frame :: "frame \<Rightarrow> dma_frame" where
  "dma_of_frame (Frame vl vr) =
     (let l = wrapping_add_signed 0x80 vl;
          r = wrapping_add_signed 0x80 vr;
          l' = push_bit 8 (ucast l :: u16);
          r' = push_bit 8 (ucast r :: u16)
      in DmaFrame l' r')"

lemma uint_bias: "uint (wrapping_add_signed 0x80 v) = sint v + 128"
proof -
  have v: "0 \<le> uint v" "uint v < 256" using uint_bounded [of v] by simp_all
  have "(128 + uint v) mod 256 = (if uint v < 128 then uint v + 128 else uint v - 128)"
  proof (cases "uint v < 128")
    case True
    with v show ?thesis by simp
  next
    case False
    have "(128 + uint v) mod 256 = ((uint v - 128) + 256) mod 256" by (simp add: algebra_simps)
    also have "\<dots> = uint v - 128" using v False by (simp only: mod_add_self2) simp
    finally show ?thesis using False by simp
  qed
  moreover have "uint (128 + v) = (128 + uint v) mod 256"
    using uint_word_ariths(1) [of 128 v] by simp
  ultimately show ?thesis unfolding wrapping_add_signed_def sint_i8 by simp
qed

lemma uint_widen_shift: "uint (push_bit 8 (ucast (b :: u8) :: u16)) = 256 * uint b"
proof -
  have "0 \<le> uint b" "uint b < 256" using uint_bounded [of b] by simp_all
  then have "take_bit 16 (push_bit 8 (uint b)) = 256 * uint b" "take_bit 16 (uint b) = uint b"
    by (simp_all add: push_bit_eq_mult take_bit_int_eq_self)
  moreover have "uint (push_bit 8 (ucast b :: u16)) = take_bit 16 (push_bit 8 (take_bit 16 (uint b)))"
    by (simp only: unsigned_push_bit_eq unsigned_ucast_eq) simp
  ultimately show ?thesis by simp
qed

text \<open>The conversion is exact and never wraps: the high byte of each output word is the signed
  sample plus the bias of 128, so that silence is mid-scale and the order of samples is kept.\<close>

theorem dma_of_frame_exact:
  "\<exists>l r. dma_of_frame (Frame vl vr) = DmaFrame l r
    \<and> int (unat l) = 256 * (sint vl + 128) \<and> int (unat r) = 256 * (sint vr + 128)"
  by (simp add: uint_widen_shift uint_bias)

lemma dma_of_silence: "dma_of_frame default = default"
  by (simp add: silence_defs wrapping_add_signed_def)


fun dma_value :: "dma_frame \<Rightarrow> nat \<times> nat" where
  "dma_value (DmaFrame l r) = (unat l, unat r)"

definition convert_into :: "nat \<Rightarrow> frame list \<Rightarrow> dma_frame list \<Rightarrow> dma_frame list" where
  "convert_into n src output = fold (\<lambda>i out. out[i := dma_of_frame (src ! i)]) [0..<n] output"

definition convert_slices ::
    "dma_frame list \<Rightarrow> frame list \<Rightarrow> frame list \<Rightarrow> nat \<times> dma_frame list" where
  "convert_slices output left right =
     (let n1 = min (length output) (length left);
          output1 = convert_into n1 left output;
          rest = drop n1 output1;
          n2 = min (length rest) (length right);
          rest' = convert_into n2 right rest
      in (n1 + n2, take n1 output1 @ rest'))"

lemma convert_into_eq:
  assumes "n \<le> length src" "n \<le> length output"
  shows "convert_into n src output = map dma_of_frame (take n src) @ drop n output"
  using assms
proof (induction n)
  case 0
  then show ?case by (simp add: convert_into_def)
next
  case (Suc n)
  have "convert_into (Suc n) src output = (convert_into n src output)[n := dma_of_frame (src ! n)]"
    by (simp add: convert_into_def)
  also have "\<dots> = (map dma_of_frame (take n src) @ drop n output)[n := dma_of_frame (src ! n)]"
    using Suc by simp
  also have "\<dots> = map dma_of_frame (take (Suc n) src) @ drop (Suc n) output"
    using Suc.prems by (simp add: list_update_append min_def take_Suc_conv_app_nth
        Cons_nth_drop_Suc [symmetric])
  finally show ?case .
qed

lemma convert_slices_eq:
  "convert_slices output l r =
    (min (length output) (length (l @ r)),
     map dma_of_frame (take (length output) (l @ r)) @ drop (length (l @ r)) output)"
  by (auto simp: convert_slices_def Let_def convert_into_eq min_def add.commute)


subsection \<open>The DMA interrupt\<close>

record dac_env =
  dac_ring :: "frame ring_buffer"
  dac_waker :: waker_set
  dac_stats :: stats

record dac_event =
  ev_buf :: "dma_frame list"
  ev_buf_size :: nat

definition event_output :: "dac_event \<Rightarrow> dma_frame list" where
  "event_output event = take (ev_buf_size event div 4) (ev_buf event)"

definition on_convert_done ::
    "profile \<Rightarrow> (task_ptr \<Rightarrow> bool) \<Rightarrow> slots \<Rightarrow> dac_event \<Rightarrow> dac_env \<Rightarrow>
     (bool \<times> dma_frame list \<times> dac_env) outcome" where
  "on_convert_done p notify slots event env =
     (let output_len = ev_buf_size event div 4; output = event_output event
      in bind_outcome (read_in_place (convert_slices output) (dac_ring env)) (\<lambda>(n, output1, ring').
           let output2 = (if n < length output1 then take n output1 @ replicate (length output1 - n) default
                          else output1);
               stats1 = (if n < length output1
                         then (dac_stats env)\<lparr>dac_underruns := counter_increment (dac_underruns (dac_stats env))\<rparr>
                         else dac_stats env);
               stats2 = stats1\<lparr>dac_frames_sent := counter_add (of_nat n) (dac_frames_sent stats1)\<rparr>
           in bind_outcome (wake_from_isr p notify slots (dac_waker env)) (\<lambda>(result, woken, waker').
                Ok (need_wake result, output2 @ drop output_len (ev_buf event),
                    env\<lparr>dac_ring := ring', dac_waker := waker', dac_stats := stats2\<rparr>))))"

lemma on_convert_done_spec:
  fixes event :: dac_event and env :: dac_env
  defines "len \<equiv> length (event_output event)" and "stored \<equiv> rb_contents (dac_ring env)"
  assumes wf: "rb_wf (dac_ring env)" and slots: "length slots = 32"
  shows "\<exists>wake env'. on_convert_done p notify slots event env = Ok (wake,
      map dma_of_frame (take len stored) @ replicate (len - length stored) default
        @ drop (ev_buf_size event div 4) (ev_buf event), env')
    \<and> rb_wf (dac_ring env') \<and> buffer_len (dac_ring env') = buffer_len (dac_ring env)
    \<and> rb_contents (dac_ring env') = drop len stored \<and> dac_waker env' = 0
    \<and> dac_stats env' = (dac_stats env)\<lparr>
        dac_frames_sent := dac_frames_sent (dac_stats env) + of_nat (min len (length stored)),
        dac_underruns := dac_underruns (dac_stats env) + (if length stored < len then 1 else 0)\<rparr>
    \<and> (wake \<longleftrightarrow> (\<exists>i\<in>waker_ids (dac_waker env). \<exists>t. slots ! i = Some t \<and> notify t))"
proof -
  let ?out = "event_output event" and ?n = "\<lambda>xs. min len (length xs)"
  let ?res = "\<lambda>xs. map dma_of_frame (take len xs) @ drop (length xs) (event_output event)"
  have func: "convert_slices ?out l r = (?n (l @ r), ?res (l @ r))" for l r
    by (simp add: convert_slices_eq len_def)
  obtain ring' where ring: "read_in_place (convert_slices ?out) (dac_ring env)
      = Ok (min len (length stored), ?res stored, ring')"
    "rb_wf ring'" "rb_contents ring' = drop (min len (length stored)) stored"
    "buffer_len ring' = buffer_len (dac_ring env)"
    using read_in_place_spec [OF wf, of "convert_slices ?out" ?n ?res, OF func]
    by (auto simp: stored_def)
  obtain r where r: "wake_from_isr p notify slots (dac_waker env)
      = Ok (r, occupants slots (fst (bits_take (dac_waker env))), 0)"
    "need_wake r = (\<exists>t\<in>set (occupants slots (fst (bits_take (dac_waker env)))). notify t)"
    using wake_from_isr_eq [OF slots, of p notify "dac_waker env"] by blast
  have wake: "need_wake r \<longleftrightarrow> (\<exists>i\<in>waker_ids (dac_waker env). \<exists>t. slots ! i = Some t \<and> notify t)"
    unfolding r(2) set_occupants ws.ids_taken by blast
  have out: "(if min len (length stored) < length (?res stored)
      then take (min len (length stored)) (?res stored)
        @ replicate (length (?res stored) - min len (length stored)) default else ?res stored)
      = map dma_of_frame (take len stored) @ replicate (len - length stored) default"
    by (auto simp: len_def min_def)
  have stat: "length (?res stored) = len" by (auto simp: len_def)
  show ?thesis
    using ring r(1) wake out stat
    by (cases env, cases "dac_stats env")
      (auto simp: on_convert_done_def Let_def counter_increment_def counter_add_def min_def
        silence_defs)
qed

subsection \<open>Writing\<close>

definition poll_write ::
    "profile \<Rightarrow> raw_waker \<Rightarrow> task_ptr \<Rightarrow> slots \<Rightarrow> frame list \<Rightarrow> dac_env \<Rightarrow> (nat poll \<times> dac_env) outcome" where
  "poll_write p cx current slots data env =
     bind_outcome (rb_write data (dac_ring env)) (\<lambda>(nbytes, ring').
       let env' = env\<lparr>dac_ring := ring'\<rparr>
       in if nbytes = 0 then
            bind_outcome (add_task p cx current slots (dac_waker env')) (\<lambda>waker'.
              Ok (Pending, env'\<lparr>dac_waker := waker'\<rparr>))
          else Ok (Ready nbytes, env'))"

text \<open>
  The interrupts that run before the task is polled again are a list of events. \<open>isr_run\<close> runs them
  and collects the DMA buffers they leave to be played.
\<close>

fun isr_run ::
    "profile \<Rightarrow> (task_ptr \<Rightarrow> bool) \<Rightarrow> slots \<Rightarrow> dac_event list \<Rightarrow> dac_env \<Rightarrow>
     (dma_frame list list \<times> dac_env) outcome" where
  "isr_run p notify slots [] env = Ok ([], env)"
| "isr_run p notify slots (ev # evs) env =
     bind_outcome (on_convert_done p notify slots ev env) (\<lambda>(_, out, env1).
     bind_outcome (isr_run p notify slots evs env1) (\<lambda>(outs, env2). Ok (out # outs, env2)))"

text \<open>
  \<^verbatim>\<open>write\<close> polls until all data is in the ring. One element of the schedule is the interrupts between
  one poll and the next; an exhausted schedule leaves the task suspended with the rest of its data.
  The result is what is left, and the DMA buffers played meanwhile.
\<close>

fun dac_write ::
    "profile \<Rightarrow> (task_ptr \<Rightarrow> bool) \<Rightarrow> raw_waker \<Rightarrow> task_ptr \<Rightarrow> slots \<Rightarrow> dac_event list list \<Rightarrow>
     frame list \<Rightarrow> dac_env \<Rightarrow> (frame list \<times> dma_frame list list \<times> dac_env) outcome" where
  "dac_write p notify cx current slots [] data env = Ok (data, [], env)"
| "dac_write p notify cx current slots (evs # sched) data env =
     (if length data > 0 then
        bind_outcome (poll_write p cx current slots data env) (\<lambda>(polled, env1).
        let data1 = (case polled of Ready n \<Rightarrow> drop n data | Pending \<Rightarrow> data)
        in bind_outcome (isr_run p notify slots evs env1) (\<lambda>(outs, env2).
           bind_outcome (dac_write p notify cx current slots sched data1 env2) (\<lambda>(rest, outs', env3).
             Ok (rest, outs @ outs', env3))))
      else Ok (data, [], env))"

lemma poll_write_spec:
  assumes wf: "rb_wf (dac_ring env)" and tid: "tid < 32"
  defines "free \<equiv> rb_free (dac_ring env)"
  shows "\<exists>polled env'. poll_write p (raw_waker_new (nth_id tid)) current slots data env = Ok (polled, env')
    \<and> rb_wf (dac_ring env') \<and> buffer_len (dac_ring env') = buffer_len (dac_ring env)
    \<and> rb_contents (dac_ring env') = rb_contents (dac_ring env) @ take free data
    \<and> dac_stats env' = dac_stats env
    \<and> (if min (length data) free = 0 then polled = Pending \<and> dac_waker env' = bits_add tid (dac_waker env)
       else polled = Ready (min (length data) free) \<and> dac_waker env' = dac_waker env)"
proof -
  obtain ring' where r: "rb_write data (dac_ring env) = Ok (min (length data) free, ring')"
    "rb_wf ring'" "rb_contents ring' = rb_contents (dac_ring env) @ take free data"
    "buffer_len ring' = buffer_len (dac_ring env)"
    using rb_write_spec [OF wf, of data] by (auto simp: free_def)
  then show ?thesis
    by (cases "free = 0"; cases "data = []"; cases env)
      (simp_all add: poll_write_def Let_def add_task_own [OF tid])
qed

text \<open>What one interrupt puts into its DMA buffer when it takes the frames \<open>sent\<close> from the ring.\<close>

definition event_played :: "dac_event \<Rightarrow> frame list \<Rightarrow> dma_frame list" where
  "event_played event sent =
     map dma_of_frame sent @ replicate (length (event_output event) - length sent) default
       @ drop (ev_buf_size event div 4) (ev_buf event)"

lemma on_convert_done_played:
  assumes "rb_wf (dac_ring env)" "length slots = 32"
  shows "\<exists>wake env'. on_convert_done p notify slots event env
      = Ok (wake, event_played event (take (length (event_output event)) (rb_contents (dac_ring env))), env')
    \<and> rb_wf (dac_ring env') \<and> buffer_len (dac_ring env') = buffer_len (dac_ring env)
    \<and> rb_contents (dac_ring env') = drop (length (event_output event)) (rb_contents (dac_ring env))
    \<and> dac_waker env' = 0"
proof -
  have pad: "length (event_output event) - length (take (length (event_output event)) xs)
      = length (event_output event) - length xs" for xs :: "frame list" by simp
  show ?thesis
    using on_convert_done_spec [OF assms, of p notify event] unfolding event_played_def pad by blast
qed

lemma isr_run_spec:
  assumes "rb_wf (dac_ring env)" "length slots = 32"
  shows "\<exists>sents env'. isr_run p notify slots evs env = Ok (map2 event_played evs sents, env')
    \<and> length sents = length evs \<and> rb_wf (dac_ring env')
    \<and> buffer_len (dac_ring env') = buffer_len (dac_ring env)
    \<and> concat sents = take (\<Sum>ev\<leftarrow>evs. length (event_output ev)) (rb_contents (dac_ring env))
    \<and> rb_contents (dac_ring env') = drop (\<Sum>ev\<leftarrow>evs. length (event_output ev)) (rb_contents (dac_ring env))"
  using assms(1)
proof (induction evs arbitrary: env)
  case Nil
  then show ?case by simp
next
  case (Cons ev evs)
  let ?len = "length (event_output ev)" and ?sum = "\<Sum>ev\<leftarrow>evs. length (event_output ev)"
  obtain wake env1 where e1: "on_convert_done p notify slots ev env
      = Ok (wake, event_played ev (take ?len (rb_contents (dac_ring env))), env1)"
    "rb_wf (dac_ring env1)" "buffer_len (dac_ring env1) = buffer_len (dac_ring env)"
    "rb_contents (dac_ring env1) = drop ?len (rb_contents (dac_ring env))"
    using on_convert_done_played [OF Cons.prems assms(2)] by blast
  obtain sents env2 where e2: "isr_run p notify slots evs env1 = Ok (map2 event_played evs sents, env2)"
    "length sents = length evs" "rb_wf (dac_ring env2)"
    "buffer_len (dac_ring env2) = buffer_len (dac_ring env1)"
    "concat sents = take ?sum (rb_contents (dac_ring env1))"
    "rb_contents (dac_ring env2) = drop ?sum (rb_contents (dac_ring env1))"
    using Cons.IH [OF e1(2)] by blast
  have "isr_run p notify slots (ev # evs) env
      = Ok (map2 event_played (ev # evs) (take ?len (rb_contents (dac_ring env)) # sents), env2)"
    using e1(1) e2(1) by simp
  moreover have "concat (take ?len (rb_contents (dac_ring env)) # sents)
      = take (\<Sum>ev\<leftarrow>ev # evs. length (event_output ev)) (rb_contents (dac_ring env))"
    using e2(5) e1(4) by (simp add: take_add)
  ultimately show ?case
    using e1 e2 by (intro exI [of _ "take ?len (rb_contents (dac_ring env)) # sents"] exI [of _ env2])
      (simp add: add.commute)
qed

lemma dac_write_spec:
  assumes "rb_wf (dac_ring env)" "length slots = 32" "tid < 32"
  shows "\<exists>k rest sents env'. dac_write p notify (raw_waker_new (nth_id tid)) current slots sched data env
      = Ok (rest, map2 event_played (concat (take k sched)) sents, env')
    \<and> length sents = length (concat (take k sched)) \<and> rb_wf (dac_ring env')
    \<and> concat sents @ rb_contents (dac_ring env') @ rest = rb_contents (dac_ring env) @ data"
  using assms(1)
proof (induction sched arbitrary: data env)
  case Nil
  then show ?case by (auto intro: exI [of _ "[]"])
next
  case (Cons evs sched)
  show ?case
  proof (cases "data = []")
    case True
    then show ?thesis using Cons.prems by (auto intro!: exI [of _ 0] exI [of _ "[]"])
  next
    case False
    let ?free = "rb_free (dac_ring env)"
    obtain polled env1 where e1:
      "poll_write p (raw_waker_new (nth_id tid)) current slots data env = Ok (polled, env1)"
      "rb_wf (dac_ring env1)" "rb_contents (dac_ring env1) = rb_contents (dac_ring env) @ take ?free data"
      "if min (length data) ?free = 0 then polled = Pending else polled = Ready (min (length data) ?free)"
      using poll_write_spec [OF Cons.prems assms(3), of p current slots data] by (smt (verit))
    have data1: "(case polled of Ready n \<Rightarrow> drop n data | Pending \<Rightarrow> data) = drop ?free data"
      using e1(4) False by (auto simp: min_def split: if_splits)
    obtain sents1 env2 where e2: "isr_run p notify slots evs env1 = Ok (map2 event_played evs sents1, env2)"
      "length sents1 = length evs" "rb_wf (dac_ring env2)"
      "concat sents1 @ rb_contents (dac_ring env2) = rb_contents (dac_ring env1)"
      using isr_run_spec [OF e1(2) assms(2), of p notify evs] by (metis append_take_drop_id)
    obtain k rest sents2 env3 where e3:
      "dac_write p notify (raw_waker_new (nth_id tid)) current slots sched (drop ?free data) env2
        = Ok (rest, map2 event_played (concat (take k sched)) sents2, env3)"
      "length sents2 = length (concat (take k sched))" "rb_wf (dac_ring env3)"
      "concat sents2 @ rb_contents (dac_ring env3) @ rest = rb_contents (dac_ring env2) @ drop ?free data"
      using Cons.IH [OF e2(3)] by blast
    have "concat (sents1 @ sents2) @ rb_contents (dac_ring env3) @ rest = rb_contents (dac_ring env) @ data"
      using e3(4) e2(4) e1(3) by (metis append.assoc append_take_drop_id concat_append)
    moreover have "dac_write p notify (raw_waker_new (nth_id tid)) current slots (evs # sched) data env
        = Ok (rest, map2 event_played (concat (take (Suc k) (evs # sched))) (sents1 @ sents2), env3)"
      using False e1(1) e2(1,2) e3(1) by (simp add: data1)
    ultimately show ?thesis using e3(2,3) e2(2)
      by (intro exI [of _ "Suc k"] exI [of _ rest] exI [of _ "sents1 @ sents2"] exI [of _ env3]) simp
  qed
qed

text \<open>A round whose interrupts take at least one frame leaves room for the next poll.\<close>

definition round_frames :: "dac_event list \<Rightarrow> nat" where
  "round_frames evs = (\<Sum>ev\<leftarrow>evs. length (event_output ev))"

lemma dac_write_finishes:
  assumes "rb_wf (dac_ring env)" "length slots = 32" "tid < 32" "1 < buffer_len (dac_ring env)"
    and "\<forall>evs\<in>set sched. 0 < round_frames evs"
    and "length data + (if rb_free (dac_ring env) = 0 then 1 else 0) \<le> length sched"
  shows "\<exists>played env'. dac_write p notify (raw_waker_new (nth_id tid)) current slots sched data env
    = Ok ([], played, env')"
  using assms(1,4-6)
proof (induction sched arbitrary: data env)
  case Nil
  then show ?case by (simp split: if_splits)
next
  case (Cons evs sched)
  show ?case
  proof (cases "data = []")
    case True
    then show ?thesis by simp
  next
    case False
    let ?free = "rb_free (dac_ring env)"
    obtain polled env1 where e1:
      "poll_write p (raw_waker_new (nth_id tid)) current slots data env = Ok (polled, env1)"
      "rb_wf (dac_ring env1)" "buffer_len (dac_ring env1) = buffer_len (dac_ring env)"
      "if min (length data) ?free = 0 then polled = Pending else polled = Ready (min (length data) ?free)"
      using poll_write_spec [OF Cons.prems(1) assms(3), of p current slots data] by (smt (verit))
    have data1: "(case polled of Ready n \<Rightarrow> drop n data | Pending \<Rightarrow> data) = drop ?free data"
      using e1(4) False by (auto simp: min_def split: if_splits)
    obtain sents env2 where e2: "isr_run p notify slots evs env1 = Ok (map2 event_played evs sents, env2)"
      "rb_wf (dac_ring env2)" "buffer_len (dac_ring env2) = buffer_len (dac_ring env1)"
      "rb_contents (dac_ring env2) = drop (round_frames evs) (rb_contents (dac_ring env1))"
      using isr_run_spec [OF e1(2) assms(2), of p notify evs] unfolding round_frames_def by blast
    have "rb_count (dac_ring env2) = rb_count (dac_ring env1) - round_frames evs"
      using arg_cong [OF e2(4), of length] by simp
    then have free2: "0 < rb_free (dac_ring env2)"
      using Cons.prems(2,3) e1(3) e2(3) rb_count_less [OF e1(2)] by (auto simp: rb_free_def)
    then have "length (drop ?free data) + (if rb_free (dac_ring env2) = 0 then 1 else 0) \<le> length sched"
      using Cons.prems(4) False by (cases data) (auto split: if_splits)
    then obtain played env3 where
      "dac_write p notify (raw_waker_new (nth_id tid)) current slots sched (drop ?free data) env2
        = Ok ([], played, env3)"
      using Cons.IH [OF e2(2), of "drop ?free data"] Cons.prems(2,3) e1(3) e2(3) by auto
    then show ?thesis using False e1(1) e2(1) by (simp add: data1)
  qed
qed

subsection \<open>The driver handle\<close>

datatype dac_sys =
    NewChannels | RegisterEventCallback | EnableChannels | DisableChannels
  | StartAsyncWriting | StopAsyncWriting | DelChannels

type_synonym 'e dac_driver = "dac_sys list \<Rightarrow> dac_sys \<Rightarrow> 'e + unit"

record dac_world =
  dw_calls :: "dac_sys list"
  dw_env :: dac_env

definition dac_sys_call :: "'e dac_driver \<Rightarrow> dac_sys \<Rightarrow> dac_world \<Rightarrow> ('e + unit) \<times> dac_world" where
  "dac_sys_call drv c w = (drv (dw_calls w) c, w\<lparr>dw_calls := dw_calls w @ [c]\<rparr>)"

definition dac_enable :: "'e dac_driver \<Rightarrow> dac_world \<Rightarrow> ('e + unit) \<times> dac_world" where
  "dac_enable drv w = dac_sys_call drv EnableChannels w"

definition dac_disable :: "'e dac_driver \<Rightarrow> dac_world \<Rightarrow> ('e + unit) \<times> dac_world" where
  "dac_disable drv w = dac_sys_call drv DisableChannels w"

definition dac_start_async_writing :: "'e dac_driver \<Rightarrow> dac_world \<Rightarrow> ('e + unit) \<times> dac_world" where
  "dac_start_async_writing drv w = dac_sys_call drv StartAsyncWriting w"

definition dac_stop_async_writing :: "'e dac_driver \<Rightarrow> dac_world \<Rightarrow> ('e + unit) \<times> dac_world" where
  "dac_stop_async_writing drv w = dac_sys_call drv StopAsyncWriting w"

definition dac_drop :: "'e dac_driver \<Rightarrow> dac_world \<Rightarrow> dac_world" where
  "dac_drop drv w =
     (let (_, w1) = dac_stop_async_writing drv w;
          (_, w2) = dac_disable drv w1;
          (_, w3) = dac_sys_call drv DelChannels w2
      in w3)"

definition dac_reset_samples :: "dac_world \<Rightarrow> dac_world outcome" where
  "dac_reset_samples w =
     bind_outcome (rb_fill default (rb_reset (dac_ring (dw_env w)))) (\<lambda>ring'.
       Ok (w\<lparr>dw_env := (dw_env w)\<lparr>dac_ring := ring'\<rparr>\<rparr>))"

definition dac_new :: "'e dac_driver \<Rightarrow> dac_world \<Rightarrow> (('e + unit) \<times> dac_world) outcome" where
  "dac_new drv w =
     (case dac_sys_call drv NewChannels w of
        (Inl e, w1) \<Rightarrow> Ok (Inl e, w1)
      | (Inr _, w1) \<Rightarrow>
          bind_outcome (dac_reset_samples w1) (\<lambda>w2.
            case dac_sys_call drv RegisterEventCallback w2 of
              (Inl e, w3) \<Rightarrow> Ok (Inl e, dac_drop drv w3)
            | (Inr _, w3) \<Rightarrow> Ok (Inr (), w3)))"

lemma dac_sys_call_simps [simp]:
  "fst (dac_sys_call drv c w) = drv (dw_calls w) c"
  "dw_calls (snd (dac_sys_call drv c w)) = dw_calls w @ [c]"
  "dw_env (snd (dac_sys_call drv c w)) = dw_env w"
  by (simp_all add: dac_sys_call_def)

lemma dac_drop_simps [simp]:
  "dw_calls (dac_drop drv w) = dw_calls w @ [StopAsyncWriting, DisableChannels, DelChannels]"
  "dw_env (dac_drop drv w) = dw_env w"
  by (simp_all add: dac_drop_def dac_stop_async_writing_def dac_disable_def dac_sys_call_def)

lemma dac_reset_samples_spec:
  assumes "0 < buffer_len (dac_ring (dw_env w))"
  shows "\<exists>ring. dac_reset_samples w = Ok (w\<lparr>dw_env := (dw_env w)\<lparr>dac_ring := ring\<rparr>\<rparr>) \<and> rb_wf ring
    \<and> rb_contents ring = replicate (buffer_len (dac_ring (dw_env w)) - 1) default
    \<and> buffer_len ring = buffer_len (dac_ring (dw_env w))"
proof -
  let ?ring = "rb_reset (dac_ring (dw_env w))"
  have r: "rb_wf ?ring" "rb_contents ?ring = []" "buffer_len ?ring = buffer_len (dac_ring (dw_env w))"
    using rb_reset_spec [OF assms] by simp_all
  have "rb_free ?ring = buffer_len (dac_ring (dw_env w)) - 1"
    using arg_cong [OF r(2), of length] r(3) by (simp add: rb_free_def)
  then show ?thesis
    using rb_fill_spec [OF r(1), of default] r(2,3) by (auto simp: dac_reset_samples_def)
qed

text \<open>
  Opening the device, by the results of the two calls: whether a handle exists afterwards, and the
  calls made. The handle of a failed registration is released on the way out.
\<close>

lemma dac_new_spec:
  assumes "0 < buffer_len (dac_ring (dw_env w))"
  shows "\<exists>r w'. dac_new drv w = Ok (r, w')
    \<and> (case drv (dw_calls w) NewChannels of
         Inl e \<Rightarrow> r = Inl e \<and> dw_calls w' = dw_calls w @ [NewChannels] \<and> dw_env w' = dw_env w
       | Inr _ \<Rightarrow> rb_wf (dac_ring (dw_env w'))
           \<and> rb_contents (dac_ring (dw_env w')) = replicate (buffer_len (dac_ring (dw_env w)) - 1) default
           \<and> buffer_len (dac_ring (dw_env w')) = buffer_len (dac_ring (dw_env w))
           \<and> (case drv (dw_calls w @ [NewChannels]) RegisterEventCallback of
                Inl e \<Rightarrow> r = Inl e \<and> dw_calls w' = dw_calls w @ [NewChannels, RegisterEventCallback,
                  StopAsyncWriting, DisableChannels, DelChannels]
              | Inr _ \<Rightarrow> r = Inr () \<and> dw_calls w' = dw_calls w @ [NewChannels, RegisterEventCallback]))"
proof (cases "drv (dw_calls w) NewChannels")
  case (Inl e)
  then show ?thesis by (simp add: dac_new_def dac_sys_call_def)
next
  case (Inr u)
  define w1 where "w1 = snd (dac_sys_call drv NewChannels w)"
  have call: "dac_sys_call drv NewChannels w = (Inr u, w1)"
    using Inr by (simp add: w1_def dac_sys_call_def)
  have w1: "dw_calls w1 = dw_calls w @ [NewChannels]" "dw_env w1 = dw_env w"
    by (simp_all add: w1_def)
  obtain ring where ring: "dac_reset_samples w1 = Ok (w1\<lparr>dw_env := (dw_env w1)\<lparr>dac_ring := ring\<rparr>\<rparr>)"
    "rb_wf ring" "rb_contents ring = replicate (buffer_len (dac_ring (dw_env w)) - 1) default"
    "buffer_len ring = buffer_len (dac_ring (dw_env w))"
    using dac_reset_samples_spec [of w1] assms w1(2) by auto
  define w2 where "w2 = w1\<lparr>dw_env := (dw_env w1)\<lparr>dac_ring := ring\<rparr>\<rparr>"
  have w2: "dw_calls w2 = dw_calls w @ [NewChannels]" "dac_ring (dw_env w2) = ring"
    by (simp_all add: w2_def w1)
  have res: "dac_new drv w = (case dac_sys_call drv RegisterEventCallback w2 of
      (Inl e, w3) \<Rightarrow> Ok (Inl e, dac_drop drv w3) | (Inr _, w3) \<Rightarrow> Ok (Inr (), w3))"
    using ring(1) by (simp add: dac_new_def call w2_def)
  define w3 where "w3 = snd (dac_sys_call drv RegisterEventCallback w2)"
  have reg: "dac_sys_call drv RegisterEventCallback w2
      = (drv (dw_calls w @ [NewChannels]) RegisterEventCallback, w3)"
    by (simp add: dac_sys_call_def w2(1) w3_def)
  have w3: "dw_calls w3 = dw_calls w @ [NewChannels, RegisterEventCallback]" "dac_ring (dw_env w3) = ring"
    by (simp_all add: w3_def w2)
  show ?thesis
    using Inr ring(2-4) w3 by (simp add: res reg split: sum.splits)
qed

subsection \<open>Properties\<close>

text \<open>C14: the DMA interrupt fills its whole buffer: first the oldest frames of the ring, converted, then
  silence; the rest of the memory is untouched. The frames played leave the ring, the two counters
  count them and an underrun exactly when silence was needed, and the waiting writers are woken.\<close>

theorem dac_isr_refills:
  fixes event :: dac_event and env :: dac_env
  defines "len \<equiv> length (event_output event)" and "stored \<equiv> rb_contents (dac_ring env)"
  assumes "rb_wf (dac_ring env)" and "length slots = 32"
  shows "\<exists>wake env'. on_convert_done p notify slots event env = Ok (wake,
      map dma_of_frame (take len stored) @ replicate (len - length stored) default
        @ drop (ev_buf_size event div 4) (ev_buf event), env')
    \<and> rb_wf (dac_ring env') \<and> buffer_len (dac_ring env') = buffer_len (dac_ring env)
    \<and> rb_contents (dac_ring env') = drop len stored \<and> dac_waker env' = 0
    \<and> dac_stats env' = (dac_stats env)\<lparr>
        dac_frames_sent := dac_frames_sent (dac_stats env) + of_nat (min len (length stored)),
        dac_underruns := dac_underruns (dac_stats env) + (if length stored < len then 1 else 0)\<rparr>
    \<and> (wake \<longleftrightarrow> (\<exists>i\<in>waker_ids (dac_waker env). \<exists>t. slots ! i = Some t \<and> notify t))"
  unfolding len_def stored_def by (rule on_convert_done_spec [OF assms(3,4)])

definition example_env :: "frame list \<Rightarrow> dac_env" where
  "example_env frames =
     \<lparr>dac_ring = \<lparr>rb_reader = 0, rb_writer = length frames,
        rb_buffer = frames @ replicate (8 - length frames) default\<rparr>,
      dac_waker = 0, dac_stats = stats_new\<rparr>"

lemma example_env_wf:
  "length frames < 8 \<Longrightarrow> rb_wf (dac_ring (example_env frames))"
  by (simp add: example_env_def rb_wf_def buffer_len_def)

theorem dac_isr_refills_witness:
  "\<exists>wake out env'. on_convert_done Dev (\<lambda>t. True) (replicate 32 None)
      \<lparr>ev_buf = replicate 4 (DmaFrame 0 0), ev_buf_size = 12\<rparr> (example_env [Frame 1 2, Frame 3 (- 4)])
      = Ok (wake, out, env') \<and> rb_wf (dac_ring env')"
  using dac_isr_refills [of "example_env [Frame 1 2, Frame 3 (- 4)]" "replicate 32 None" Dev "\<lambda>t. True"
      "\<lparr>ev_buf = replicate 4 (DmaFrame 0 0), ev_buf_size = 12\<rparr>"] example_env_wf [of "[Frame 1 2, Frame 3 (- 4)]"]
  by auto

text \<open>Audio is neither lost, duplicated nor reordered between \<^verbatim>\<open>write\<close> and the DMA engine: however
  the interrupts fall between the polls, the frames taken by the interrupts, then the frames still in
  the ring, then the data not yet accepted, are the frames first in the ring followed by the data. Each
  DMA buffer plays the frames its interrupt took, padded with silence.\<close>

theorem dac_write_in_order:
  assumes "rb_wf (dac_ring env)" "length slots = 32" "tid < 32"
  shows "\<exists>k rest sents env'. dac_write p notify (raw_waker_new (nth_id tid)) current slots sched data env
      = Ok (rest, map2 event_played (concat (take k sched)) sents, env')
    \<and> length sents = length (concat (take k sched)) \<and> rb_wf (dac_ring env')
    \<and> concat sents @ rb_contents (dac_ring env') @ rest = rb_contents (dac_ring env) @ data"
  by (rule dac_write_spec [OF assms])

theorem dac_write_in_order_witness:
  "\<exists>k rest sents env'. dac_write Dev (\<lambda>t. True) (raw_waker_new (nth_id 5)) 0 (replicate 32 None)
      [[\<lparr>ev_buf = replicate 2 default, ev_buf_size = 8\<rparr>]] [Frame 9 9] (example_env [Frame 1 2])
      = Ok (rest, map2 event_played (concat (take k [[\<lparr>ev_buf = replicate 2 default, ev_buf_size = 8\<rparr>]])) sents, env')
    \<and> length sents = length (concat (take k [[\<lparr>ev_buf = replicate 2 default, ev_buf_size = 8\<rparr>]]))
    \<and> rb_wf (dac_ring env')
    \<and> concat sents @ rb_contents (dac_ring env') @ rest = rb_contents (dac_ring (example_env [Frame 1 2])) @ [Frame 9 9]"
  by (rule dac_write_in_order) (simp_all add: example_env_wf)

text \<open>C16: \<^verbatim>\<open>write\<close> returns: with a ring of at least two slots, if the interrupts between any two polls
  take at least one frame, as many rounds as there are frames, and one more when the ring starts
  full, put all of the data in the ring.\<close>

theorem dac_write_returns:
  assumes "rb_wf (dac_ring env)" "length slots = 32" "tid < 32" "1 < buffer_len (dac_ring env)"
    and "\<forall>evs\<in>set sched. 0 < round_frames evs"
    and "length data + (if rb_free (dac_ring env) = 0 then 1 else 0) \<le> length sched"
  shows "\<exists>played env'. dac_write p notify (raw_waker_new (nth_id tid)) current slots sched data env
    = Ok ([], played, env')"
  by (rule dac_write_finishes [OF assms])

theorem dac_write_returns_witness:
  "\<exists>played env'. dac_write Dev (\<lambda>t. True) (raw_waker_new (nth_id 5)) 0 (replicate 32 None)
      (replicate 2 [\<lparr>ev_buf = replicate 1 default, ev_buf_size = 4\<rparr>]) [Frame 8 8]
      (example_env (replicate 7 (Frame 1 2))) = Ok ([], played, env')"
  by (rule dac_write_returns)
    (simp_all add: example_env_def rb_wf_def buffer_len_def round_frames_def event_output_def)

text \<open>Opening the device starts from a ring full of silence, and every path gives the channels back
  that it does not hand out: a failed \<^verbatim>\<open>dac_continuous_new_channels\<close> makes no further call, a failed
  callback registration stops, disables and deletes the channels, a success keeps them.\<close>

theorem dac_new_releases_on_error:
  assumes "0 < buffer_len (dac_ring (dw_env w))"
  shows "\<exists>r w'. dac_new drv w = Ok (r, w')
    \<and> (case drv (dw_calls w) NewChannels of
         Inl e \<Rightarrow> r = Inl e \<and> dw_calls w' = dw_calls w @ [NewChannels] \<and> dw_env w' = dw_env w
       | Inr _ \<Rightarrow> rb_wf (dac_ring (dw_env w'))
           \<and> rb_contents (dac_ring (dw_env w')) = replicate (buffer_len (dac_ring (dw_env w)) - 1) default
           \<and> buffer_len (dac_ring (dw_env w')) = buffer_len (dac_ring (dw_env w))
           \<and> (case drv (dw_calls w @ [NewChannels]) RegisterEventCallback of
                Inl e \<Rightarrow> r = Inl e \<and> dw_calls w' = dw_calls w @ [NewChannels, RegisterEventCallback,
                  StopAsyncWriting, DisableChannels, DelChannels]
              | Inr _ \<Rightarrow> r = Inr () \<and> dw_calls w' = dw_calls w @ [NewChannels, RegisterEventCallback]))"
  by (rule dac_new_spec [OF assms])

theorem dac_new_releases_on_error_witness:
  "\<exists>w'. dac_new (\<lambda>log c. if c = RegisterEventCallback then Inl (259 :: int) else Inr ())
      \<lparr>dw_calls = [], dw_env = example_env []\<rparr> = Ok (Inl 259, w')
    \<and> dw_calls w' = [NewChannels, RegisterEventCallback, StopAsyncWriting, DisableChannels, DelChannels]"
  using dac_new_releases_on_error [of "\<lparr>dw_calls = [], dw_env = example_env []\<rparr>"
      "\<lambda>log c. if c = RegisterEventCallback then Inl (259 :: int) else Inr ()"]
  by (auto simp: example_env_def buffer_len_def)

end
