(* ===== verification/Convint.thy ===== *)
theory Convint
  imports Complex_Main Prelude
begin

text \<open>
  The conversion of a sample from an IEEE 754 single to a signed byte (\<^verbatim>\<open>convint8\<close> of
  \<^verbatim>\<open>src/app/stream.rs\<close>), which works on the bits of the float. The reference is the value of the float
  as a real number: \<open>float_sign\<close> times \<open>float_magnitude\<close>.
\<close>

text \<open>Multiplication on \<^verbatim>\<open>i8\<close>: out of range is a panic in the \<^verbatim>\<open>dev\<close> profile.\<close>

definition mul_i8 :: "profile \<Rightarrow> i8 \<Rightarrow> i8 \<Rightarrow> i8 outcome" where
  "mul_i8 p a b =
     (if p = Dev \<and> (sint a * sint b < - 128 \<or> 127 < sint a * sint b) then Panic ArithmeticOverflow
      else Ok (a * b))"

definition convint8 :: "profile \<Rightarrow> u32 \<Rightarrow> i8 outcome" where
  "convint8 p bits =
     (let frac = bits AND 0x7fffff;
          exp = drop_bit 23 bits AND 0xff;
          sign = (if drop_bit 31 bits \<noteq> 0 then - 1 else 1)
      in if exp = 0 \<and> frac = 0 then Ok 0
         else let frac = frac OR 0x800000
              in if exp < 0x78 then Ok 0
                 else if exp > 0x86 then mul_i8 p 127 sign
                 else
                   let normal = (if exp \<le> 0x7f then drop_bit (unat (0x7f - exp)) frac
                                 else push_bit (unat (exp - 0x7f)) frac)
                   in bind_outcome (sub_word p normal (push_bit 8 1)) (\<lambda>d.
                        mul_i8 p sign (ucast (drop_bit 16 d))))"

subsection \<open>The fields of a float\<close>

text \<open>
  The value of the bits as IEEE 754 defines it, for finite floats: subnormal when the exponent field
  is 0, with an implicit leading bit otherwise.
\<close>

definition float_frac :: "u32 \<Rightarrow> nat" where
  "float_frac bits = unat bits mod 2 ^ 23"

definition float_exp :: "u32 \<Rightarrow> nat" where
  "float_exp bits = unat bits div 2 ^ 23 mod 2 ^ 8"

definition float_negative :: "u32 \<Rightarrow> bool" where
  "float_negative bits \<longleftrightarrow> 2 ^ 31 \<le> unat bits"

definition float_sign :: "u32 \<Rightarrow> int" where
  "float_sign bits = (if float_negative bits then - 1 else 1)"

definition float_magnitude :: "u32 \<Rightarrow> real" where
  "float_magnitude bits =
     (if float_exp bits = 0 then real (float_frac bits) * 2 powi (- 149)
      else real (2 ^ 23 + float_frac bits) * 2 powi (int (float_exp bits) - 150))"

lemma unat_take_bit: "unat (take_bit n w) = unat w mod 2 ^ n"
  by (simp only: unsigned_take_bit_eq take_bit_eq_mod [where 'a = nat])

lemma unat_drop_bit: "unat (drop_bit n w) = unat w div 2 ^ n" for w :: "'l::len word"
  by (simp add: unsigned_drop_bit_eq take_bit_nat_eq_self drop_bit_eq_div [where 'a = nat])

lemma unat_frac: "unat (bits AND 0x7fffff :: u32) = float_frac bits"
proof -
  have "bits AND 0x7fffff = take_bit 23 bits" by (simp add: take_bit_eq_mask mask_numeral)
  then show ?thesis by (simp add: float_frac_def unat_take_bit)
qed

lemma unat_exp: "unat (drop_bit 23 bits AND 0xff :: u32) = float_exp bits"
proof -
  have "drop_bit 23 bits AND 0xff = take_bit 8 (drop_bit 23 bits)" by (simp add: take_bit_eq_mask mask_numeral)
  then show ?thesis
    by (simp add: float_exp_def unat_take_bit unat_drop_bit)
qed

lemma sign_bit: "drop_bit 31 (bits :: u32) \<noteq> 0 \<longleftrightarrow> float_negative bits"
proof -
  have "drop_bit 31 bits = 0 \<longleftrightarrow> unat bits div 2 ^ 31 = 0"
    by (simp add: unat_eq_0 [symmetric] unat_drop_bit)
  then show ?thesis by (auto simp: float_negative_def div_eq_0_iff)
qed

lemma float_frac_less: "float_frac bits < 2 ^ 23"
  by (simp add: float_frac_def)

lemma float_exp_less: "float_exp bits < 2 ^ 8"
  by (simp add: float_exp_def)

lemma unat_frac_or: "unat ((bits AND 0x7fffff) OR 0x800000 :: u32) = 2 ^ 23 + float_frac bits"
proof -
  have "(bits AND 0x7fffff) AND 0x800000 = (0 :: u32)" by (simp add: and.assoc)
  then have "(bits AND 0x7fffff) OR 0x800000 = (bits AND 0x7fffff) + 0x800000"
    using word_plus_and_or [of "bits AND 0x7fffff" "0x800000"] by simp
  moreover have "unat ((bits AND 0x7fffff) + 0x800000 :: u32) = float_frac bits + 0x800000"
    using float_frac_less [of bits] unat_frac [of bits] by (simp add: unat_word_ariths)
  ultimately show ?thesis by simp
qed

text \<open>The magnitude scaled by \<open>2 ^ 23\<close>, as the code computes it with a shift either way.\<close>

definition float_scaled :: "u32 \<Rightarrow> nat" where
  "float_scaled bits =
     (if float_exp bits \<le> 127 then (2 ^ 23 + float_frac bits) div 2 ^ (127 - float_exp bits)
      else (2 ^ 23 + float_frac bits) * 2 ^ (float_exp bits - 127))"

lemma float_scaled_bounds:
  assumes "120 \<le> float_exp bits" "float_exp bits \<le> 134"
  shows "2 ^ 16 \<le> float_scaled bits" "float_scaled bits < 2 ^ 31"
    "float_exp bits < 127 \<Longrightarrow> float_scaled bits < 2 ^ 23"
proof -
  let ?m = "2 ^ 23 + float_frac bits" and ?e = "float_exp bits"
  have m: "?m < 2 ^ 24" using float_frac_less [of bits] by simp
  have low: "2 ^ 16 \<le> ?m div 2 ^ (127 - ?e)" if "?e \<le> 127"
  proof -
    have "(2 :: nat) ^ (127 - ?e) \<le> 2 ^ 7" using assms(1) by (intro power_increasing) auto
    then have "2 ^ 16 * 2 ^ (127 - ?e) \<le> (2 :: nat) ^ 16 * 2 ^ 7" by (intro mult_left_mono) auto
    then show ?thesis by (simp add: less_eq_div_iff_mult_less_eq)
  qed
  have high: "?m * 2 ^ (?e - 127) < 2 ^ 31"
  proof -
    have "?m * 2 ^ (?e - 127) \<le> ?m * 2 ^ 7" using assms(2) by (intro mult_left_mono power_increasing) auto
    then show ?thesis using m by simp
  qed
  have div_le: "?m div 2 ^ (127 - ?e) \<le> ?m" by simp
  show "2 ^ 16 \<le> float_scaled bits"
  proof (cases "?e \<le> 127")
    case True
    with low show ?thesis by (simp add: float_scaled_def)
  next
    case False
    have "(2 :: nat) ^ 16 * 1 \<le> ?m * 2 ^ (?e - 127)" by (intro mult_mono) auto
    with False show ?thesis by (simp add: float_scaled_def)
  qed
  show "float_scaled bits < 2 ^ 31"
    using high div_le m le_less_trans [OF div_le, of "2 ^ 31"] by (simp add: float_scaled_def)
  show "float_scaled bits < 2 ^ 23" if e: "?e < 127"
  proof -
    have "(2 :: nat) ^ 1 \<le> 2 ^ (127 - ?e)" using e by (intro power_increasing) auto
    then have "?m div 2 ^ (127 - ?e) \<le> ?m div 2" by (intro div_le_mono2) auto
    then show ?thesis using e m by (simp add: float_scaled_def)
  qed
qed

lemma convint8_middle:
  assumes "120 \<le> float_exp bits" "float_exp bits \<le> 134"
  shows "convint8 p bits = mul_i8 p (of_int (float_sign bits)) (of_nat ((float_scaled bits - 256) div 2 ^ 16))"
proof -
  define frac where "frac = (bits AND 0x7fffff) OR 0x800000"
  define ex where "ex = drop_bit 23 bits AND 0xff"
  have f: "unat frac = 2 ^ 23 + float_frac bits" unfolding frac_def by (rule unat_frac_or)
  have e: "unat ex = float_exp bits" unfolding ex_def by (rule unat_exp)
  have ex: "ex \<noteq> 0" "\<not> ex < 0x78" "\<not> ex > 0x86" "ex \<le> 0x7f \<longleftrightarrow> float_exp bits \<le> 127"
    using assms e by (auto simp: word_less_nat_alt word_le_nat_alt)
  define normal where "normal = (if ex \<le> 0x7f then drop_bit (unat (0x7f - ex)) frac
                                 else push_bit (unat (ex - 0x7f)) frac)"
  have n: "unat normal = float_scaled bits"
  proof (cases "float_exp bits \<le> 127")
    case True
    then have "unat (0x7f - ex) = 127 - float_exp bits" using e by (simp add: unat_sub word_le_nat_alt)
    then show ?thesis using True ex(4) f
      by (simp add: normal_def float_scaled_def unat_drop_bit)
  next
    case False
    then have s: "unat (ex - 0x7f) = float_exp bits - 127" using e by (simp add: unat_sub word_le_nat_alt)
    have "unat (push_bit (float_exp bits - 127) frac) = take_bit 32 (push_bit (float_exp bits - 127) (unat frac))"
      by (simp add: unsigned_push_bit_eq)
    also have "\<dots> = float_scaled bits"
      using False f float_scaled_bounds(2) [OF assms]
      by (simp add: float_scaled_def push_bit_eq_mult take_bit_nat_eq_self)
    finally show ?thesis using False s ex(4) by (simp add: normal_def)
  qed
  have d: "sub_word p normal (push_bit 8 1) = Ok (normal - 256)"
    using float_scaled_bounds(1) [OF assms] n by (simp add: sub_word_def word_less_nat_alt)
  have u: "unat (drop_bit 16 (normal - 256)) = (float_scaled bits - 256) div 2 ^ 16"
    using float_scaled_bounds(1) [OF assms] n
    by (simp add: unat_drop_bit unat_sub word_le_nat_alt)
  have c: "(ucast (drop_bit 16 (normal - 256)) :: i8) = of_nat ((float_scaled bits - 256) div 2 ^ 16)"
    unfolding u [symmetric] by simp
  show ?thesis
    using d c ex(1-3) unfolding convint8_def Let_def frac_def [symmetric] ex_def [symmetric]
      normal_def [symmetric] sign_bit by (simp add: float_sign_def)
qed

lemma sint_of_small: "- 128 \<le> k \<Longrightarrow> k < 128 \<Longrightarrow> sint (of_int k :: i8) = k"
  by (simp add: signed_of_int signed_take_bit_int_eq_self)

lemma mul_i8_sign:
  assumes "n \<le> 127"
  shows "mul_i8 p (of_int (float_sign bits)) (of_nat n) = Ok (of_int (float_sign bits * int n))"
proof -
  have "sint (of_int (float_sign bits) :: i8) = float_sign bits"
    by (rule sint_of_small) (simp_all add: float_sign_def)
  moreover have "sint (of_nat n :: i8) = int n"
    using sint_of_small [of "int n"] assms by simp
  ultimately show ?thesis
    using assms by (simp add: mul_i8_def float_sign_def)
qed

lemma float_magnitude_bounds:
  "float_exp bits \<noteq> 0 \<Longrightarrow> 2 powi (int (float_exp bits) - 127) \<le> float_magnitude bits"
  "float_magnitude bits < 2 powi (int (float_exp bits) - 126)"
proof -
  let ?e = "int (float_exp bits)" and ?M = "real (2 ^ 23 + float_frac bits)"
  have "real (float_frac bits) < real (2 ^ 23)"
    using float_frac_less [of bits] by (simp only: of_nat_less_iff)
  then have M: "2 ^ 23 \<le> ?M" "?M < 2 ^ 24" by simp_all
  have shift: "(2 :: real) powi (?e - 127) = 2 ^ 23 * 2 powi (?e - 150)"
    "(2 :: real) powi (?e - 126) = 2 ^ 24 * 2 powi (?e - 150)"
    by (simp_all add: power_int_diff)
  show "2 powi (?e - 127) \<le> float_magnitude bits" if "float_exp bits \<noteq> 0"
    using that M(1) unfolding shift float_magnitude_def
    by (simp only: if_False) (intro mult_right_mono, auto)
  show "float_magnitude bits < 2 powi (?e - 126)"
  proof (cases "float_exp bits = 0")
    case True
    have less: "real (float_frac bits) < 2 ^ 23" using M(2) by simp
    have "real (float_frac bits) * 2 powi (- 149) < 2 ^ 23 * 2 powi (- 149)"
      by (rule mult_strict_right_mono [OF less zero_less_power_int]) simp
    also have "\<dots> = 2 powi (- 126)" using power_int_add [of "2 :: real" 23 "- 149"] by simp
    finally show ?thesis using True by (simp add: float_magnitude_def)
  next
    case False
    then show ?thesis using M(2) unfolding shift(2) float_magnitude_def
      by (simp only: if_False) (intro mult_strict_right_mono, auto)
  qed
qed

lemma floor_scaled:
  assumes "120 \<le> float_exp bits" "float_exp bits \<le> 134"
  shows "\<lfloor>128 * float_magnitude bits - 1 / 256\<rfloor> = int ((float_scaled bits - 256) div 2 ^ 16)"
proof -
  let ?e = "float_exp bits" and ?M = "2 ^ 23 + float_frac bits"
  have mag: "128 * float_magnitude bits - 1 / 256 = (real ?M * 2 powi (int ?e - 127) - 256) / 65536"
    using assms(1) by (simp add: float_magnitude_def power_int_diff field_simps)
  show ?thesis
  proof (cases "?e \<le> 127")
    case True
    let ?k = "127 - ?e"
    have "(2 :: nat) ^ ?k \<le> 2 ^ 7" using assms(1) by (intro power_increasing) auto
    then obtain N where N: "?M = N + 256 * 2 ^ ?k"
      using le_Suc_ex [of "256 * 2 ^ ?k" ?M] by (auto simp: add.commute)
    have p: "(2 :: real) powi (int ?e - 127) = 1 / 2 ^ ?k"
    proof -
      have "int ?e - 127 = - int ?k" using True by simp
      then show ?thesis by (simp only: power_int_minus power_int_of_nat divide_inverse mult_1)
    qed
    have "128 * float_magnitude bits - 1 / 256 = real N / real (2 ^ ?k * 2 ^ 16)"
      unfolding mag N p by (simp add: field_simps)
    then have "\<lfloor>128 * float_magnitude bits - 1 / 256\<rfloor> = int (N div (2 ^ ?k * 2 ^ 16))"
      by (simp only: floor_divide_of_nat_eq)
    moreover have "float_scaled bits = N div 2 ^ ?k + 256"
      using True unfolding float_scaled_def N by simp
    ultimately show ?thesis by (simp only: div_mult2_eq) simp
  next
    case False
    let ?j = "?e - 127"
    have p: "(2 :: real) powi (int ?e - 127) = 2 ^ ?j"
      using False power_int_of_nat [of "2 :: real" ?j] by (simp add: of_nat_diff)
    have s: "float_scaled bits = ?M * 2 ^ ?j" using False by (simp add: float_scaled_def)
    have "128 * float_magnitude bits - 1 / 256 = real (float_scaled bits - 256) / real (2 ^ 16)"
      using float_scaled_bounds(1) [OF assms] unfolding mag p
      by (simp add: s of_nat_diff)
    then show ?thesis by (simp only: floor_divide_of_nat_eq)
  qed
qed

lemma float_exp_of_magnitude:
  "float_magnitude bits < 2 powi k \<Longrightarrow> - 127 < k \<Longrightarrow> int (float_exp bits) < 127 + k"
proof (cases "float_exp bits = 0")
  case False
  assume "float_magnitude bits < 2 powi k"
  then have "(2 :: real) powi (int (float_exp bits) - 127) < 2 powi k"
    using float_magnitude_bounds(1) [OF False] by linarith
  then have "int (float_exp bits) - 127 < k"
    using power_int_increasing [of k "int (float_exp bits) - 127" "2 :: real"] by fastforce
  then show ?thesis by simp
qed simp

lemma scaled_at_most_127:
  assumes "120 \<le> float_exp bits" "float_magnitude bits \<le> 1"
  shows "float_exp bits \<le> 127" "(float_scaled bits - 256) div 2 ^ 16 \<le> 127"
proof -
  show e: "float_exp bits \<le> 127"
    using float_exp_of_magnitude [of bits 1] assms(2) by simp
  have "float_scaled bits \<le> 2 ^ 23"
  proof (cases "float_exp bits = 127")
    case True
    then have "real (2 ^ 23 + float_frac bits) * 2 powi (- 23) \<le> 1"
      using assms(2) by (simp add: float_magnitude_def)
    then have "real (2 ^ 23 + float_frac bits) \<le> 2 ^ 23" by (simp add: power_int_minus)
    then have "float_frac bits = 0" by simp
    with True show ?thesis by (simp add: float_scaled_def)
  next
    case False
    with e show ?thesis using float_scaled_bounds(3) [of bits] assms(1) by simp
  qed
  then have "(float_scaled bits - 256) div 2 ^ 16 \<le> (2 ^ 23 - 256) div 2 ^ 16"
    by (intro div_le_mono) simp
  then show "(float_scaled bits - 256) div 2 ^ 16 \<le> 127" by simp
qed

lemma convint8_small:
  assumes "float_exp bits < 120"
  shows "convint8 p bits = Ok 0"
proof -
  have "drop_bit 23 bits AND 0xff < 0x78"
    using assms unat_exp [of bits] by (simp add: word_less_nat_alt)
  then show ?thesis by (simp add: convint8_def Let_def)
qed

lemma small_floor:
  assumes "float_exp bits < 120"
  shows "\<lfloor>128 * float_magnitude bits - 1 / 256\<rfloor> \<le> 0"
proof -
  have "(2 :: real) powi (int (float_exp bits) - 126) \<le> 2 powi (- 7)"
    using assms by (intro power_int_increasing) auto
  then have "float_magnitude bits < 1 / 128"
    using float_magnitude_bounds(2) [of bits] by (simp add: power_int_minus)
  then show ?thesis by (simp add: floor_le_iff)
qed

lemma floor_error:
  assumes "0 \<le> (y :: real)"
  shows "\<bar>real_of_int (max 0 \<lfloor>y - 1 / 256\<rfloor>) - y\<bar> \<le> 1 + 1 / 256"
proof -
  define f where "f = \<lfloor>y - 1 / 256\<rfloor>"
  have f: "real_of_int f \<le> y - 1 / 256" "y - 1 / 256 < real_of_int f + 1"
    unfolding f_def by linarith+
  show ?thesis
  proof (cases "f \<le> 0")
    case True
    then have "real_of_int f \<le> 0" by simp
    with f assms True show ?thesis unfolding f_def [symmetric] by (simp add: max_absorb1)
  next
    case False
    with f show ?thesis unfolding f_def [symmetric] by (simp add: max_absorb2)
  qed
qed

definition sample_of_float :: "u32 \<Rightarrow> int" where
  "sample_of_float bits = float_sign bits * max 0 \<lfloor>128 * float_magnitude bits - 1 / 256\<rfloor>"

lemma convint8_in_range:
  assumes "float_magnitude bits \<le> 1"
  shows "convint8 p bits = Ok (of_int (sample_of_float bits)) \<and> \<bar>sample_of_float bits\<bar> \<le> 127"
proof (cases "float_exp bits < 120")
  case True
  then show ?thesis
    using convint8_small [OF True, of p]
    by (simp only: sample_of_float_def max_absorb1 [OF small_floor [OF True]]) simp
next
  case False
  then have e: "120 \<le> float_exp bits" by simp
  let ?n = "(float_scaled bits - 256) div 2 ^ 16"
  note le = scaled_at_most_127 [OF e assms]
  have s: "sample_of_float bits = float_sign bits * int ?n"
    using floor_scaled [OF e] le(1) by (simp add: sample_of_float_def)
  have "convint8 p bits = Ok (of_int (float_sign bits * int ?n))"
    using convint8_middle [OF e, of p] le(1) mul_i8_sign [OF le(2)] by simp
  then show ?thesis using le(2) by (simp add: s float_sign_def)
qed

subsection \<open>Properties\<close>

text \<open>C31: on samples in \<open>[-1, 1]\<close> the conversion never panics and is exact up to rounding: with \<open>x\<close> the
  IEEE value of the bits, it gives the sign of \<open>x\<close> times the floor of \<open>128 * |x| - 1/256\<close>, or 0.\<close>

theorem convint8_exact:
  assumes "float_magnitude bits \<le> 1"
  shows "\<exists>v. convint8 p bits = Ok v
    \<and> sint v = float_sign bits * max 0 \<lfloor>128 * float_magnitude bits - 1 / 256\<rfloor>
    \<and> \<bar>real_of_int (sint v) - 128 * (real_of_int (float_sign bits) * float_magnitude bits)\<bar> \<le> 1 + 1 / 256"
proof -
  have r: "convint8 p bits = Ok (of_int (sample_of_float bits))" "\<bar>sample_of_float bits\<bar> \<le> 127"
    using convint8_in_range [OF assms, of p] by simp_all
  have v: "sint (of_int (sample_of_float bits) :: i8) = sample_of_float bits"
    using r(2) by (intro sint_of_small) auto
  let ?y = "128 * float_magnitude bits"
  have y: "0 \<le> ?y" by (simp add: float_magnitude_def)
  have "\<bar>real_of_int (max 0 \<lfloor>?y - 1 / 256\<rfloor>) - ?y\<bar> \<le> 1 + 1 / 256"
    by (rule floor_error [OF y])
  then have "\<bar>real_of_int (sample_of_float bits)
      - 128 * (real_of_int (float_sign bits) * float_magnitude bits)\<bar> \<le> 1 + 1 / 256"
    by (simp add: sample_of_float_def float_sign_def abs_minus_commute)
  then have "\<bar>real_of_int (sint (of_int (sample_of_float bits) :: i8))
      - 128 * (real_of_int (float_sign bits) * float_magnitude bits)\<bar> \<le> 1 + 1 / 256"
    by (simp only: v)
  with r(1) v show ?thesis unfolding sample_of_float_def [symmetric] by blast
qed

theorem convint8_exact_witness:
  "\<exists>v. convint8 Dev 0x3F000000 = Ok v
    \<and> sint v = float_sign 0x3F000000 * max 0 \<lfloor>128 * float_magnitude 0x3F000000 - 1 / 256\<rfloor>
    \<and> \<bar>real_of_int (sint v) - 128 * (real_of_int (float_sign 0x3F000000) * float_magnitude 0x3F000000)\<bar> \<le> 1 + 1 / 256"
  by (rule convint8_exact)
    (simp add: float_magnitude_def float_exp_def float_frac_def)

text \<open>The conversion is monotone on \<open>[-1, 1]\<close>: a louder sample never plays softer.\<close>

theorem convint8_monotone:
  assumes "float_magnitude a \<le> 1" "float_magnitude b \<le> 1"
    and "real_of_int (float_sign a) * float_magnitude a \<le> real_of_int (float_sign b) * float_magnitude b"
  shows "\<exists>v w. convint8 p a = Ok v \<and> convint8 p b = Ok w \<and> sint v \<le> sint w"
proof -
  have r: "convint8 p a = Ok (of_int (sample_of_float a))" "convint8 p b = Ok (of_int (sample_of_float b))"
    "\<bar>sample_of_float a\<bar> \<le> 127" "\<bar>sample_of_float b\<bar> \<le> 127"
    using convint8_in_range [OF assms(1), of p] convint8_in_range [OF assms(2), of p] by simp_all
  have s: "sint (of_int (sample_of_float a) :: i8) = sample_of_float a"
    "sint (of_int (sample_of_float b) :: i8) = sample_of_float b"
    using r(3,4) by (auto intro!: sint_of_small)
  have nonneg: "0 \<le> float_magnitude x" for x by (simp add: float_magnitude_def)
  have pos: "0 \<le> max 0 \<lfloor>128 * float_magnitude x - 1 / 256\<rfloor>" for x by simp
  have mono: "max 0 \<lfloor>128 * float_magnitude x - 1 / 256\<rfloor> \<le> max 0 \<lfloor>128 * float_magnitude y - 1 / 256\<rfloor>"
    if "float_magnitude x \<le> float_magnitude y" for x y
    using that by (intro max.mono floor_mono) simp_all
  have "sample_of_float a \<le> sample_of_float b"
    using assms(3) nonneg [of a] nonneg [of b] pos [of a] pos [of b] mono [of a b] mono [of b a]
    unfolding sample_of_float_def float_sign_def
    by (cases "float_negative a"; cases "float_negative b"; linarith?) auto
  then show ?thesis using r(1,2) s by auto
qed

theorem convint8_monotone_witness:
  "\<exists>v w. convint8 Dev 0xBF000000 = Ok v \<and> convint8 Dev 0x3E800000 = Ok w \<and> sint v \<le> sint w"
  by (rule convint8_monotone)
    (simp_all add: float_magnitude_def float_exp_def float_frac_def float_sign_def float_negative_def)

text \<open>C32: the clip covers magnitudes from 256 on only. For magnitudes from 1 to 256 the converted value
  is the unclipped formula taken modulo 256: in the release profile a sample just above 1 becomes
  -128 instead of 127, and a loud sample comes out with any value.\<close>

theorem convint8_wraps_above_one:
  assumes "127 \<le> float_exp bits" "float_exp bits \<le> 134"
  shows "convint8 Release bits
    = Ok (of_int (float_sign bits * \<lfloor>128 * float_magnitude bits - 1 / 256\<rfloor>))"
proof -
  have e: "120 \<le> float_exp bits" using assms(1) by simp
  show ?thesis
    using convint8_middle [OF e assms(2), of Release] floor_scaled [OF e assms(2)]
    by (simp add: mul_i8_def)
qed

theorem convint8_wraps_above_one_witness:
  "convint8 Release 0x3F800100
      = Ok (of_int (float_sign 0x3F800100 * \<lfloor>128 * float_magnitude 0x3F800100 - 1 / 256\<rfloor>))
    \<and> convint8 Release 0x3F800100 = Ok (- 128)"
  using convint8_wraps_above_one [of "0x3F800100"]
  by (auto simp: float_exp_def convint8_def sub_word_def mul_i8_def)

lemma convint8_negative_panics: "convint8 Dev 0xBF800100 = Panic ArithmeticOverflow"
  by (simp add: convint8_def sub_word_def mul_i8_def word_less_nat_alt)

end
