(* ===== verification/RunStream.thy ===== *)
theory RunStream
  imports Dac Convint "HOL-Library.Sublist"
begin

text \<open>
  The body of a stream task (\<^verbatim>\<open>run_stream\<close> of \<^verbatim>\<open>src/app/stream.rs\<close>): it opens the DAC, then converts and
  writes one packet, or silence, per turn, and closes the DAC when it ends. What the queue gives in each
  turn is a parameter here; the queue's side of a turn is \<^verbatim>\<open>stream_turn\<close> of the theory \<^verbatim>\<open>Stream\<close>. The samples
  of a packet are its floats' bits, as the code transmutes them.
\<close>

subsection \<open>From samples to frames\<close>

fun frames_loop :: "profile \<Rightarrow> u32 list \<Rightarrow> nat list \<Rightarrow> frame list \<Rightarrow> frame list outcome" where
  "frames_loop p audio [] buff = Ok buff"
| "frames_loop p audio (i # is) buff =
     (if length audio \<le> i * 2 + 1 \<or> length buff \<le> i then Panic IndexOutOfBounds
      else bind_outcome (convint8 p (audio ! (i * 2 + 0))) (\<lambda>l.
           bind_outcome (convint8 p (audio ! (i * 2 + 1))) (\<lambda>r.
             frames_loop p audio is (buff[i := Frame l r]))))"

text \<open>\<open>F\<close> is \<^verbatim>\<open>FRAMES_PER_PACKET\<close>, a constant of \<^verbatim>\<open>bark_protocol\<close>; a packet has \<open>2 * F\<close> samples.\<close>

definition convert_audio :: "profile \<Rightarrow> nat \<Rightarrow> u32 list \<Rightarrow> frame list \<Rightarrow> frame list outcome" where
  "convert_audio p F audio buff = frames_loop p audio [0..<F] buff"

definition SILENCE :: "nat \<Rightarrow> u32 list" where
  "SILENCE F = replicate (2 * F) 0"

definition turn_audio :: "nat \<Rightarrow> ('a \<Rightarrow> u32 list) \<Rightarrow> 'a option \<Rightarrow> u32 list" where
  "turn_audio F samples packet = (case packet of Some pkt \<Rightarrow> samples pkt | None \<Rightarrow> SILENCE F)"

subsection \<open>The loop\<close>

text \<open>
  In a turn the queue is disconnected, or gives a packet or nothing; the interrupts during the write are
  part of the turn. A turn whose interrupts leave the write unfinished leaves the task suspended.
\<close>

datatype 'a turn = Disconnected | Play "'a option" "dac_event list list"

datatype 'e stream_end = OpenDac 'e | DacFailed 'e | Finished | Suspended

fun stream_loop ::
    "profile \<Rightarrow> (task_ptr \<Rightarrow> bool) \<Rightarrow> raw_waker \<Rightarrow> task_ptr \<Rightarrow> slots \<Rightarrow> nat \<Rightarrow> ('a \<Rightarrow> u32 list) \<Rightarrow> 'a turn list \<Rightarrow>
     frame list \<Rightarrow> dac_env \<Rightarrow> (bool \<times> dma_frame list list \<times> dac_env) outcome" where
  "stream_loop p notify cx current slots F samples [] buff env = Ok (False, [], env)"
| "stream_loop p notify cx current slots F samples (Disconnected # turns) buff env = Ok (True, [], env)"
| "stream_loop p notify cx current slots F samples (Play packet sched # turns) buff env =
     bind_outcome (convert_audio p F (turn_audio F samples packet) buff) (\<lambda>buff1.
     bind_outcome (dac_write p notify cx current slots sched buff1 env) (\<lambda>(rest, played, env1).
       if rest \<noteq> [] then Ok (False, played, env1)
       else bind_outcome (stream_loop p notify cx current slots F samples turns buff1 env1)
         (\<lambda>(finished, played', env2). Ok (finished, played @ played', env2))))"

text \<open>The DAC is a local of the function, dropped wherever it returns.\<close>

definition run_stream ::
    "profile \<Rightarrow> (task_ptr \<Rightarrow> bool) \<Rightarrow> raw_waker \<Rightarrow> task_ptr \<Rightarrow> slots \<Rightarrow> 'e dac_driver \<Rightarrow> nat \<Rightarrow> ('a \<Rightarrow> u32 list) \<Rightarrow>
     'a turn list \<Rightarrow> dac_world \<Rightarrow> ('e stream_end \<times> dma_frame list list \<times> dac_world) outcome" where
  "run_stream p notify cx current slots drv F samples turns w =
     bind_outcome (dac_new drv w) (\<lambda>(opened, w1).
       case opened of
         Inl e \<Rightarrow> Ok (OpenDac e, [], w1)
       | Inr _ \<Rightarrow>
           (case dac_enable drv w1 of
              (Inl e, w2) \<Rightarrow> Ok (DacFailed e, [], dac_drop drv w2)
            | (Inr _, w2) \<Rightarrow>
                (case dac_start_async_writing drv w2 of
                   (Inl e, w3) \<Rightarrow> Ok (DacFailed e, [], dac_drop drv w3)
                 | (Inr _, w3) \<Rightarrow>
                     bind_outcome (stream_loop p notify cx current slots F samples turns (replicate F default) (dw_env w3))
                       (\<lambda>(finished, played, env).
                          let w4 = w3\<lparr>dw_env := env\<rparr>
                          in if finished then Ok (Finished, played, dac_drop drv w4)
                             else Ok (Suspended, played, w4)))))"

subsection \<open>What a turn plays\<close>

text \<open>Samples the conversion is made for: in \<open>[-1, 1]\<close>, and as many as a packet has.\<close>

definition audio_ok :: "nat \<Rightarrow> u32 list \<Rightarrow> bool" where
  "audio_ok F audio \<longleftrightarrow> length audio = 2 * F \<and> list_all (\<lambda>bits. float_magnitude bits \<le> 1) audio"

definition sample8 :: "u32 \<Rightarrow> i8" where
  "sample8 bits = of_int (sample_of_float bits)"

definition audio_frames :: "nat \<Rightarrow> u32 list \<Rightarrow> frame list" where
  "audio_frames F audio = map (\<lambda>i. Frame (sample8 (audio ! (2 * i))) (sample8 (audio ! (2 * i + 1)))) [0..<F]"

lemma frames_loop_spec:
  assumes "audio_ok F audio" "length buff = F" "k \<le> F"
  shows "frames_loop p audio [k..<F] buff = Ok (take k buff @ drop k (audio_frames F audio))"
  using assms(2,3)
proof (induction "F - k" arbitrary: k buff)
  case 0
  then show ?case by (simp add: audio_frames_def)
next
  case (Suc n)
  have k: "k < F" using Suc.hyps(2) by simp
  have len: "length audio = 2 * F" using assms(1) by (simp add: audio_ok_def)
  have mag: "float_magnitude (audio ! j) \<le> 1" if "j < 2 * F" for j
    using assms(1) that by (auto simp: audio_ok_def list_all_iff)
  have c: "convint8 p (audio ! (k * 2)) = Ok (sample8 (audio ! (2 * k)))"
    "convint8 p (audio ! (k * 2 + 1)) = Ok (sample8 (audio ! (2 * k + 1)))"
    using convint8_in_range [OF mag [of "2 * k"], of p] convint8_in_range [OF mag [of "2 * k + 1"], of p] k
    by (simp_all add: sample8_def mult.commute)
  let ?f = "Frame (sample8 (audio ! (2 * k))) (sample8 (audio ! (2 * k + 1)))"
  have nth: "audio_frames F audio ! k = ?f" using k by (simp add: audio_frames_def)
  have "frames_loop p audio [k..<F] buff = frames_loop p audio [Suc k..<F] (buff[k := ?f])"
    using k len c Suc.prems(1) by (simp add: upt_conv_Cons [OF k])
  also have "\<dots> = Ok (take (Suc k) (buff[k := ?f]) @ drop (Suc k) (audio_frames F audio))"
    using Suc.hyps Suc.prems k by (intro Suc.hyps(1)) simp_all
  also have "take (Suc k) (buff[k := ?f]) = take k buff @ [?f]"
    using k Suc.prems(1) by (simp add: take_Suc_conv_app_nth)
  also have "(take k buff @ [?f]) @ drop (Suc k) (audio_frames F audio) = take k buff @ drop k (audio_frames F audio)"
    using k nth Cons_nth_drop_Suc [of k "audio_frames F audio"] by (simp add: audio_frames_def)
  finally show ?case .
qed

lemma convert_audio_spec:
  "audio_ok F audio \<Longrightarrow> length buff = F \<Longrightarrow> convert_audio p F audio buff = Ok (audio_frames F audio)"
  using frames_loop_spec [of F audio buff 0 p] by (simp add: convert_audio_def)

lemma silence_ok: "audio_ok F (SILENCE F)"
  by (simp add: audio_ok_def SILENCE_def list_all_iff float_magnitude_def float_exp_def float_frac_def)

text \<open>A turn with enough interrupts for its write, as the one that ends \<open>dac_write\<close>.\<close>

definition turn_ok :: "nat \<Rightarrow> ('a \<Rightarrow> u32 list) \<Rightarrow> 'a option \<times> dac_event list list \<Rightarrow> bool" where
  "turn_ok F samples t \<longleftrightarrow> audio_ok F (turn_audio F samples (fst t))
     \<and> list_all (\<lambda>evs. 0 < round_frames evs) (snd t) \<and> F < length (snd t)"

definition turns_of :: "('a option \<times> dac_event list list) list \<Rightarrow> 'a turn list" where
  "turns_of ts = map (\<lambda>(packet, sched). Play packet sched) ts @ [Disconnected]"

definition played_frames :: "nat \<Rightarrow> ('a \<Rightarrow> u32 list) \<Rightarrow> ('a option \<times> 'b) list \<Rightarrow> frame list" where
  "played_frames F samples ts = concat (map (\<lambda>t. audio_frames F (turn_audio F samples (fst t))) ts)"

lemma dac_write_length:
  assumes "rb_wf (dac_ring env)" "length slots = 32" "tid < 32"
    and "dac_write p notify (raw_waker_new (nth_id tid)) current slots sched data env = Ok (rest, played, env')"
  shows "buffer_len (dac_ring env') = buffer_len (dac_ring env)"
  using assms(1,4)
proof (induction sched arbitrary: data env rest played)
  case Nil
  then show ?case by simp
next
  case (Cons evs sched)
  show ?case
  proof (cases "data = []")
    case True
    then show ?thesis using Cons.prems by simp
  next
    case False
    obtain polled env1 where e1: "poll_write p (raw_waker_new (nth_id tid)) current slots data env = Ok (polled, env1)"
      "rb_wf (dac_ring env1)" "buffer_len (dac_ring env1) = buffer_len (dac_ring env)"
      using poll_write_spec [OF Cons.prems(1) assms(3), of p current slots data] by blast
    obtain sents env2 where e2: "isr_run p notify slots evs env1 = Ok (map2 event_played evs sents, env2)"
      "rb_wf (dac_ring env2)" "buffer_len (dac_ring env2) = buffer_len (dac_ring env1)"
      using isr_run_spec [OF e1(2) assms(2), of p notify evs] by blast
    show ?thesis using Cons.prems(2) False e1(1,3) e2(1,3) Cons.IH [OF e2(2)]
      by (auto simp: bind_outcome_eq_Ok)
  qed
qed

lemma map2_append:
  "length xs = length ys \<Longrightarrow> map2 f (xs @ xs') (ys @ ys') = map2 f xs ys @ map2 f xs' ys'"
  by simp

lemma stream_loop_spec:
  assumes "length slots = 32" "tid < 32"
  shows "rb_wf (dac_ring env) \<Longrightarrow> 1 < buffer_len (dac_ring env) \<Longrightarrow> length buff = F \<Longrightarrow>
    list_all (turn_ok F samples) ts \<Longrightarrow>
    \<exists>evs sents env'. stream_loop p notify (raw_waker_new (nth_id tid)) current slots F samples (turns_of ts) buff env
        = Ok (True, map2 event_played evs sents, env')
      \<and> length sents = length evs \<and> rb_wf (dac_ring env')
      \<and> concat sents @ rb_contents (dac_ring env') = rb_contents (dac_ring env) @ played_frames F samples ts"
proof (induction ts arbitrary: env buff)
  case Nil
  then show ?case by (auto simp: turns_of_def played_frames_def intro!: exI [of _ "[]"])
next
  case (Cons t ts)
  obtain packet sched where t: "t = (packet, sched)" by fastforce
  let ?fs = "audio_frames F (turn_audio F samples packet)"
  have ok: "audio_ok F (turn_audio F samples packet)" "\<forall>evs\<in>set sched. 0 < round_frames evs" "F < length sched"
    using Cons.prems(4) by (simp_all add: t turn_ok_def list_all_iff)
  have len: "length ?fs + (if rb_free (dac_ring env) = 0 then 1 else 0) \<le> length sched"
    using ok(3) by (simp add: audio_frames_def)
  obtain played1 env1 where w: "dac_write p notify (raw_waker_new (nth_id tid)) current slots sched ?fs env
      = Ok ([], played1, env1)"
    using dac_write_finishes [OF Cons.prems(1) assms Cons.prems(2) ok(2) len] by blast
  obtain k sents1 where k: "played1 = map2 event_played (concat (take k sched)) sents1"
    "length sents1 = length (concat (take k sched))" "rb_wf (dac_ring env1)"
    "concat sents1 @ rb_contents (dac_ring env1) = rb_contents (dac_ring env) @ ?fs"
    using dac_write_spec [OF Cons.prems(1) assms, of p notify current sched ?fs] w by auto
  have "1 < buffer_len (dac_ring env1)"
    using dac_write_length [OF Cons.prems(1) assms w] Cons.prems(2) by simp
  from Cons.IH [OF k(3) this, of ?fs] Cons.prems(4) obtain evs sents2 env2 where r:
    "stream_loop p notify (raw_waker_new (nth_id tid)) current slots F samples (turns_of ts) ?fs env1
      = Ok (True, map2 event_played evs sents2, env2)"
    "length sents2 = length evs" "rb_wf (dac_ring env2)"
    "concat sents2 @ rb_contents (dac_ring env2) = rb_contents (dac_ring env1) @ played_frames F samples ts"
    by (auto simp: audio_frames_def)
  have "stream_loop p notify (raw_waker_new (nth_id tid)) current slots F samples (turns_of (t # ts)) buff env
      = Ok (True, map2 event_played (concat (take k sched) @ evs) (sents1 @ sents2), env2)"
    using convert_audio_spec [OF ok(1) Cons.prems(3), of p] w r(1) k(1,2)
    by (simp add: turns_of_def t)
  moreover have "concat (sents1 @ sents2) @ rb_contents (dac_ring env2)
      = rb_contents (dac_ring env) @ played_frames F samples (t # ts)"
    using r(4) k(4) by (simp add: played_frames_def t)
  moreover have "length (sents1 @ sents2) = length (concat (take k sched) @ evs)" using k(2) r(2) by simp
  ultimately show ?case using r(3) by blast
qed

subsection \<open>The task\<close>

text \<open>The opening of the device, by which of the calls to the driver fails; an opened ring is full of silence.\<close>

lemma dac_opening:
  assumes "0 < buffer_len (dac_ring (dw_env w))" "dw_calls w = []"
  obtains (failed) e w1 where "dac_new drv w = Ok (Inl e, w1)" "drv [] NewChannels = Inl e" "dw_calls w1 = [NewChannels]"
  | (unregistered) e w1 where "dac_new drv w = Ok (Inl e, w1)" "drv [] NewChannels = Inr ()"
      "drv [NewChannels] RegisterEventCallback = Inl e"
      "dw_calls w1 = [NewChannels, RegisterEventCallback, StopAsyncWriting, DisableChannels, DelChannels]"
  | (opened) w1 w2 w3 where "dac_new drv w = Ok (Inr (), w1)" "drv [] NewChannels = Inr ()"
      "dac_enable drv w1 = (drv [NewChannels, RegisterEventCallback] EnableChannels, w2)"
      "dac_start_async_writing drv w2 = (drv [NewChannels, RegisterEventCallback, EnableChannels] StartAsyncWriting, w3)"
      "dw_calls w2 = [NewChannels, RegisterEventCallback, EnableChannels]"
      "dw_calls w3 = [NewChannels, RegisterEventCallback, EnableChannels, StartAsyncWriting]"
      "rb_wf (dac_ring (dw_env w3))" "buffer_len (dac_ring (dw_env w3)) = buffer_len (dac_ring (dw_env w))"
      "rb_contents (dac_ring (dw_env w3)) = replicate (buffer_len (dac_ring (dw_env w)) - 1) default"
proof -
  from dac_new_spec [OF assms(1), of drv] obtain r1 w1 where
    new: "dac_new drv w = Ok (r1, w1)" and
    c: "case drv [] NewChannels of
         Inl e \<Rightarrow> r1 = Inl e \<and> dw_calls w1 = [NewChannels] \<and> dw_env w1 = dw_env w
       | Inr _ \<Rightarrow> rb_wf (dac_ring (dw_env w1))
           \<and> rb_contents (dac_ring (dw_env w1)) = replicate (buffer_len (dac_ring (dw_env w)) - 1) default
           \<and> buffer_len (dac_ring (dw_env w1)) = buffer_len (dac_ring (dw_env w))
           \<and> (case drv [NewChannels] RegisterEventCallback of
                Inl e \<Rightarrow> r1 = Inl e \<and> dw_calls w1 = [NewChannels, RegisterEventCallback,
                  StopAsyncWriting, DisableChannels, DelChannels]
              | Inr _ \<Rightarrow> r1 = Inr () \<and> dw_calls w1 = [NewChannels, RegisterEventCallback])"
    unfolding assms(2) append.left_neutral by blast
  define w2 where "w2 = snd (dac_enable drv w1)"
  define w3 where "w3 = snd (dac_start_async_writing drv w2)"
  consider e where "drv [] NewChannels = Inl e" | e where "drv [] NewChannels = Inr ()" "drv [NewChannels] RegisterEventCallback = Inl e"
    | "drv [] NewChannels = Inr ()" "drv [NewChannels] RegisterEventCallback = Inr ()"
    by (cases "drv [] NewChannels"; cases "drv [NewChannels] RegisterEventCallback") auto
  then show thesis
  proof cases
    case 1
    then show thesis using c new failed by simp
  next
    case 2
    then show thesis using c new unregistered by simp
  next
    case 3
    then have o1: "dac_new drv w = Ok (Inr (), w1)" "dw_calls w1 = [NewChannels, RegisterEventCallback]" using c new by simp_all
    have en: "dac_enable drv w1 = (drv [NewChannels, RegisterEventCallback] EnableChannels, w2)"
      "dw_calls w2 = [NewChannels, RegisterEventCallback, EnableChannels]" "dw_env w2 = dw_env w1"
      using o1(2) by (simp_all add: w2_def dac_enable_def dac_sys_call_def)
    have st: "dac_start_async_writing drv w2 = (drv [NewChannels, RegisterEventCallback, EnableChannels] StartAsyncWriting, w3)"
      "dw_calls w3 = [NewChannels, RegisterEventCallback, EnableChannels, StartAsyncWriting]" "dw_env w3 = dw_env w1"
      using en(2,3) by (simp_all add: w3_def dac_start_async_writing_def dac_sys_call_def)
    show thesis by (rule opened [OF o1(1) 3(1) en(1) st(1) en(2) st(2)]) (use c 3 st(3) in simp_all)
  qed
qed

definition closed_calls :: "dac_sys list \<Rightarrow> bool" where
  "closed_calls made \<longleftrightarrow> (\<exists>calls. made = NewChannels # calls @ [StopAsyncWriting, DisableChannels, DelChannels]
     \<and> set calls \<inter> {NewChannels, StopAsyncWriting, DisableChannels, DelChannels} = {})"

lemma closed_callsI:
  "set calls \<inter> {NewChannels, StopAsyncWriting, DisableChannels, DelChannels} = {} \<Longrightarrow>
     closed_calls (NewChannels # calls @ [StopAsyncWriting, DisableChannels, DelChannels])"
  by (auto simp: closed_calls_def)

text \<open>Whatever the turns: a task that does not panic has closed what it opened, or is suspended in a write.\<close>

lemma run_stream_calls:
  assumes "0 < buffer_len (dac_ring (dw_env w))" "dw_calls w = []"
    and run: "run_stream p notify cx current slots drv F samples turns w = Ok (r, played, w')"
  shows "case drv [] NewChannels of
      Inl e \<Rightarrow> r = OpenDac e \<and> dw_calls w' = [NewChannels]
    | Inr _ \<Rightarrow> if r = Suspended then dw_calls w' = [NewChannels, RegisterEventCallback, EnableChannels, StartAsyncWriting]
        else closed_calls (dw_calls w')"
proof (cases rule: dac_opening [OF assms(1,2), of drv, case_names failed unregistered opened])
  case (failed e w1)
  then show ?thesis using run by (simp add: run_stream_def)
next
  case (unregistered e w1)
  then show ?thesis using run closed_callsI [of "[RegisterEventCallback]"] by (auto simp: run_stream_def)
next
  case (opened w1 w2 w3)
  have dropped: "closed_calls (dw_calls (dac_drop drv w2))" "closed_calls (dw_calls (dac_drop drv w3))"
    "closed_calls (dw_calls (dac_drop drv (w3\<lparr>dw_env := env\<rparr>)))" for env
    using opened(5,6) closed_callsI [of "[RegisterEventCallback, EnableChannels]"]
      closed_callsI [of "[RegisterEventCallback, EnableChannels, StartAsyncWriting]"] by simp_all
  note run' = run [unfolded run_stream_def opened(1) bind_outcome.simps prod.case sum.case opened(3,4)]
  consider (enable) e where "r = DacFailed e" "w' = dac_drop drv w2"
    | (start) e where "r = DacFailed e" "w' = dac_drop drv w3"
    | (finished) env where "r = Finished" "w' = dac_drop drv (w3\<lparr>dw_env := env\<rparr>)"
    | (suspended) env where "r = Suspended" "w' = w3\<lparr>dw_env := env\<rparr>"
    using run' by (cases "drv [NewChannels, RegisterEventCallback] EnableChannels";
        cases "drv [NewChannels, RegisterEventCallback, EnableChannels] StartAsyncWriting")
      (auto simp: return_ok Let_def split: if_splits)
  then show ?thesis using opened(2,6) dropped by cases auto
qed

lemma failed_call: "drv made c = Inl e \<Longrightarrow> \<exists>made c. drv made c \<noteq> Inr ()"
  by (intro exI [of _ made] exI [of _ c]) simp

text \<open>Turns in range: the task ends, and when no call fails it plays them all.\<close>

lemma run_stream_spec:
  assumes "length slots = 32" "tid < 32" "1 < buffer_len (dac_ring (dw_env w))"
    and "list_all (turn_ok F samples) ts" "dw_calls w = []"
  shows "\<exists>r played w'. run_stream p notify (raw_waker_new (nth_id tid)) current slots drv F samples (turns_of ts) w
      = Ok (r, played, w') \<and> r \<noteq> Suspended
    \<and> ((\<forall>made c. drv made c = Inr ()) \<longrightarrow> r = Finished
        \<and> (\<exists>evs sents. played = map2 event_played evs sents \<and> length sents = length evs
         \<and> concat sents @ rb_contents (dac_ring (dw_env w'))
             = replicate (buffer_len (dac_ring (dw_env w)) - 1) default @ played_frames F samples ts))"
proof -
  have "0 < buffer_len (dac_ring (dw_env w))" using assms(3) by simp
  then show ?thesis
  proof (cases rule: dac_opening [OF _ assms(5), of drv, consumes 1, case_names failed unregistered opened])
    case (opened w1 w2 w3)
    obtain evs sents env' where loop:
      "stream_loop p notify (raw_waker_new (nth_id tid)) current slots F samples (turns_of ts) (replicate F default) (dw_env w3)
        = Ok (True, map2 event_played evs sents, env')" "length sents = length evs"
      "concat sents @ rb_contents (dac_ring env')
        = replicate (buffer_len (dac_ring (dw_env w)) - 1) default @ played_frames F samples ts"
      using stream_loop_spec [OF assms(1,2), of "dw_env w3" "replicate F default" F samples ts p notify current]
        opened(7-9) assms(3,4) by auto
    consider e where "drv [NewChannels, RegisterEventCallback] EnableChannels = Inl e"
      | e where "drv [NewChannels, RegisterEventCallback] EnableChannels = Inr ()"
        "drv [NewChannels, RegisterEventCallback, EnableChannels] StartAsyncWriting = Inl e"
      | "drv [NewChannels, RegisterEventCallback] EnableChannels = Inr ()"
        "drv [NewChannels, RegisterEventCallback, EnableChannels] StartAsyncWriting = Inr ()"
      by (cases "drv [NewChannels, RegisterEventCallback] EnableChannels";
          cases "drv [NewChannels, RegisterEventCallback, EnableChannels] StartAsyncWriting") auto
    then show ?thesis by cases (use opened(1,3,4) loop in \<open>auto simp: run_stream_def intro: failed_call\<close>)
  qed (auto simp: run_stream_def intro: failed_call)
qed

subsection \<open>Properties\<close>


definition example_world :: dac_world where
  "example_world = \<lparr>dw_calls = [], dw_env = example_env []\<rparr>"

definition example_turn :: "nat option \<times> dac_event list list" where
  "example_turn = (Some 0x3F000000, replicate 3 [\<lparr>ev_buf = replicate 2 default, ev_buf_size = 8\<rparr>])"

lemma example_turn_ok: "list_all (turn_ok 1 (\<lambda>bits. [of_nat bits, 0])) [example_turn, (None, snd example_turn)]"
  by (simp add: turn_ok_def example_turn_def turn_audio_def SILENCE_def audio_ok_def round_frames_def event_output_def
      float_magnitude_def float_exp_def float_frac_def list_all_iff)

lemma example_world_simps: "dw_calls example_world = []" "1 < buffer_len (dac_ring (dw_env example_world))"
  "buffer_len (dac_ring (dw_env example_world)) = 8"
  by (simp_all add: example_world_def example_env_def buffer_len_def)




end
