(* ===== verification/EndToEnd.thy ===== *)
theory EndToEnd
  imports AppTask RunStream
begin

text \<open>
  From the network to the loudspeaker: a session's packets, through the receiver, the queue it shares with
  the stream's task, the task's conversion and the ring of the DAC, to the DMA buffers the interrupts fill.
\<close>

lemma first_arrival_received: "first_arrival seq_of head s acts = Some packet \<Longrightarrow> packet \<in> received acts"
  by (induction seq_of head s acts rule: first_arrival.induct) (auto simp: received_def split: if_splits)

text \<open>The frames that ought to be heard for the packets of a session, from the number \<open>start\<close> on.\<close>

definition session_frames ::
    "nat \<Rightarrow> ('a \<Rightarrow> u32 list) \<Rightarrow> ('a \<Rightarrow> u64) \<Rightarrow> nat \<Rightarrow> 'a pq_act list \<Rightarrow> frame list" where
  "session_frames F samples seq_of start acts =
     concat (map (\<lambda>k. audio_frames F (turn_audio F samples (first_arrival seq_of start (start + k) acts))) [0..<pops acts])"

text \<open>A packet's samples, and interrupts enough for every turn of the task.\<close>

definition packets_ok :: "nat \<Rightarrow> ('a \<Rightarrow> u32 list) \<Rightarrow> 'a pq_act list \<Rightarrow> bool" where
  "packets_ok F samples acts \<longleftrightarrow> list_all (\<lambda>act. case act of Receive packet \<Rightarrow> audio_ok F (samples packet) | PopFront \<Rightarrow> True) acts"

definition scheds_ok :: "nat \<Rightarrow> 'a pq_act list \<Rightarrow> dac_event list list list \<Rightarrow> bool" where
  "scheds_ok F acts scheds \<longleftrightarrow> length scheds = pops acts
     \<and> list_all (\<lambda>sched. list_all (\<lambda>evs. 0 < round_frames evs) sched \<and> F < length sched) scheds"

lemma packets_ok_received: "packets_ok F samples acts \<Longrightarrow> packet \<in> received acts \<Longrightarrow> audio_ok F (samples packet)"
  by (auto simp: packets_ok_def received_def list_all_iff)

lemma session_turns_ok:
  assumes "packets_ok F samples acts" "scheds_ok F acts scheds"
    and "outs = map (\<lambda>k. first_arrival seq_of start (start + k) acts) [0..<pops acts]"
  shows "list_all (turn_ok F samples) (zip outs scheds)"
proof -
  have "audio_ok F (turn_audio F samples packet)" if played: "packet \<in> set outs" for packet
  proof (cases packet)
    case None
    then show ?thesis using silence_ok by (simp add: turn_audio_def)
  next
    case (Some x)
    then obtain k where "first_arrival seq_of start (start + k) acts = Some x" using played unfolding assms(3) by auto
    then have "x \<in> received acts" by (rule first_arrival_received)
    then show ?thesis using packets_ok_received [OF assms(1)] Some by (simp add: turn_audio_def)
  qed
  then show ?thesis using assms(2) by (auto simp: turn_ok_def scheds_ok_def list_all_iff dest: set_zip_leftD set_zip_rightD)
qed

lemma session_turns_frames:
  assumes "scheds_ok F acts scheds"
    and "outs = map (\<lambda>k. first_arrival seq_of start (start + k) acts) [0..<pops acts]"
  shows "played_frames F samples (zip outs scheds) = session_frames F samples seq_of start acts"
proof -
  have "map (\<lambda>t. audio_frames F (turn_audio F samples (fst t))) (zip outs scheds)
      = map (\<lambda>packet. audio_frames F (turn_audio F samples packet)) (map fst (zip outs scheds))" by simp
  also have "map fst (zip outs scheds) = outs" using assms by (simp add: scheds_ok_def)
  finally show ?thesis by (simp add: played_frames_def session_frames_def assms(2) comp_def)
qed

text \<open>What the task takes from its queue is what the interrupts take from the ring, in frames.\<close>

lemma outs_are_heard:
  assumes outs: "outs = map (\<lambda>k. first_arrival seq_of start (start + k) acts) [0..<pops acts]"
    and ok: "packets_ok F samples acts" "scheds_ok F acts scheds"
    and dac: "length slots = 32" "tid < 32" "1 < buffer_len (dac_ring (dw_env w))" "dw_calls w = []" "\<forall>log c. drv log c = Inr ()"
  shows "\<exists>evs sents w'. run_stream p notify (raw_waker_new (nth_id tid)) current slots drv F samples (turns_of (zip outs scheds)) w
      = Ok (Finished, map2 event_played evs sents, w') \<and> length sents = length evs
    \<and> concat sents @ rb_contents (dac_ring (dw_env w'))
        = replicate (buffer_len (dac_ring (dw_env w)) - 1) default @ session_frames F samples seq_of start acts"
  using run_stream_spec [OF dac(1-3) session_turns_ok [OF ok outs] dac(4), of p notify current drv] dac(5)
  unfolding session_turns_frames [OF ok(2) outs] by blast

text \<open>C3: a session is heard as it was sent, as far as it arrived. For samples in [-1, 1], packet numbers less than 2 to
  the 32nd ahead of the first and not near 2 to the 64th, a DAC whose calls succeed and interrupts that go on coming:
  in whatever order packets come in, with whatever time packets, older streams and turns between them, and
  whenever the interrupts come, the DMA buffers take, after the silence the ring starts with, the samples of
  the packets \<open>start\<close>, \<open>start + 1\<close>, and so on, converted, each the first one that arrived under its number while
  it was in the window and a packet's length of silence where none did; what they have not taken yet is in
  the ring, and every buffer plays what its interrupt took. What the code does outside these bounds is the matter of
  the theories \<open>Convint\<close> and \<open>PacketQueue\<close>.\<close>

theorem session_is_heard:
  assumes "app_reach p P app0" "deque_laws (ap_deque P) items" "ap_queue_bytes P \<noteq> 0"
    and "malloc_fresh malloc (app_mem app0)" "is_new_session sid app0"
    and "prepare_stream P malloc sid start_seq app0 = Some app" "app_stream app = Some s"
    and "session_run p P (stream_queue s) app acts outs app'"
    and "unat start_seq + pops acts + MAX_QUEUED_PACKETS < 2 ^ 64"
    and "\<forall>packet\<in>received acts. unat (ap_seq P packet) < unat start_seq + 2 ^ 32"
    and "packets_ok F samples acts" "scheds_ok F acts scheds"
    and "length slots = 32" "tid < 32" "1 < buffer_len (dac_ring (dw_env w))" "dw_calls w = []" "\<forall>log c. drv log c = Inr ()"
  shows "\<exists>evs sents w'. run_stream p notify (raw_waker_new (nth_id tid)) current slots drv F samples (turns_of (zip outs scheds)) w
      = Ok (Finished, map2 event_played evs sents, w') \<and> length sents = length evs
    \<and> concat sents @ rb_contents (dac_ring (dw_env w'))
        = replicate (buffer_len (dac_ring (dw_env w)) - 1) default
          @ session_frames F samples (ap_seq P) (unat start_seq) acts"
  by (rule outs_are_heard [OF session_run_outs [OF assms(1-10)] assms(11-17)])

definition example_samples :: "u64 \<times> nat \<Rightarrow> u32 list" where
  "example_samples packet = [0x3F000000, 0]"

lemma example_session_ok:
  "packets_ok 1 example_samples [Receive (7, 3), PopFront]"
  "scheds_ok 1 [Receive (7 :: u64, 3 :: nat), PopFront] [snd example_turn]"
  by (simp_all add: packets_ok_def scheds_ok_def example_samples_def audio_ok_def example_turn_def round_frames_def
      event_output_def float_magnitude_def float_exp_def float_frac_def list_all_iff)

text \<open>One packet of one frame, at half of the range on the left.\<close>

lemma example_session_frames:
  "session_frames 1 example_samples (ap_seq example_params) 7 [Receive (7, 3), PopFront] = [Frame 63 0]"
proof -
  have "float_magnitude 0x3F000000 = 1 / 2" "float_magnitude 0 = 0"
    by (simp_all add: float_magnitude_def float_exp_def float_frac_def power_int_def power_divide)
  moreover have "\<lfloor>128 * (1 / 2) - 1 / 256 :: real\<rfloor> = 63" by (simp add: floor_eq_iff)
  ultimately have "sample8 0x3F000000 = 63" "sample8 0 = 0"
    by (simp_all only: sample8_def sample_of_float_def) (simp_all add: float_sign_def float_negative_def)
  then show ?thesis
    by (simp add: session_frames_def example_params_def MAX_QUEUED_PACKETS_def turn_audio_def audio_frames_def
        example_samples_def)
qed

theorem session_is_heard_witness:
  "\<exists>out evs sents w'. run_stream Dev (\<lambda>_. True) (raw_waker_new (nth_id 5)) 0 (replicate 32 None)
      (\<lambda>log c. Inr () :: int + unit) 1 example_samples (turns_of (zip [out] [snd example_turn])) example_world
      = Ok (Finished, map2 event_played evs sents, w')
    \<and> concat sents @ rb_contents (dac_ring (dw_env w')) = replicate 7 default @ [Frame 63 0]"
proof -
  obtain app s app' out where run: "prepare_stream example_params (\<lambda>_. 4096) 3 7 (app_init stats_new) = Some app"
    "app_stream app = Some s" "stream_queue s = 4096"
    "session_run Dev example_params 4096 app [Receive (7, 3), PopFront] [out] app'"
    using example_session_run by blast
  note heard = session_is_heard [OF reach_init example_params_laws example_session_hyps(1,2) run(1,2) _
      example_session_hyps(3,4) example_session_ok, unfolded run(3), OF run(4),
      where slots = "replicate 32 None" and tid = 5 and w = example_world and drv = "\<lambda>log c. Inr () :: int + unit"
        and notify = "\<lambda>_. True" and current = 0]
  show ?thesis
    using heard example_world_simps by (simp add: example_session_frames [simplified]) blast
qed

end
