(* ===== verification/Playback.thy ===== *)
theory Playback
  imports Firmware EndToEnd
begin

text \<open>
  A session in the running firmware: from the datagram that opens it, through whatever the threads of the
  theory \<^verbatim>\<open>Firmware\<close> do, to the frames that are played.
\<close>

subsection \<open>A run from the view of a session\<close>

text \<open>The packets and turns that concern the queue \<open>q\<close>, and what the turns gave.\<close>

definition session_acts :: "nat \<Rightarrow> ('e, 'a, 't, 'b, 'addr) fw_label list \<Rightarrow> 'a pq_act list" where
  "session_acts q = List.map_filter (\<lambda>l. case l of
       FwHandled (Received (Audio audio) addr, su) reply \<Rightarrow> Some (Receive audio)
     | FwTurn ptr (Some out) \<Rightarrow> if ptr = q then Some PopFront else None
     | _ \<Rightarrow> None)"

definition session_outs :: "nat \<Rightarrow> ('e, 'a, 't, 'b, 'addr) fw_label list \<Rightarrow> 'a option list" where
  "session_outs q = List.map_filter (\<lambda>l. case l of
       FwTurn ptr (Some out) \<Rightarrow> if ptr = q then Some out else None
     | _ \<Rightarrow> None)"

text \<open>
  The session lasts as long as no packet of a newer one is handled, the application task does not end (so that it is not
  started again either), and
  the DAC does not fail the session's task.
\<close>

definition session_lasts ::
    "('a, 'sid::linorder, 'q, 'h, 'g, 'd) app_params \<Rightarrow> 'sid \<Rightarrow> nat \<Rightarrow> ('e, 'a, 't, 'b, 'addr) fw_label list \<Rightarrow> bool" where
  "session_lasts P sid q = list_all (\<lambda>l. case l of
       FwHandled (Received (Audio audio) addr, su) reply \<Rightarrow> ap_sid P audio \<le> sid
     | FwEnd m e \<Rightarrow> False
     | FwFail ptr \<Rightarrow> ptr \<noteq> q
     | _ \<Rightarrow> True)"

definition current_session :: "'sid \<Rightarrow> nat \<Rightarrow> ('sid, 'tm, 'q) app \<Rightarrow> bool" where
  "current_session sid q app \<longleftrightarrow> (\<exists>s. app_stream app = Some s \<and> stream_sid s = sid \<and> stream_queue s = q)"

lemma session_run_append:
  "session_run p P q app acts outs app1 \<Longrightarrow> session_run p P q app1 acts' outs' app' \<Longrightarrow>
     session_run p P q app (acts @ acts') (outs @ outs') app'"
  by (induction rule: session_run.induct) (auto intro: session_run.intros)

lemma session_snoc:
  "session_acts q (trace @ [l]) = session_acts q trace @ session_acts q [l]"
  "session_outs q (trace @ [l]) = session_outs q trace @ session_outs q [l]"
  "session_lasts P sid q (trace @ [l]) \<longleftrightarrow> session_lasts P sid q trace \<and> session_lasts P sid q [l]"
  by (simp_all add: session_acts_def session_outs_def session_lasts_def map_filter_append)

lemma handle_audio_current:
  assumes inv: "app_inv P items app" and laws: "deque_laws (ap_deque P) items"
    and cur: "current_session sid q app" "ap_sid P audio \<le> sid"
    and h: "handle_audio p P malloc spawned audio app = Some (Ok app')"
  shows "\<not> is_new_session (ap_sid P audio) app \<and> current_session sid q app'"
proof -
  obtain s where s: "app_stream app = Some s" "stream_sid s = sid" "stream_queue s = q"
    using cur(1) by (auto simp: current_session_def)
  then have old: "\<not> is_new_session (ap_sid P audio) app" using cur(2) by (auto simp: is_new_session_def)
  then have "prepare_stream P malloc (ap_sid P audio) (ap_seq P audio) app = Some app"
    using s by (simp add: prepare_stream_def is_new_session_def)
  then have "receive_audio p P spawned audio s app = Some (Ok app')" using h s(1) by (simp add: handle_audio_def)
  then show ?thesis using receive_audio_spec [OF inv laws s(1), of p spawned audio] s(2,3) old
    by (auto simp: current_session_def)
qed

lemma current_reply: "current_session sid q app \<Longrightarrow> current_session sid q (handle_stream_reply P sid' time app)"
  by (auto simp: current_session_def handle_stream_reply_def get_stream_def)

lemma fw_step_session:
  assumes laws: "deque_laws (ap_deque P) items" and "ap_queue_bytes P \<noteq> 0"
  shows "fw_step p N P T l s s' \<Longrightarrow> app_reach p P (fw_app s) \<Longrightarrow> current_session sid q (fw_app s) \<Longrightarrow>
    session_lasts P sid q [l] \<Longrightarrow>
    session_run p P q (fw_app s) (session_acts q [l]) (session_outs q [l]) (fw_app s') \<and> current_session sid q (fw_app s')"
proof (induction rule: fw_step.induct)
  case (fw_packet s slots kind addr ch' su reply app')
  note inv = app_reach_inv [OF fw_packet.prems(1) assms]
  show ?case
  proof (cases kind)
    case (Audio audio)
    then have sid: "ap_sid P audio \<le> sid" and
      h: "handle_audio p P (su_malloc su) (su_spawned su) audio (fw_app s) = Some (Ok app')"
      using fw_packet.prems(3) fw_packet.hyps(5) by (auto simp: session_lasts_def handle_packet_def return_ok)
    note new = handle_audio_current [OF inv laws fw_packet.prems(2) sid h]
    then have "session_run p P q (fw_app s) [Receive audio] [] app'" using sr_audio [OF _ h sr_done] by blast
    then show ?thesis using new Audio by (simp add: session_acts_def session_outs_def List.map_filter_simps)
  next
    case (Time time)
    then consider "app' = fw_app s" | "app' = handle_stream_reply P (tp_sid T time) (tp_fields T time) (fw_app s)"
      using handle_packet_time [OF fw_packet.hyps(5) [unfolded Time]] by blast
    then have "session_run p P q (fw_app s) [] [] app' \<and> current_session sid q app'"
      by cases (use fw_packet.prems(2) current_reply in \<open>auto intro: session_run.intros\<close>)
    then show ?thesis using Time by (simp add: session_acts_def session_outs_def List.map_filter_simps)
  next
    case OtherPacket
    then have "app' = fw_app s" using fw_packet.hyps(5) by (auto simp: handle_packet_def)
    then show ?thesis using OtherPacket fw_packet.prems(2)
      by (simp add: session_acts_def session_outs_def List.map_filter_simps sr_done)
  qed
next
  case (fw_turn i s out app')
  note spec = stream_turn_spec [OF app_reach_inv [OF fw_turn.prems(1) assms] laws fw_turn.hyps(1), of p]
  have cur: "current_session sid q app'" using spec fw_turn.hyps(2) fw_turn.prems(2) by (auto simp: current_session_def)
  show ?case
  proof (cases "app_tasks (fw_app s) ! i = q")
    case True
    then have "out \<noteq> None"
      using spec fw_turn.hyps(2) fw_turn.prems(2) by (auto simp: current_session_def stream_holds_def)
    then obtain taken where "out = Some taken" by blast
    then show ?thesis using sr_turn [OF fw_turn.hyps(1) True _ sr_done] fw_turn.hyps(2) cur True
      by (simp add: session_acts_def session_outs_def List.map_filter_simps)
  next
    case False
    then show ?thesis using sr_other [OF fw_turn.hyps(1) False fw_turn.hyps(2) sr_done] cur
      by (cases out) (simp_all add: session_acts_def session_outs_def List.map_filter_simps)
  qed
next
  case (fw_fail i s app')
  have "app_stream app' = app_stream (fw_app s)" using fw_fail.hyps(2) by (auto simp: stream_task_fails_def)
  then show ?case using sr_fail [OF fw_fail.hyps(1) _ fw_fail.hyps(2) sr_done] fw_fail.prems(2,3)
    by (simp add: session_acts_def session_outs_def session_lasts_def List.map_filter_simps current_session_def)
qed (auto simp: session_acts_def session_outs_def session_lasts_def List.map_filter_simps current_session_def fw_queued_def
    intro: session_run.intros)

lemma fw_run_session:
  assumes "deque_laws (ap_deque P) items" "ap_queue_bytes P \<noteq> 0"
  shows "fw_run p N P T trace s s' \<Longrightarrow> app_reach p P (fw_app s) \<Longrightarrow> current_session sid q (fw_app s) \<Longrightarrow>
    session_lasts P sid q trace \<Longrightarrow>
    session_run p P q (fw_app s) (session_acts q trace) (session_outs q trace) (fw_app s') \<and> current_session sid q (fw_app s')"
proof (induction rule: fw_run.induct)
  case (fw_done s)
  then show ?case by (simp add: session_acts_def session_outs_def List.map_filter_simps sr_done)
next
  case (fw_then trace s s1 l s')
  have IH: "session_run p P q (fw_app s) (session_acts q trace) (session_outs q trace) (fw_app s1)"
    "current_session sid q (fw_app s1)"
    using fw_then.IH fw_then.prems by (auto simp: session_snoc)
  have "app_reach p P (fw_app s1)" using fw_run_reach [OF fw_then.hyps(1)] fw_then.prems(1) .
  with fw_step_session [OF assms fw_then.hyps(2) _ IH(2)] fw_then.prems(3) IH(1) show ?case
    by (auto simp: session_snoc intro: session_run_append)
qed

subsection \<open>The packet that opens a session\<close>

lemma handle_audio_opens:
  assumes "is_new_session (ap_sid P audio) app" "app_inv P items app" "deque_laws (ap_deque P) items"
    and "malloc_fresh malloc (app_mem app)" "ap_queue_bytes P \<noteq> 0"
    and "handle_audio p P malloc spawned audio app = Some (Ok app')" "app_stream app' = Some s"
  shows "\<exists>app1 s1. prepare_stream P malloc (ap_sid P audio) (ap_seq P audio) app = Some app1 \<and> app_stream app1 = Some s1
    \<and> session_run p P (stream_queue s1) app1 [Receive audio] [] app' \<and> current_session (ap_sid P audio) (stream_queue s1) app'"
proof -
  obtain app1 where app1: "prepare_stream P malloc (ap_sid P audio) (ap_seq P audio) app = Some app1" "app_inv P items app1"
    "case app_stream app1 of None \<Rightarrow> True | Some s \<Rightarrow> stream_sid s = ap_sid P audio"
    using prepare_stream_spec [OF assms(2,3,4,5), of "ap_sid P audio" "ap_seq P audio"] assms(1)
    by (auto split: option.splits)
  obtain s1 where s1: "app_stream app1 = Some s1"
    using assms(6,7) app1(1) by (cases "app_stream app1") (auto simp: handle_audio_def)
  then have cur: "current_session (ap_sid P audio) (stream_queue s1) app1"
    using app1(3) by (simp add: current_session_def)
  have "prepare_stream P malloc (ap_sid P audio) (ap_seq P audio) app1 = Some app1"
    using s1 app1(3) by (simp add: prepare_stream_def)
  then have h: "handle_audio p P malloc spawned audio app1 = Some (Ok app')"
    using assms(6) app1(1) by (simp add: handle_audio_def)
  note old = handle_audio_current [OF app1(2) assms(3) cur order_refl h]
  then have "session_run p P (stream_queue s1) app1 [Receive audio] [] app'" using sr_audio [OF _ h sr_done] by blast
  then show ?thesis using app1(1) s1 old by blast
qed

inductive_cases fw_handledE: "fw_step p N P T (FwHandled (Received (Audio audio) addr, su) reply) s s'"

lemma opening_outs:
  assumes laws: "deque_laws (ap_deque P) items" "ap_queue_bytes P \<noteq> 0" and reach: "app_reach p P (fw_app s0)"
    and opens: "fw_step p N P T (FwHandled (Received (Audio audio) addr, su) reply) s0 s1"
      "is_new_session (ap_sid P audio) (fw_app s0)" "app_stream (fw_app s1) = Some st"
    and run: "fw_run p N P T trace s1 s2" "session_lasts P (ap_sid P audio) (stream_queue st) trace"
    and acts: "acts = Receive audio # session_acts (stream_queue st) trace"
    and bounds: "unat (ap_seq P audio) + pops acts + MAX_QUEUED_PACKETS < 2 ^ 64"
      "\<forall>packet\<in>received acts. unat (ap_seq P packet) < unat (ap_seq P audio) + 2 ^ 32"
  shows "session_outs (stream_queue st) trace = map (\<lambda>k. first_arrival (ap_seq P) (unat (ap_seq P audio))
      (unat (ap_seq P audio) + k) acts) [0..<pops acts]"
proof -
  have step: "malloc_fresh (su_malloc su) (app_mem (fw_app s0))"
    "handle_audio p P (su_malloc su) (su_spawned su) audio (fw_app s0) = Some (Ok (fw_app s1))"
    using opens(1) by (auto elim!: fw_handledE simp: handle_packet_def return_ok)
  obtain app1 st1 where app1: "prepare_stream P (su_malloc su) (ap_sid P audio) (ap_seq P audio) (fw_app s0) = Some app1"
    "app_stream app1 = Some st1" "session_run p P (stream_queue st1) app1 [Receive audio] [] (fw_app s1)"
    "current_session (ap_sid P audio) (stream_queue st1) (fw_app s1)"
    using handle_audio_opens [OF opens(2) app_reach_inv [OF reach laws] laws(1) step(1) laws(2) step(2) opens(3)] by blast
  have q: "stream_queue st1 = stream_queue st" using app1(4) opens(3) by (simp add: current_session_def)
  have "session_run p P (stream_queue st) (fw_app s1) (session_acts (stream_queue st) trace)
      (session_outs (stream_queue st) trace) (fw_app s2)"
    using fw_run_session [OF laws run(1) fw_step_reach [OF opens(1) reach]] app1(4) run(2) unfolding q by blast
  from session_run_append [OF app1(3) [unfolded q] this]
  have "session_run p P (stream_queue st1) app1 acts (session_outs (stream_queue st) trace) (fw_app s2)"
    by (simp add: acts q)
  from session_run_outs [OF reach laws step(1) opens(2) app1(1,2) this bounds] show ?thesis .
qed

lemma datagram_label:
  "(case l of FwDatagram b addr \<Rightarrow> Some (message B b addr) | _ \<Rightarrow> None) = Some m
     \<longleftrightarrow> (\<exists>b addr. l = FwDatagram b addr \<and> m = message B b addr)"
  by (cases l) auto

lemma receive_label:
  "(case l of
      FwHandled (Received (Audio audio) addr, su) reply \<Rightarrow> Some (Receive audio)
    | FwTurn ptr (Some out) \<Rightarrow> if ptr = q then Some PopFront else None
    | _ \<Rightarrow> None) = Some (Receive packet)
     \<longleftrightarrow> (\<exists>addr su reply. l = FwHandled (Received (Audio packet) addr, su) reply)"
  by (cases l) (auto split: prod.split socket_result.split packet_kind.split option.split)

text \<open>Every packet that is handled came with a datagram.\<close>

lemma handled_came:
  fixes trace :: "('e, 'a, 't, 'b, 'addr) fw_label list"
  assumes "net_laws N items cap" "items h = []" "fw_run p N P T trace (fw_init n task h) s"
    and "(Received kind addr, su) \<in> set (handled_in trace)"
  shows "\<exists>b addr. FwDatagram b addr \<in> set trace
    \<and> classify (np_from_buffer N) (np_parse N) (message (np_pbuf N) b addr) = Some (Received kind addr)"
proof -
  let ?f = "classify (np_from_buffer N) (np_parse N)"
  obtain past taken where acc: "subseq (accepted_by past taken (items (ch_handle (fw_channel s)))) (messages_in (np_pbuf N) trace)"
    "map fst (handled_in trace) = List.map_filter ?f (concat (map fst past) @ taken)"
    using fw_run_accounted [OF assms(1,2,3) refl] unfolding fw_accounted_def by blast
  have "Received kind addr \<in> set (map fst (handled_in trace))" using assms(4) by force
  then obtain msg where msg: "msg \<in> set (concat (map fst past) @ taken)" "?f msg = Some (Received kind addr)"
    unfolding acc(2) set_map_filter by blast
  then have "msg \<in> set (accepted_by past taken (items (ch_handle (fw_channel s))))" by (fastforce simp: accepted_by_def)
  from list_emb_set [OF acc(1) this] have "msg \<in> set (messages_in (np_pbuf N) trace)" by auto
  then obtain b addr' where b: "FwDatagram b addr' \<in> set trace" "msg = message (np_pbuf N) b addr'"
    by (auto simp: messages_in_def set_map_filter datagram_label)
  have "addr' = addr"
    using msg(2) b(2) by (auto simp: classify_def message_def split: sum.splits outcome.splits)
  then show ?thesis using b msg(2) by blast
qed

lemma session_act_handled:
  assumes "packet \<in> received (session_acts q trace)"
  shows "\<exists>addr su. (Received (Audio packet) addr, su) \<in> set (handled_in trace)"
proof -
  obtain addr su reply where "FwHandled (Received (Audio packet) addr, su) reply \<in> set trace"
    using assms by (auto simp: received_def session_acts_def set_map_filter receive_label)
  then show ?thesis by (force simp: handled_in_def set_map_filter)
qed

lemma handled_in_append: "set (handled_in (xs @ ys)) = set (handled_in xs) \<union> set (handled_in ys)"
  by (simp add: handled_in_def map_filter_append)

lemma run_with_opening:
  "fw_run p N P T trace0 s s0 \<Longrightarrow> fw_step p N P T l s0 s1 \<Longrightarrow> fw_run p N P T trace s1 s2 \<Longrightarrow>
     fw_run p N P T ((trace0 @ [l]) @ trace) s s2"
  by (rule fw_run_append [OF _ fw_then])

subsection \<open>Properties\<close>

text \<open>C1: what came over the network is heard: in the running firmware, from the boot on and under any
  interleaving of network thread, application task, stream tasks and reports, when a packet opens a
  session and the session lasts, the frames taken from the ring of the DAC are its initial silence and then,
  number by number from the opening packet's on, the samples of the first packet with that number that the
  receiver handled in time, or silence; and each packet heard was the content of a datagram that
  came. The samples are in [-1, 1], the packet numbers less than 2 to the 32nd ahead of the first and not near 2 to the
  64th, the calls of the DAC succeed and its interrupts go on coming.\<close>

theorem datagrams_are_played:
  fixes N :: "('k, 'e, 'u, 'b, 'p, ('a, 't) packet_kind, 'addr) net_params"
  assumes "net_laws N items cap" "items h = []" "deque_laws (ap_deque P) dq_items" "ap_queue_bytes P \<noteq> 0"
    and "fw_run p N P T trace0 (fw_init n task h) s0"
    and "fw_step p N P T (FwHandled (Received (Audio audio) addr, su) reply) s0 s1"
    and "is_new_session (ap_sid P audio) (fw_app s0)" "app_stream (fw_app s1) = Some st"
    and "fw_run p N P T trace s1 s2" "session_lasts P (ap_sid P audio) (stream_queue st) trace"
    and "acts = Receive audio # session_acts (stream_queue st) trace"
    and "unat (ap_seq P audio) + pops acts + MAX_QUEUED_PACKETS < 2 ^ 64"
    and "\<forall>packet\<in>received acts. unat (ap_seq P packet) < unat (ap_seq P audio) + 2 ^ 32"
    and "packets_ok F samples acts" "scheds_ok F acts scheds"
    and "length slots = 32" "tid < 32" "1 < buffer_len (dac_ring (dw_env w))" "dw_calls w = []" "\<forall>calls c. drv calls c = Inr ()"
  shows "(\<exists>evs sents w'. run_stream p notify (raw_waker_new (nth_id tid)) current slots drv F samples
        (turns_of (zip (session_outs (stream_queue st) trace) scheds)) w
        = Ok (Finished, map2 event_played evs sents, w') \<and> length sents = length evs
      \<and> concat sents @ rb_contents (dac_ring (dw_env w'))
          = replicate (buffer_len (dac_ring (dw_env w)) - 1) default
            @ session_frames F samples (ap_seq P) (unat (ap_seq P audio)) acts)
    \<and> (\<forall>packet\<in>received acts. \<exists>b addr. FwDatagram b addr \<in> set (trace0 @ trace)
        \<and> classify (np_from_buffer N) (np_parse N) (message (np_pbuf N) b addr) = Some (Received (Audio packet) addr))"
proof -
  let ?opening = "FwHandled (Received (Audio audio) addr, su) reply"
  let ?all = "(trace0 @ [?opening]) @ trace"
  have reach: "app_reach p P (fw_app s0)" using fw_run_reach [OF assms(5) fw_init_reach] .
  note outs = opening_outs [OF assms(3,4) reach assms(6-13)]
  have all: "fw_run p N P T ?all (fw_init n task h) s2" by (rule run_with_opening [OF assms(5,6,9)])
  have "\<exists>addr su. (Received (Audio packet) addr, su) \<in> set (handled_in ?all)" if heard: "packet \<in> received acts" for packet
  proof (cases "packet = audio")
    case True
    then show ?thesis unfolding handled_in_append by (auto simp: handled_in_def List.map_filter_simps)
  next
    case False
    then have "packet \<in> received (session_acts (stream_queue st) trace)"
      using heard assms(11) by (simp add: received_def)
    from session_act_handled [OF this] show ?thesis unfolding handled_in_append by auto
  qed
  then have "\<exists>b addr. FwDatagram b addr \<in> set (trace0 @ trace)
      \<and> classify (np_from_buffer N) (np_parse N) (message (np_pbuf N) b addr) = Some (Received (Audio packet) addr)"
    if "packet \<in> received acts" for packet
    using handled_came [OF assms(1,2) all] that by fastforce
  then show ?thesis using outs_are_heard [OF outs assms(14-20)] by blast
qed

text \<open>The datagram of \<^const>\<open>example_net\<close> that was queued opens session 3; its task takes the packet.\<close>

lemma example_playing:
  "\<exists>s0 s1 s2 st. example_run [FwDatagram (8, [1]) 80, FwIdle, FwDatagram (8, [2]) 80] (fw_init 3 100 []) s0
    \<and> is_new_session (ap_sid example_params (7, 3)) (fw_app s0)
    \<and> example_step example_opening s0 s1 \<and> app_stream (fw_app s1) = Some st \<and> stream_queue st = 4096
    \<and> example_run [FwTurn 4096 (Some (Some (7, 3)))] s1 s2"
proof -
  obtain s0 st where s0: "example_run [FwDatagram (8, [1]) 80, FwIdle, FwDatagram (8, [2]) 80] (fw_init 3 100 []) s0"
    "fw_rx s0 = FwPolling" "fw_app s0 = app_init st" "ch_handle (fw_channel s0) = [Inr ((8, [1]), 80)]"
    using example_fw_run by blast
  obtain s1 st' where s1: "example_step example_opening s0 s1" "fw_app s1 = example_running\<lparr>app_stats := st'\<rparr>"
    using example_opened [OF s0(2-4)] by fastforce
  obtain app2 where turn: "stream_turn Dev example_params 0 (fw_app s1) = Some (Ok (Some (Some (7, 3)), app2))"
    using example_turn_pops_any [of st'] s1(2) by auto
  have "example_step (FwTurn 4096 (Some (Some (7, 3)))) s1 (s1\<lparr>fw_app := app2\<rparr>)"
    using fw_turn [OF _ turn, of example_net example_time] s1(2) by (simp add: example_running_def)
  note run = fw_then [OF fw_done this, unfolded append.simps]
  have "is_new_session (ap_sid example_params (7, 3)) (fw_app s0)"
    by (simp add: s0(3) is_new_session_def app_init_def)
  moreover obtain st1 where "app_stream (fw_app s1) = Some st1" "stream_queue st1 = 4096"
    by (simp add: s1(2) example_running_def)
  ultimately show ?thesis using s0(1) s1(1) run by blast
qed

theorem datagrams_are_played_witness:
  "\<exists>s0 s1 s2 evs sents w'.
      example_run [FwDatagram (8, [1]) 80, FwIdle, FwDatagram (8, [2]) 80] (fw_init 3 100 []) s0
    \<and> example_step example_opening s0 s1
    \<and> example_run [FwTurn 4096 (Some (Some (7, 3)))] s1 s2
    \<and> run_stream Dev (\<lambda>_. True) (raw_waker_new (nth_id 5)) 0 (replicate 32 None) (\<lambda>calls c. Inr () :: int + unit) 1
        example_samples (turns_of (zip [Some (7, 3)] [snd example_turn])) example_world
        = Ok (Finished, map2 event_played evs sents, w')
    \<and> concat sents @ rb_contents (dac_ring (dw_env w')) = replicate 7 default @ [Frame 63 0]"
proof -
  obtain s0 s1 s2 st where run: "example_run [FwDatagram (8, [1]) 80, FwIdle, FwDatagram (8, [2]) 80] (fw_init 3 100 []) s0"
    "is_new_session (ap_sid example_params (7, 3)) (fw_app s0)"
    "example_step example_opening s0 s1"
    "app_stream (fw_app s1) = Some st" "stream_queue st = 4096"
    "example_run [FwTurn 4096 (Some (Some (7, 3)))] s1 s2"
    using example_playing by blast
  let ?turn = "[FwTurn 4096 (Some (Some (7, 3)))] :: (string, u64 \<times> nat, nat, nat \<times> u8 list, nat) fw_label list"
  have seen: "session_acts 4096 ?turn = [PopFront]" "session_outs 4096 ?turn = [Some (7, 3)]"
    by (simp_all add: session_acts_def session_outs_def List.map_filter_simps)
  have acts: "[Receive (7, 3), PopFront] = Receive (7, 3) # session_acts (stream_queue st) ?turn"
    by (simp add: run(5) seen(1))
  have hyps: "session_lasts example_params (ap_sid example_params (7, 3)) (stream_queue st) ?turn"
    "unat (ap_seq example_params (7, 3)) + pops [Receive (7 :: u64, 3 :: nat), PopFront] + MAX_QUEUED_PACKETS < 2 ^ 64"
    "\<forall>packet\<in>received [Receive (7, 3), PopFront].
       unat (ap_seq example_params packet) < unat (ap_seq example_params (7, 3)) + 2 ^ 32"
    by (simp_all add: session_lasts_def run(5) MAX_QUEUED_PACKETS_def received_def example_params_def)
  note played = datagrams_are_played [OF example_net_laws refl example_params_laws run(1,3,2,4,6) hyps(1) acts hyps(2,3)
      example_session_ok, where slots = "replicate 32 None" and tid = 5 and w = example_world
        and drv = "\<lambda>calls c. Inr () :: int + unit" and notify = "\<lambda>_. True" and current = 0]
  have seven: "unat (ap_seq example_params (7, 3)) = 7" by (simp add: example_params_def)
  show ?thesis
    using played example_world_simps run(1,3,6)
    by (simp add: example_session_frames [simplified] seven run(5) seen(2)) blast
qed

end
