(* ===== verification/Handover.thy ===== *)
theory Handover
  imports Stream
begin

text \<open>
  The handover of the DAC from the task of an old session to that of the new one: \<^verbatim>\<open>run_stream\<close> opens the
  DAC before its loop, holds it while it plays and closes it when it returns
  (\<^verbatim>\<open>src/app/stream.rs\<close>, \<^verbatim>\<open>src/platform/dac.rs\<close>). The DAC exists once: ESP-IDF's
  \<^verbatim>\<open>dac_continuous_new_channels\<close> fails while another instance exists, which the driver's own safety
  argument rests on. The receiver's packets and the tasks interleave in any order.
\<close>

subsection \<open>Tasks and the DAC\<close>

text \<open>A task is known by the queue it plays; \<open>ho_dac\<close> is the queue of the task that has the DAC open.\<close>

record ('sid, 'tm, 'q) handover =
  ho_app :: "('sid, 'tm, 'q) app"
  ho_dac :: "nat option"

datatype ('a, 'sid, 'd) ho_action =
  HoAudio "nat \<Rightarrow> nat" bool 'a | HoReply 'sid "'d time_fields" | HoOpen nat | HoTurn nat | HoFail nat

definition close_dac :: "nat \<Rightarrow> nat option \<Rightarrow> nat option" where
  "close_dac ptr owner = (if owner = Some ptr then None else owner)"

text \<open>
  A task opens a DAC that is free; a turn of its loop needs the DAC and, when it is the last one, closes it.
  A task whose \<^verbatim>\<open>Dac::new\<close> or any later call of the DAC fails ends at once.
\<close>

inductive ho_step ::
    "profile \<Rightarrow> ('a, 'sid::linorder, 'q, 'h, 'g, 'd) app_params \<Rightarrow> ('a, 'sid, 'd) ho_action \<Rightarrow>
     ('sid, ('h, 'g) timing, 'q) handover \<Rightarrow> ('sid, ('h, 'g) timing, 'q) handover \<Rightarrow> bool"
  for p P where
  ho_audio: "malloc_fresh malloc (app_mem (ho_app h)) \<Longrightarrow>
    handle_audio p P malloc spawned audio (ho_app h) = Some (Ok app') \<Longrightarrow>
    ho_step p P (HoAudio malloc spawned audio) h (h\<lparr>ho_app := app'\<rparr>)"
| ho_reply: "ho_step p P (HoReply sid time) h (h\<lparr>ho_app := handle_stream_reply P sid time (ho_app h)\<rparr>)"
| ho_open: "i < length (app_tasks (ho_app h)) \<Longrightarrow> ho_dac h = None \<Longrightarrow>
    ho_step p P (HoOpen i) h (h\<lparr>ho_dac := Some (app_tasks (ho_app h) ! i)\<rparr>)"
| ho_turn: "i < length (app_tasks (ho_app h)) \<Longrightarrow> ho_dac h = Some (app_tasks (ho_app h) ! i) \<Longrightarrow>
    stream_turn p P i (ho_app h) = Some (Ok (out, app')) \<Longrightarrow>
    ho_step p P (HoTurn i) h (h\<lparr>ho_app := app',
      ho_dac := (if out = None then close_dac (app_tasks (ho_app h) ! i) (ho_dac h) else ho_dac h)\<rparr>)"
| ho_fail: "i < length (app_tasks (ho_app h)) \<Longrightarrow> stream_task_fails P i (ho_app h) = Some app' \<Longrightarrow>
    ho_step p P (HoFail i) h (h\<lparr>ho_app := app', ho_dac := close_dac (app_tasks (ho_app h) ! i) (ho_dac h)\<rparr>)"

inductive_cases ho_stepE: "ho_step p P act h h'"
inductive_cases ho_openE: "ho_step p P (HoOpen i) h h'"
inductive_cases ho_turnE: "ho_step p P (HoTurn i) h h'"
inductive_cases ho_failE: "ho_step p P (HoFail i) h h'"

inductive ho_run ::
    "profile \<Rightarrow> ('a, 'sid::linorder, 'q, 'h, 'g, 'd) app_params \<Rightarrow> ('a, 'sid, 'd) ho_action list \<Rightarrow>
     ('sid, ('h, 'g) timing, 'q) handover \<Rightarrow> ('sid, ('h, 'g) timing, 'q) handover \<Rightarrow> bool"
  for p P where
  ho_run_done: "ho_run p P [] h h"
| ho_run_step: "ho_step p P act h h1 \<Longrightarrow> ho_run p P acts h1 h' \<Longrightarrow> ho_run p P (act # acts) h h'"

definition ho_init :: "stats \<Rightarrow> ('sid, 'tm, 'q) handover" where
  "ho_init stats = \<lparr>ho_app = app_init stats, ho_dac = None\<rparr>"

subsection \<open>The application's part of a run\<close>

lemma ho_step_app:
  assumes "ho_step p P act h h'" "app_reach p P (ho_app h)"
  shows "app_reach p P (ho_app h')"
  using assms by (cases rule: ho_step.cases) (auto intro: app_reach.intros)

lemma ho_run_app: "ho_run p P acts h h' \<Longrightarrow> app_reach p P (ho_app h) \<Longrightarrow> app_reach p P (ho_app h')"
  by (induction rule: ho_run.induct) (auto intro: ho_step_app)

lemma ho_run_reach: "ho_run p P acts (ho_init stats) h \<Longrightarrow> app_reach p P (ho_app h)"
  using ho_run_app reach_init by (force simp: ho_init_def)

text \<open>The packets of a run that is within session \<open>sid\<close> are not of a newer one.\<close>

definition within_session :: "('a, 'sid::linorder, 'q, 'h, 'g, 'd) app_params \<Rightarrow> 'sid \<Rightarrow> ('a, 'sid, 'd) ho_action \<Rightarrow> bool" where
  "within_session P sid act = (case act of HoAudio malloc spawned audio \<Rightarrow> ap_sid P audio \<le> sid | _ \<Rightarrow> True)"

definition silent :: "'sid \<Rightarrow> nat \<Rightarrow> ('sid, 'tm, 'q) app \<Rightarrow> bool" where
  "silent sid ptr app \<longleftrightarrow> (\<exists>s. app_stream app = Some s \<and> stream_sid s = sid \<and> stream_queue s = ptr
     \<and> stream_start s = Started) \<and> ptr \<notin> set (app_tasks app)"

lemma silent_audio:
  assumes "silent sid ptr app" "ap_sid P audio \<le> sid"
    and "handle_audio p P malloc spawned audio app = Some (Ok app')"
  shows "silent sid ptr app'"
proof -
  obtain s where s: "app_stream app = Some s" "stream_sid s = sid" "stream_start s = Started"
    using assms(1) by (auto simp: silent_def)
  have "prepare_stream P malloc (ap_sid P audio) (ap_seq P audio) app = Some app"
    using s assms(2) by (auto simp: prepare_stream_def Let_def)
  then have "queue_receive_packet p P audio (stream_queue s) app = Some (Ok app')"
    using assms(3) s by (auto simp: handle_audio_def receive_audio_def bind_eq_Some_conv split: outcome.splits) (metis outcome.exhaust)
  from queue_receive_packet_stream [OF this] show ?thesis using assms(1) by (simp add: silent_def)
qed

lemma silent_reply: "silent sid ptr app \<Longrightarrow> silent sid ptr (handle_stream_reply P sid' time app)"
  by (auto simp: silent_def handle_stream_reply_def get_stream_def split: if_splits)

lemma silent_fewer:
  "silent sid ptr app \<Longrightarrow> app_stream app' = app_stream app \<Longrightarrow> set (app_tasks app') \<subseteq> set (app_tasks app) \<Longrightarrow>
     silent sid ptr app'"
  by (auto simp: silent_def)

text \<open>A session whose task is gone stays silent.\<close>

lemma silent_step:
  assumes "ho_step p P act h h'" "silent sid ptr (ho_app h)" "within_session P sid act"
    and inv: "app_inv P items (ho_app h)" and laws: "deque_laws (ap_deque P) items"
  shows "silent sid ptr (ho_app h')"
  using assms(1)
proof (cases rule: ho_step.cases)
  case (ho_audio malloc spawned audio app')
  then show ?thesis using silent_audio assms(2,3) by (fastforce simp: within_session_def)
next
  case (ho_turn i out app')
  have "app_stream app' = app_stream (ho_app h) \<and> set (app_tasks app') \<subseteq> set (app_tasks (ho_app h))"
    using stream_turn_spec [OF inv laws ho_turn(3), of p] ho_turn(5)
    by (auto split: if_splits)
  then have "silent sid ptr app'" using silent_fewer [OF assms(2)] by blast
  then show ?thesis using ho_turn(2) by simp
next
  case (ho_fail i app')
  have "app_stream app' = app_stream (ho_app h) \<and> set (app_tasks app') \<subseteq> set (app_tasks (ho_app h))"
    using stream_task_fails_spec [OF inv ho_fail(3)] ho_fail(4) by auto
  then have "silent sid ptr app'" using silent_fewer [OF assms(2)] by blast
  then show ?thesis using ho_fail(2) by simp
qed (use assms(2) silent_reply in auto)

lemma silent_run:
  assumes "ho_run p P acts h h'" "silent sid ptr (ho_app h)" "list_all (within_session P sid) acts"
    and "app_reach p P (ho_app h)" "deque_laws (ap_deque P) items" "ap_queue_bytes P \<noteq> 0"
  shows "silent sid ptr (ho_app h')"
  using assms(1-4)
proof (induction rule: ho_run.induct)
  case (ho_run_step act h h1 acts h')
  have "silent sid ptr (ho_app h1)"
    using silent_step [OF ho_run_step.hyps(1) ho_run_step.prems(1)
      _ app_reach_inv [OF ho_run_step.prems(3) assms(5,6)] assms(5)] ho_run_step.prems(2) by simp
  then show ?case using ho_run_step.IH ho_run_step.prems(2,3) ho_step_app [OF ho_run_step.hyps(1)] by simp
qed

subsection \<open>Who gets the DAC\<close>

lemma task_of_stream_started:
  "app_inv P items app \<Longrightarrow> app_stream app = Some s \<Longrightarrow> stream_queue s \<in> set (app_tasks app) \<Longrightarrow> stream_start s = Started"
  by (cases "stream_start s") (auto simp: app_inv_def stream_ok_def)

text \<open>The good order: the old task ends first, and the new one finds the DAC free.\<close>

lemma handover_in_order:
  assumes inv: "app_inv P items (ho_app h)" and laws: "deque_laws (ap_deque P) items"
    and s: "app_stream (ho_app h) = Some s" and new: "stream_queue s \<in> set (app_tasks (ho_app h))"
    and j: "j < length (app_tasks (ho_app h))" "app_tasks (ho_app h) ! j \<noteq> stream_queue s"
      "ho_dac h = Some (app_tasks (ho_app h) ! j)"
  shows "\<exists>i h'. ho_run p P [HoTurn j, HoOpen i] h h' \<and> ho_dac h' = Some (stream_queue s)
    \<and> app_stream (ho_app h') = Some s"
proof -
  have orphan: "stream_holds (app_stream (ho_app h)) (app_tasks (ho_app h) ! j) = 0"
    using s j(2) by (simp add: stream_holds_def)
  from stream_turn_spec [OF inv laws j(1), of p] orphan
  obtain app' where app': "stream_turn p P j (ho_app h) = Some (Ok (None, app'))"
    "app_stream app' = app_stream (ho_app h)"
    "set (app_tasks app') = set (app_tasks (ho_app h)) - {app_tasks (ho_app h) ! j}" by auto
  let ?h1 = "h\<lparr>ho_app := app', ho_dac := None\<rparr>"
  have turn: "ho_step p P (HoTurn j) h ?h1"
    using ho_turn [OF j(1,3) app'(1)] j(3) by (simp add: close_dac_def)
  obtain i where i: "i < length (app_tasks app')" "app_tasks app' ! i = stream_queue s"
    using new j(2) app'(3) by (metis Diff_iff empty_iff in_set_conv_nth insert_iff)
  have "ho_step p P (HoOpen i) ?h1 (?h1\<lparr>ho_dac := Some (stream_queue s)\<rparr>)"
    using ho_open [of i ?h1 p P] i by simp
  from ho_run_step [OF turn ho_run_step [OF this ho_run_done]]
  have "ho_run p P [HoTurn j, HoOpen i] h (?h1\<lparr>ho_dac := Some (stream_queue s)\<rparr>)" .
  moreover have "ho_dac (?h1\<lparr>ho_dac := Some (stream_queue s)\<rparr>) = Some (stream_queue s)"
    "app_stream (ho_app (?h1\<lparr>ho_dac := Some (stream_queue s)\<rparr>)) = Some s" using app'(2) s by simp_all
  ultimately show ?thesis by blast
qed

text \<open>The bad order: all that the new task can do while the old one has the DAC is to fail.\<close>

lemma handover_too_early:
  assumes inv: "app_inv P items (ho_app h)"
    and s: "app_stream (ho_app h) = Some s"
    and i: "i < length (app_tasks (ho_app h))" "app_tasks (ho_app h) ! i = stream_queue s"
    and dac: "ho_dac h = Some q" "q \<noteq> stream_queue s"
  shows "\<exists>h1. ho_step p P (HoFail i) h h1"
    and "\<not> ho_step p P (HoOpen i) h h1" "\<not> ho_step p P (HoTurn i) h h1"
    and "ho_step p P (HoFail i) h h1 \<Longrightarrow> silent (stream_sid s) (stream_queue s) (ho_app h1) \<and> ho_dac h1 = Some q"
proof -
  obtain app' where app': "stream_task_fails P i (ho_app h) = Some app'" "app_stream app' = app_stream (ho_app h)"
    "set (app_tasks app') = set (app_tasks (ho_app h)) - {stream_queue s}"
    using stream_task_fails_spec [OF inv i(1)] i(2) by auto
  show "\<exists>h1. ho_step p P (HoFail i) h h1" using ho_fail [OF i(1) app'(1)] by blast
  show "\<not> ho_step p P (HoOpen i) h h1" "\<not> ho_step p P (HoTurn i) h h1"
    using dac i(2) by (auto elim!: ho_openE ho_turnE)
  have "stream_start s = Started"
    using task_of_stream_started [OF inv s] i nth_mem [OF i(1)] by simp
  then have silent: "silent (stream_sid s) (stream_queue s) app'"
    using app'(2,3) s by (simp add: silent_def)
  have "ho_app h1 = app' \<and> ho_dac h1 = ho_dac h" if "ho_step p P (HoFail i) h h1"
    using that by (rule ho_failE) (use app'(1) dac i(2) in \<open>simp add: close_dac_def\<close>)
  then show "ho_step p P (HoFail i) h h1 \<Longrightarrow> silent (stream_sid s) (stream_queue s) (ho_app h1) \<and> ho_dac h1 = Some q"
    using silent dac by simp
qed

text \<open>The DAC is open only in a task that runs.\<close>

definition dac_owner_ok :: "('sid, 'tm, 'q) handover \<Rightarrow> bool" where
  "dac_owner_ok h \<longleftrightarrow> (case ho_dac h of None \<Rightarrow> True | Some q \<Rightarrow> q \<in> set (app_tasks (ho_app h)))"

lemma dac_owner_step:
  assumes "ho_step p P act h h'" "dac_owner_ok h"
    and inv: "app_inv P items (ho_app h)" and laws: "deque_laws (ap_deque P) items"
  shows "dac_owner_ok h'"
  using assms(1)
proof (cases rule: ho_step.cases)
  case (ho_audio malloc spawned audio app')
  then show ?thesis using handle_audio_tasks assms(2)
    by (fastforce simp: dac_owner_ok_def split: option.splits)
next
  case (ho_reply sid time)
  have "app_tasks (handle_stream_reply P sid time (ho_app h)) = app_tasks (ho_app h)"
    by (simp add: handle_stream_reply_def split: option.split)
  then show ?thesis using assms(2) ho_reply(2) by (cases "ho_dac h") (simp_all add: dac_owner_ok_def)
next
  case (ho_turn i out app')
  from stream_turn_spec [OF inv laws ho_turn(3), of p] ho_turn(5)
  have "out \<noteq> None \<longrightarrow> app_tasks app' = app_tasks (ho_app h)" by (auto split: if_splits)
  then show ?thesis using assms(2) ho_turn(2,4) by (simp add: dac_owner_ok_def close_dac_def)
next
  case (ho_fail i app')
  have "set (app_tasks app') = set (app_tasks (ho_app h)) - {app_tasks (ho_app h) ! i}"
    using stream_task_fails_spec [OF inv ho_fail(3)] ho_fail(4) by auto
  then show ?thesis using assms(2) ho_fail(2) by (auto simp: dac_owner_ok_def close_dac_def split: option.splits)
qed (simp add: dac_owner_ok_def)

lemma dac_owner_run:
  assumes "ho_run p P acts h h'" "dac_owner_ok h" "app_reach p P (ho_app h)"
    and "deque_laws (ap_deque P) items" "ap_queue_bytes P \<noteq> 0"
  shows "dac_owner_ok h'"
  using assms(1-3)
proof (induction rule: ho_run.induct)
  case (ho_run_step act h h1 acts h')
  then show ?case
    using dac_owner_step [OF ho_run_step.hyps(1) ho_run_step.prems(1) app_reach_inv [OF _ assms(4,5)] assms(4)]
      ho_step_app [OF ho_run_step.hyps(1)] by simp
qed

text \<open>C11: whether a new session is heard at all is a race with the old session's task: when the new
  stream has its task while another task still has the DAC, the old task ending first hands the DAC over,
  but the new task running first can only fail, and then, whatever happens short of a session newer still,
  the stream is never given a task again.\<close>

theorem handover_is_a_race:
  assumes "ho_run p P acts (ho_init stats) h" "deque_laws (ap_deque P) items" "ap_queue_bytes P \<noteq> 0"
    and "app_stream (ho_app h) = Some s"
    and "i < length (app_tasks (ho_app h))" "app_tasks (ho_app h) ! i = stream_queue s"
    and "ho_dac h = Some q" "q \<noteq> stream_queue s"
  shows "(\<exists>j k h'. ho_run p P [HoTurn j, HoOpen k] h h' \<and> ho_dac h' = Some (stream_queue s)
      \<and> app_stream (ho_app h') = Some s)
    \<and> (\<exists>h1. ho_step p P (HoFail i) h h1)
    \<and> (\<forall>h1. \<not> ho_step p P (HoOpen i) h h1 \<and> \<not> ho_step p P (HoTurn i) h h1)
    \<and> (\<forall>h1 acts' h'. ho_step p P (HoFail i) h h1 \<longrightarrow> ho_run p P acts' h1 h' \<longrightarrow>
         list_all (within_session P (stream_sid s)) acts' \<longrightarrow>
         silent (stream_sid s) (stream_queue s) (ho_app h'))"
proof -
  have reach: "app_reach p P (ho_app h)" using ho_run_reach [OF assms(1)] .
  note inv = app_reach_inv [OF reach assms(2,3)]
  have "dac_owner_ok (ho_init stats)" "app_reach p P (ho_app (ho_init stats))"
    by (simp_all add: dac_owner_ok_def ho_init_def reach_init)
  from dac_owner_run [OF assms(1) this assms(2,3)]
  obtain j where j: "j < length (app_tasks (ho_app h))" "q = app_tasks (ho_app h) ! j"
    using assms(7) by (auto simp: dac_owner_ok_def in_set_conv_nth)
  note early = handover_too_early [OF inv assms(4-8)]
  have "silent (stream_sid s) (stream_queue s) (ho_app h')"
    if "ho_step p P (HoFail i) h h1" "ho_run p P acts' h1 h'" "list_all (within_session P (stream_sid s)) acts'"
    for h1 acts' h'
    using silent_run [OF that(2) _ that(3) ho_step_app [OF that(1) reach] assms(2,3)] early(4) [OF that(1)] by blast
  moreover have "\<exists>j k h'. ho_run p P [HoTurn j, HoOpen k] h h' \<and> ho_dac h' = Some (stream_queue s)
      \<and> app_stream (ho_app h') = Some s"
    using handover_in_order [OF inv assms(2,4) _ j(1)] j(2) assms(5-8) nth_mem [OF assms(5)] by metis
  ultimately show ?thesis using early(1,2,3) by blast
qed

text \<open>A packet of session 4 while the task of session 3 has the DAC.\<close>

lemma example_handover_run:
  "\<exists>acts. ho_run Dev example_params acts (ho_init stats_new) \<lparr>ho_app = example_replaced, ho_dac = Some 4096\<rparr>"
proof -
  let ?h1 = "\<lparr>ho_app = example_running, ho_dac = None\<rparr>"
    and ?h2 = "\<lparr>ho_app = example_running, ho_dac = Some 4096\<rparr>"
  have 1: "ho_step Dev example_params (HoAudio (\<lambda>_. 4096) True (7, 3)) (ho_init stats_new) ?h1"
    using ho_audio [of "\<lambda>_. 4096" "ho_init stats_new" Dev example_params True "(7, 3)" example_running]
      example_first_packet by (simp add: ho_init_def malloc_fresh_def app_init_def)
  have 2: "ho_step Dev example_params (HoOpen 0) ?h1 ?h2"
    using ho_open [of 0 ?h1 Dev example_params] by (simp add: example_running_def)
  have 3: "ho_step Dev example_params (HoAudio (\<lambda>_. 8192) True (1, 4)) ?h2
      \<lparr>ho_app = example_replaced, ho_dac = Some 4096\<rparr>"
    using ho_audio [of "\<lambda>_. 8192" ?h2 Dev example_params True "(1, 4)" example_replaced]
      example_second_session by (simp add: malloc_fresh_def example_running_def)
  show ?thesis using ho_run_step [OF 1 ho_run_step [OF 2 ho_run_step [OF 3 ho_run_done]]] by blast
qed

theorem handover_is_a_race_witness:
  "\<exists>h h1 j k h2. ho_app h = example_replaced \<and> ho_run Dev example_params [HoTurn j, HoOpen k] h h2
    \<and> ho_dac h2 = Some 8192 \<and> ho_step Dev example_params (HoFail 0) h h1 \<and> silent 4 8192 (ho_app h1)"
proof -
  let ?h = "\<lparr>ho_app = example_replaced, ho_dac = Some 4096\<rparr>"
  obtain s where s: "app_stream example_replaced = Some s" "stream_queue s = 8192" "stream_sid s = 4"
    by (simp add: example_replaced_def)
  obtain acts where acts: "ho_run Dev example_params acts (ho_init stats_new) ?h"
    using example_handover_run by blast
  have tasks: "0 < length (app_tasks (ho_app ?h))" "app_tasks (ho_app ?h) ! 0 = stream_queue s"
    "app_stream (ho_app ?h) = Some s" "ho_dac ?h = Some 4096" "4096 \<noteq> stream_queue s"
    using s by (simp_all add: example_replaced_def)
  note race = handover_is_a_race [OF acts example_params_laws tasks(3,1,2,4,5)]
  obtain h1 where h1: "ho_step Dev example_params (HoFail 0) ?h h1" using race by blast
  then have "silent 4 8192 (ho_app h1)"
    using race ho_run_done [of Dev example_params h1] s(2,3) by (metis list.pred_inject(1))
  then show ?thesis using race h1 s(2) by (metis handover.select_convs(1))
qed

end
