(* ===== verification/SharedThreads.thy ===== *)
theory SharedThreads
  imports Heap
begin

text \<open>
  A \<^verbatim>\<open>SharedBox\<close> whose handles are used by several threads at once (\<^verbatim>\<open>src/system/heap/arc.rs\<close>, whose
  \<^verbatim>\<open>Send\<close> and \<^verbatim>\<open>Sync\<close> allow it): the steps are the atomic accesses, so that a drop is two of them, the
  \<^verbatim>\<open>fetch_sub\<close> and what follows from the count it gave, with any steps of the others in between.
  The threads are numbered; what each holds and where it is in a drop stands next to the memory.
\<close>

subsection \<open>The two halves of a drop\<close>

definition shared_sub :: "nat \<Rightarrow> 'a shared_inner memory \<Rightarrow> (usize \<times> 'a shared_inner memory) option" where
  "shared_sub ptr m =
     Option.bind (box_deref ptr m) (\<lambda>inner.
       map_option (Pair (sb_refcount inner)) (box_deref_mut ptr (inner\<lparr>sb_refcount := sb_refcount inner - 1\<rparr>) m))"

definition shared_release :: "nat \<Rightarrow> nat \<Rightarrow> usize \<Rightarrow> 'a shared_inner memory \<Rightarrow> 'a shared_inner memory option" where
  "shared_release sz ptr refcount m = (if refcount = 1 then drop_free sz ptr m else Some m)"

lemma shared_drop_halves:
  "shared_drop sz ptr m = Option.bind (shared_sub ptr m) (\<lambda>(refcount, m'). shared_release sz ptr refcount m')"
  by (auto simp: shared_drop_def shared_sub_def shared_release_def split: Option.bind_split option.splits)

subsection \<open>Threads\<close>

datatype drop_pc = Idle | Subtracted usize

record 'a sharers =
  sh_mem :: "'a shared_inner memory"
  sh_held :: "nat list"
  sh_pc :: "drop_pc list"

text \<open>
  What a thread may do: clone a handle it holds, take the count down for one, go on after that, hand one
  to another thread, or look at the value or the count through one.
\<close>

datatype share_act = CloneBy nat | SubBy nat | ReleaseBy nat | MoveTo nat nat | LookBy nat

fun actor :: "share_act \<Rightarrow> nat" where
  "actor (CloneBy t) = t"
| "actor (SubBy t) = t"
| "actor (ReleaseBy t) = t"
| "actor (MoveTo t u) = t"
| "actor (LookBy t) = t"

text \<open>
  The borrow checker's part: a thread uses a handle it holds and is not in the middle of a drop. There are
  never \<open>2 ^ 32\<close> handles, as each takes four bytes of the address space.
\<close>

definition holds :: "nat \<Rightarrow> 'a sharers \<Rightarrow> bool" where
  "holds t s \<longleftrightarrow> t < length (sh_held s) \<and> sh_pc s ! t = Idle \<and> 0 < sh_held s ! t"

fun may :: "'a sharers \<Rightarrow> share_act \<Rightarrow> bool" where
  "may s (CloneBy t) \<longleftrightarrow> holds t s \<and> Suc (sum_list (sh_held s)) < 2 ^ 32"
| "may s (SubBy t) \<longleftrightarrow> holds t s"
| "may s (ReleaseBy t) \<longleftrightarrow> t < length (sh_held s) \<and> sh_pc s ! t \<noteq> Idle"
| "may s (MoveTo t u) \<longleftrightarrow> holds t s \<and> u < length (sh_held s)"
| "may s (LookBy t) \<longleftrightarrow> holds t s"

text \<open>A step, or \<^const>\<open>None\<close> when it touches memory that is not live.\<close>

fun share_step :: "nat \<Rightarrow> nat \<Rightarrow> share_act \<Rightarrow> 'a sharers \<Rightarrow> 'a sharers option" where
  "share_step sz ptr (CloneBy t) s =
     map_option (\<lambda>m. s\<lparr>sh_mem := m, sh_held := (sh_held s)[t := Suc (sh_held s ! t)]\<rparr>) (shared_clone ptr (sh_mem s))"
| "share_step sz ptr (SubBy t) s =
     map_option (\<lambda>(refcount, m). s\<lparr>sh_mem := m, sh_held := (sh_held s)[t := sh_held s ! t - 1],
         sh_pc := (sh_pc s)[t := Subtracted refcount]\<rparr>)
       (shared_sub ptr (sh_mem s))"
| "share_step sz ptr (ReleaseBy t) s =
     (case sh_pc s ! t of
        Idle \<Rightarrow> Some s
      | Subtracted refcount \<Rightarrow>
          map_option (\<lambda>m. s\<lparr>sh_mem := m, sh_pc := (sh_pc s)[t := Idle]\<rparr>) (shared_release sz ptr refcount (sh_mem s)))"
| "share_step sz ptr (MoveTo t u) s =
     (let held = (sh_held s)[t := sh_held s ! t - 1] in Some (s\<lparr>sh_held := held[u := Suc (held ! u)]\<rparr>))"
| "share_step sz ptr (LookBy t) s = map_option (\<lambda>_. s) (shared_unique ptr (sh_mem s))"

fun share_run :: "nat \<Rightarrow> nat \<Rightarrow> share_act list \<Rightarrow> 'a sharers \<Rightarrow> 'a sharers option" where
  "share_run sz ptr [] s = Some s"
| "share_run sz ptr (act # acts) s = Option.bind (share_step sz ptr act s) (share_run sz ptr acts)"

fun may_run :: "nat \<Rightarrow> nat \<Rightarrow> share_act list \<Rightarrow> 'a sharers \<Rightarrow> bool" where
  "may_run sz ptr [] s \<longleftrightarrow> True"
| "may_run sz ptr (act # acts) s \<longleftrightarrow> may s act \<and> (case share_step sz ptr act s of
     None \<Rightarrow> True | Some s' \<Rightarrow> may_run sz ptr acts s')"

text \<open>\<open>n\<close> threads, the first of which has just made the value.\<close>

definition sharers_new :: "nat \<Rightarrow> 'a shared_inner memory \<Rightarrow> 'a sharers" where
  "sharers_new n m = \<lparr>sh_mem = m, sh_held = 1 # replicate (n - 1) 0, sh_pc = replicate n Idle\<rparr>"

subsection \<open>The invariant\<close>

text \<open>
  While there are handles, the count is their number and nobody is about to free. When there are none, one
  thread is about to free the value, or it has been freed.
\<close>

definition freeing :: "'a sharers \<Rightarrow> nat set" where
  "freeing s = {t. t < length (sh_pc s) \<and> sh_pc s ! t = Subtracted 1}"

definition sharers_inv :: "nat \<Rightarrow> 'a \<Rightarrow> nat \<Rightarrow> nat list \<Rightarrow> 'a sharers \<Rightarrow> bool" where
  "sharers_inv ptr v sz frees s \<longleftrightarrow> length (sh_pc s) = length (sh_held s) \<and>
     (if 0 < sum_list (sh_held s) then
        counted ptr (sum_list (sh_held s)) (sh_mem s) \<and> shared_deref ptr (sh_mem s) = Some v
        \<and> freeing s = {} \<and> mem_frees (sh_mem s) = frees
      else if freeing s = {} then mem_live (sh_mem s) ptr = None \<and> mem_frees (sh_mem s) = free_layout sz ptr frees
      else (\<exists>t. freeing s = {t}) \<and> mem_live (sh_mem s) ptr \<noteq> None \<and> mem_frees (sh_mem s) = frees)"

lemma held_le_sum: "t < length (sh_held s) \<Longrightarrow> sh_held s ! t \<le> sum_list (sh_held s)"
  by (simp add: elem_le_sum_list)

lemma holds_sum: "holds t s \<Longrightarrow> 0 < sum_list (sh_held s)"
  using held_le_sum [of t s] by (simp add: holds_def)

lemma freeing_update [simp]:
  "t < length (sh_pc s) \<Longrightarrow>
    freeing (s\<lparr>sh_mem := m, sh_held := h, sh_pc := (sh_pc s)[t := pc]\<rparr>)
      = (if pc = Subtracted 1 then insert t (freeing s) else freeing s - {t})"
  "t < length (sh_pc s) \<Longrightarrow>
    freeing (s\<lparr>sh_mem := m, sh_pc := (sh_pc s)[t := pc]\<rparr>)
      = (if pc = Subtracted 1 then insert t (freeing s) else freeing s - {t})"
  "freeing (s\<lparr>sh_mem := m, sh_held := h\<rparr>) = freeing s"
  "freeing (s\<lparr>sh_held := h\<rparr>) = freeing s"
  "freeing (s\<lparr>sh_mem := m\<rparr>) = freeing s"
  "t < length (sh_pc s) \<Longrightarrow> freeing (s\<lparr>sh_pc := (sh_pc s)[t := pc]\<rparr>)
      = (if pc = Subtracted 1 then insert t (freeing s) else freeing s - {t})"
  by (auto simp: freeing_def nth_list_update)

lemma counted_sub:
  assumes "counted ptr n m" "0 < n"
  shows "\<exists>refcount m'. shared_sub ptr m = Some (refcount, m') \<and> unat refcount = n \<and> mem_frees m' = mem_frees m
    \<and> mem_live m' ptr \<noteq> None
    \<and> (1 < n \<longrightarrow> counted ptr (n - 1) m' \<and> shared_deref ptr m' = shared_deref ptr m)"
proof -
  obtain inner where inner: "mem_live m ptr = Some inner" "unat (sb_refcount inner) = n" "n < 2 ^ 32"
    using assms by (auto simp: counted_def split: option.splits)
  have "unat (sb_refcount inner - 1) = n - 1"
    using inner(2) assms(2) by (simp add: unat_sub word_le_nat_alt)
  then show ?thesis using inner
    by (auto simp: shared_sub_def box_deref_def box_deref_mut_def counted_def shared_deref_def)
qed

lemma sharers_inv_step:
  assumes inv: "sharers_inv ptr v sz frees s" and act: "may s act"
  shows "\<exists>s'. share_step sz ptr act s = Some s' \<and> sharers_inv ptr v sz frees s'"
proof (cases act)
  case (CloneBy t)
  have t: "holds t s" "Suc (sum_list (sh_held s)) < 2 ^ 32" using act CloneBy by simp_all
  then have "t < length (sh_held s)" by (simp add: holds_def)
  then have "sum_list ((sh_held s)[t := Suc (sh_held s ! t)]) = Suc (sum_list (sh_held s))"
    using held_le_sum [of t s] by (simp add: sum_list_update)
  moreover obtain m' where "shared_clone ptr (sh_mem s) = Some m'" "counted ptr (Suc (sum_list (sh_held s))) m'"
    "shared_deref ptr m' = shared_deref ptr (sh_mem s)" "mem_frees m' = mem_frees (sh_mem s)"
    using counted_clone [of ptr "sum_list (sh_held s)" "sh_mem s"] inv holds_sum [OF t(1)] t(2)
    by (auto simp: sharers_inv_def)
  ultimately show ?thesis using inv holds_sum [OF t(1)] CloneBy by (simp add: sharers_inv_def)
next
  case (SubBy t)
  have t: "holds t s" using act SubBy by simp
  then have len: "t < length (sh_held s)" "0 < sh_held s ! t" by (simp_all add: holds_def)
  then have sum: "sum_list ((sh_held s)[t := sh_held s ! t - 1]) = sum_list (sh_held s) - 1"
    using held_le_sum [of t s] by (simp add: sum_list_update)
  have c: "counted ptr (sum_list (sh_held s)) (sh_mem s)" using inv holds_sum [OF t] by (simp add: sharers_inv_def)
  obtain refcount m' where r: "shared_sub ptr (sh_mem s) = Some (refcount, m')" "unat refcount = sum_list (sh_held s)"
    "mem_frees m' = mem_frees (sh_mem s)" "mem_live m' ptr \<noteq> None"
    "1 < sum_list (sh_held s) \<longrightarrow> counted ptr (sum_list (sh_held s) - 1) m' \<and> shared_deref ptr m' = shared_deref ptr (sh_mem s)"
    using counted_sub [OF c holds_sum [OF t]] by blast
  have one: "refcount = 1 \<longleftrightarrow> sum_list (sh_held s) = 1" using r(2) unat_eq_one [of refcount] by simp
  show ?thesis using inv holds_sum [OF t] SubBy r one sum len(1)
    by (auto simp: sharers_inv_def)
next
  case (ReleaseBy t)
  have t: "t < length (sh_held s)" "sh_pc s ! t \<noteq> Idle" using act ReleaseBy by simp_all
  then obtain refcount where pc: "sh_pc s ! t = Subtracted refcount" by (cases "sh_pc s ! t") auto
  have len: "t < length (sh_pc s)" using t(1) inv by (simp add: sharers_inv_def)
  have mem: "refcount = 1 \<longleftrightarrow> t \<in> freeing s" using pc len by (simp add: freeing_def)
  show ?thesis
  proof (cases "refcount = 1")
    case False
    then show ?thesis using inv ReleaseBy pc len mem by (simp add: shared_release_def sharers_inv_def)
  next
    case True
    then have f: "freeing s = {t}" "sum_list (sh_held s) = 0" "mem_live (sh_mem s) ptr \<noteq> None"
      "mem_frees (sh_mem s) = frees"
      using inv mem by (auto simp: sharers_inv_def split: if_splits)
    then show ?thesis using inv ReleaseBy pc len True
      by (auto simp: shared_release_def sharers_inv_def drop_free_def)
  qed
next
  case (MoveTo t u)
  have t: "holds t s" "u < length (sh_held s)" using act MoveTo by simp_all
  then have len: "t < length (sh_held s)" "0 < sh_held s ! t" by (simp_all add: holds_def)
  let ?held = "(sh_held s)[t := sh_held s ! t - 1]"
  have "sum_list ?held = sum_list (sh_held s) - 1" using len held_le_sum [of t s] by (simp add: sum_list_update)
  moreover have "sum_list (?held[u := Suc (?held ! u)]) = Suc (sum_list ?held)"
    using t(2) elem_le_sum_list [of u ?held] by (simp add: sum_list_update)
  ultimately have "sum_list (?held[u := Suc (?held ! u)]) = sum_list (sh_held s)" using holds_sum [OF t(1)] by simp
  then show ?thesis using inv MoveTo by (simp add: Let_def sharers_inv_def)
next
  case (LookBy t)
  have t: "holds t s" using act LookBy by simp
  have "counted ptr (sum_list (sh_held s)) (sh_mem s)" using inv holds_sum [OF t] by (simp add: sharers_inv_def)
  from counted_unique [OF this holds_sum [OF t]] show ?thesis using inv LookBy by simp
qed

lemma sharers_inv_run:
  "sharers_inv ptr v sz frees s \<Longrightarrow> may_run sz ptr acts s \<Longrightarrow>
    \<exists>s'. share_run sz ptr acts s = Some s' \<and> sharers_inv ptr v sz frees s'"
proof (induction acts arbitrary: s)
  case Nil
  then show ?case by simp
next
  case (Cons act acts)
  obtain s1 where s1: "share_step sz ptr act s = Some s1" "sharers_inv ptr v sz frees s1"
    using sharers_inv_step [OF Cons.prems(1)] Cons.prems(2) by auto
  then show ?case using Cons.IH [OF s1(2)] Cons.prems(2) by simp
qed

lemma sharers_inv_new:
  assumes "fst (shared_alloc malloc sz value m) = Inr ptr" "0 < n"
  shows "sharers_inv ptr value sz (mem_frees m) (sharers_new n (snd (shared_alloc malloc sz value m)))"
proof -
  have "mem_frees (snd (shared_alloc malloc sz value m)) = mem_frees m"
    "shared_deref ptr (snd (shared_alloc malloc sz value m)) = Some value"
    using assms(1)
    by (auto simp: shared_alloc_def box_alloc_def shared_deref_def box_deref_def split: sum.splits)
  then show ?thesis using counted_alloc [OF assms(1)] assms(2)
    by (simp add: sharers_inv_def sharers_new_def sum_list_replicate freeing_def)
qed

text \<open>A thread that sees the count at one has the only handle, and no step of another thread changes that.\<close>

definition alone :: "nat \<Rightarrow> 'a sharers \<Rightarrow> bool" where
  "alone t s \<longleftrightarrow> holds t s \<and> sum_list (sh_held s) = 1"

lemma alone_others:
  assumes "alone t s" "u < length (sh_held s)" "u \<noteq> t"
  shows "sh_held s ! u = 0"
proof -
  have t: "t < length (sh_held s)" "0 < sh_held s ! t" "sum_list (sh_held s) = 1"
    using assms(1) by (simp_all add: alone_def holds_def)
  have "sum_list ((sh_held s)[t := 0]) = sum_list (sh_held s) - sh_held s ! t"
    using t(1) held_le_sum [of t s] by (simp add: sum_list_update)
  then have "sum_list ((sh_held s)[t := 0]) = 0" using t by simp
  moreover have "sh_held s ! u \<le> sum_list ((sh_held s)[t := 0])"
    using elem_le_sum_list [of u "(sh_held s)[t := 0]"] assms(2,3) by simp
  ultimately show ?thesis by linarith
qed

lemma alone_step:
  assumes "alone t s" "may s act" "actor act \<noteq> t" "share_step sz ptr act s = Some s'"
  shows "alone t s'"
proof -
  have "\<not> holds (actor act) s" using alone_others [OF assms(1) _ assms(3)] by (auto simp: holds_def)
  then obtain u where u: "act = ReleaseBy u" "u \<noteq> t" using assms(2,3) by (cases act) auto
  then show ?thesis using assms(1,4)
    by (auto simp: alone_def holds_def split: drop_pc.splits)
qed

lemma alone_run:
  "alone t s \<Longrightarrow> may_run sz ptr acts s \<Longrightarrow> \<forall>act\<in>set acts. actor act \<noteq> t \<Longrightarrow>
    share_run sz ptr acts s = Some s' \<Longrightarrow> alone t s'"
proof (induction acts arbitrary: s)
  case Nil
  then show ?case by simp
next
  case (Cons act acts)
  obtain s1 where s1: "share_step sz ptr act s = Some s1" "share_run sz ptr acts s1 = Some s'"
    using Cons.prems(4) by (auto simp: return_ok)
  show ?case using Cons.IH [OF alone_step [OF Cons.prems(1) _ _ s1(1)] _ _ s1(2)] Cons.prems(2,3) s1(1) by simp
qed

lemma share_run_append:
  "share_run sz ptr (acts @ acts') s = Option.bind (share_run sz ptr acts s) (share_run sz ptr acts')"
proof (induction acts arbitrary: s)
  case (Cons act acts)
  then show ?case by (cases "share_step sz ptr act s") simp_all
qed simp

lemma may_run_append:
  "may_run sz ptr (acts @ acts') s \<longleftrightarrow> may_run sz ptr acts s
    \<and> (case share_run sz ptr acts s of None \<Rightarrow> True | Some s' \<Rightarrow> may_run sz ptr acts' s')"
  by (induction acts arbitrary: s) (auto split: option.splits)

subsection \<open>Properties\<close>

text \<open>C8: a shared value is freed exactly once and never used after, by threads that run at once: whatever
  the threads do with the handles they hold, and wherever the others come between the two halves of a
  drop, no step touches memory that is not live; while there is a handle the value is there and nothing
  was freed; and once the handles are gone and the drops have ended, its address was freed once.\<close>

theorem shared_box_threads:
  assumes "fst (shared_alloc malloc sz value m) = Inr ptr" "sz \<noteq> 0" "0 < n"
    and "may_run sz ptr acts (sharers_new n (snd (shared_alloc malloc sz value m)))"
  shows "\<exists>s. share_run sz ptr acts (sharers_new n (snd (shared_alloc malloc sz value m))) = Some s
    \<and> (if 0 < sum_list (sh_held s) then
         shared_deref ptr (sh_mem s) = Some value \<and> mem_frees (sh_mem s) = mem_frees m
         \<and> shared_unique ptr (sh_mem s) = Some (sum_list (sh_held s) = 1)
       else list_all (\<lambda>pc. pc = Idle) (sh_pc s) \<longrightarrow>
         mem_live (sh_mem s) ptr = None \<and> mem_frees (sh_mem s) = mem_frees m @ [ptr])"
proof -
  obtain s where s: "share_run sz ptr acts (sharers_new n (snd (shared_alloc malloc sz value m))) = Some s"
    "sharers_inv ptr value sz (mem_frees m) s"
    using sharers_inv_run [OF sharers_inv_new [OF assms(1,3)] assms(4)] by blast
  have "list_all (\<lambda>pc. pc = Idle) (sh_pc s) \<Longrightarrow> freeing s = {}"
    by (auto simp: freeing_def list_all_length)
  then show ?thesis using s assms(2) counted_unique [of ptr "sum_list (sh_held s)" "sh_mem s"]
    by (auto simp: sharers_inv_def free_layout_def split: if_splits)
qed

definition example_share_acts :: "share_act list" where
  "example_share_acts = [CloneBy 0, MoveTo 0 1, SubBy 0, SubBy 1, ReleaseBy 0, ReleaseBy 1]"

definition example_value :: "(malloc_error + nat) \<times> string shared_inner memory" where
  "example_value = shared_alloc (\<lambda>_. 4096) 16 ''queue'' \<lparr>mem_live = (\<lambda>_. None), mem_frees = []\<rparr>"

lemma example_value_eq:
  "example_value = (Inr 4096, \<lparr>mem_live = [4096 \<mapsto> \<lparr>sb_data = ''queue'', sb_refcount = 1\<rparr>], mem_frees = []\<rparr>)"
  by (simp add: example_value_def shared_alloc_def box_alloc_def alloc_layout_def system_alloc_def)

lemmas share_step_defs = shared_clone_def shared_sub_def shared_release_def shared_unique_def box_deref_def
  box_deref_mut_def drop_free_def free_layout_def holds_def

theorem shared_box_threads_witness:
  "\<exists>s. share_run 16 4096 example_share_acts (sharers_new 2 (snd example_value)) = Some s
    \<and> mem_live (sh_mem s) 4096 = None \<and> mem_frees (sh_mem s) = [4096]"
proof -
  have "may_run 16 4096 example_share_acts (sharers_new 2 (snd example_value))"
    by (simp add: example_share_acts_def example_value_eq sharers_new_def share_step_defs)
  from shared_box_threads [OF _ _ _ this [unfolded example_value_def], simplified] show ?thesis
    by (simp add: example_share_acts_def example_value_eq sharers_new_def share_step_defs)
qed

text \<open>C12: a thread that finds itself alone with a shared value stays alone with it: once a thread that holds a
  handle has seen the count at one (as a stream's task does to find its stream replaced), no other thread
  holds a handle, and whatever the others do next, up to ending drops they had begun, the count the thread
  sees is one until it acts itself.\<close>

theorem unique_is_final:
  assumes "fst (shared_alloc malloc sz value m) = Inr ptr" "0 < n"
    and "may_run sz ptr (acts @ others) (sharers_new n (snd (shared_alloc malloc sz value m)))"
    and "share_run sz ptr acts (sharers_new n (snd (shared_alloc malloc sz value m))) = Some s"
    and "holds t s" "shared_unique ptr (sh_mem s) = Some True" "\<forall>act\<in>set others. actor act \<noteq> t"
  shows "\<exists>s'. share_run sz ptr others s = Some s' \<and> shared_unique ptr (sh_mem s') = Some True
    \<and> holds t s' \<and> (\<forall>u<length (sh_held s'). u \<noteq> t \<longrightarrow> sh_held s' ! u = 0)"
proof -
  have run: "may_run sz ptr acts (sharers_new n (snd (shared_alloc malloc sz value m)))" "may_run sz ptr others s"
    using assms(3,4) by (simp_all add: may_run_append)
  have inv: "sharers_inv ptr value sz (mem_frees m) s"
    using sharers_inv_run [OF sharers_inv_new [OF assms(1,2)] run(1)] assms(4) by simp
  have unique: "shared_unique ptr (sh_mem s'') = Some (sum_list (sh_held s'') = 1)"
    if "holds t s''" "sharers_inv ptr value sz (mem_frees m) s''" for s''
    using that holds_sum [OF that(1)] by (intro counted_unique) (simp_all add: sharers_inv_def)
  obtain s' where s': "share_run sz ptr others s = Some s'" "sharers_inv ptr value sz (mem_frees m) s'"
    using sharers_inv_run [OF inv run(2)] by blast
  have "alone t s" using unique [OF assms(5) inv] assms(5,6) by (simp add: alone_def)
  from alone_run [OF this run(2) assms(7) s'(1)] have alone: "alone t s'" .
  then have "holds t s'" "sum_list (sh_held s') = 1" by (simp_all add: alone_def)
  then show ?thesis using s' unique [OF _ s'(2)] alone_others [OF alone] by simp
qed

text \<open>The receiver takes its handle down while the task looks; the receiver's drop ends after.\<close>

theorem unique_is_final_witness:
  "\<exists>s s'. share_run 16 4096 [CloneBy 0, MoveTo 0 1, SubBy 0] (sharers_new 2 (snd example_value)) = Some s
    \<and> share_run 16 4096 [ReleaseBy 0] s = Some s' \<and> shared_unique 4096 (sh_mem s') = Some True"
proof -
  obtain s where s: "share_run 16 4096 [CloneBy 0, MoveTo 0 1, SubBy 0] (sharers_new 2 (snd example_value)) = Some s"
    "holds 1 s" "shared_unique 4096 (sh_mem s) = Some True"
    by (simp add: example_value_eq sharers_new_def share_step_defs)
  have "may_run 16 4096 ([CloneBy 0, MoveTo 0 1, SubBy 0] @ [ReleaseBy 0]) (sharers_new 2 (snd example_value))"
    by (simp add: example_value_eq sharers_new_def share_step_defs)
  from unique_is_final [OF _ _ this [unfolded example_value_def] s(1) [unfolded example_value_def] s(2,3)] show ?thesis
    using s(1) example_value_eq by (auto simp: example_value_def)
qed

end
