(* ===== verification/TaskMutex.thy ===== *)
theory TaskMutex
  imports Waker
begin

text \<open>
  The asynchronous mutex of \<^verbatim>\<open>src/sync/mutex.rs\<close> (\<^verbatim>\<open>TaskMutex\<close>): a flag, taken with one atomic swap,
  and a set of tasks to notify when it is given back. Tasks are their registry ids; each runs on its
  own under the executor, so the model is a step relation whose steps are the atomic accesses:
  the swap of the flag, the registration in the waker set, the store that releases the flag, the swap
  that takes the waker set, and each notification. A notification is sticky, as FreeRTOS makes it.
\<close>

subsection \<open>State and steps\<close>

datatype mutex_pc =
    MIdle
  | MPolling
  | MAdding
  | MParked
  | MHolding
  | MReleased
  | MWaking "nat list"

record task_mutex =
  mx_flag :: bool
  mx_notify :: waker_set
  mx_pc :: "nat \<Rightarrow> mutex_pc"
  mx_notified :: "nat set"

definition mutex_new :: task_mutex where
  "mutex_new = \<lparr>mx_flag = False, mx_notify = waker_set_new, mx_pc = (\<lambda>_. MIdle), mx_notified = {}\<rparr>"

inductive mutex_step :: "task_mutex \<Rightarrow> task_mutex \<Rightarrow> bool" where
  mx_lock: "t < MAX_TASKS \<Longrightarrow> mx_pc s t = MIdle \<Longrightarrow> mutex_step s (s\<lparr>mx_pc := (mx_pc s)(t := MPolling)\<rparr>)"
| mx_swap_won: "mx_pc s t = MPolling \<Longrightarrow> \<not> mx_flag s \<Longrightarrow>
    mutex_step s (s\<lparr>mx_flag := True, mx_pc := (mx_pc s)(t := MHolding)\<rparr>)"
| mx_swap_lost: "mx_pc s t = MPolling \<Longrightarrow> mx_flag s \<Longrightarrow>
    mutex_step s (s\<lparr>mx_flag := True, mx_pc := (mx_pc s)(t := MAdding)\<rparr>)"
| mx_add: "mx_pc s t = MAdding \<Longrightarrow>
    mutex_step s (s\<lparr>mx_notify := bits_add t (mx_notify s), mx_pc := (mx_pc s)(t := MParked)\<rparr>)"
| mx_resume: "mx_pc s t = MParked \<Longrightarrow> t \<in> mx_notified s \<Longrightarrow>
    mutex_step s (s\<lparr>mx_notified := mx_notified s - {t}, mx_pc := (mx_pc s)(t := MPolling)\<rparr>)"
| mx_unlock: "mx_pc s t = MHolding \<Longrightarrow>
    mutex_step s (s\<lparr>mx_flag := False, mx_pc := (mx_pc s)(t := MReleased)\<rparr>)"
| mx_take: "mx_pc s t = MReleased \<Longrightarrow> bits_take (mx_notify s) = (ids, rest) \<Longrightarrow>
    mutex_step s (s\<lparr>mx_notify := rest, mx_pc := (mx_pc s)(t := MWaking ids)\<rparr>)"
| mx_wake: "mx_pc s t = MWaking (i # ids) \<Longrightarrow>
    mutex_step s (s\<lparr>mx_notified := insert i (mx_notified s), mx_pc := (mx_pc s)(t := MWaking ids)\<rparr>)"
| mx_done: "mx_pc s t = MWaking [] \<Longrightarrow> mutex_step s (s\<lparr>mx_pc := (mx_pc s)(t := MIdle)\<rparr>)"
| mx_foreign: "mutex_step s (s\<lparr>mx_notified := insert i (mx_notified s)\<rparr>)"

inductive mutex_reach :: "task_mutex \<Rightarrow> bool" where
  mutex_reach_init: "mutex_reach mutex_new"
| mutex_reach_step: "mutex_reach s \<Longrightarrow> mutex_step s s' \<Longrightarrow> mutex_reach s'"

subsection \<open>Invariants\<close>

text \<open>Who knows of a parked task: the waker set, a task that is working through its wake-ups, or the kernel.\<close>

definition known :: "task_mutex \<Rightarrow> nat \<Rightarrow> bool" where
  "known s t \<longleftrightarrow> t \<in> waker_ids (mx_notify s) \<or> t \<in> mx_notified s
     \<or> (\<exists>u ids. mx_pc s u = MWaking ids \<and> t \<in> set ids)"

definition holders :: "task_mutex \<Rightarrow> nat set" where
  "holders s = {t. mx_pc s t = MHolding}"

definition mutex_inv :: "task_mutex \<Rightarrow> bool" where
  "mutex_inv s \<longleftrightarrow>
     (\<forall>t. mx_pc s t \<noteq> MIdle \<longrightarrow> t < MAX_TASKS) \<and>
     (if mx_flag s then \<exists>t. holders s = {t} else holders s = {}) \<and>
     (\<forall>t. mx_pc s t = MParked \<longrightarrow> known s t)"

lemma mutex_inv_init: "mutex_inv mutex_new"
  by (simp add: mutex_inv_def mutex_new_def holders_def)

lemma holders_update:
  assumes "mx_pc s' = (mx_pc s)(t := pc)"
  shows "holders s' = (if pc = MHolding then insert t (holders s) else holders s - {t})"
  using assms by (auto simp: holders_def split: if_splits)

text \<open>A step that changes the program counter of a task that does not hold the lock, to one that does not.\<close>

lemma holders_same:
  assumes "mx_pc s' = (mx_pc s)(t := pc)" "mx_pc s t \<noteq> MHolding" "pc \<noteq> MHolding"
  shows "holders s' = holders s"
  using assms by (auto simp: holders_def)

lemma known_update:
  assumes "known s u" "mx_notify s' = mx_notify s" "u \<in> mx_notified s \<Longrightarrow> u \<in> mx_notified s'"
    and "mx_pc s' = (mx_pc s)(t := pc)" "\<And>ids. mx_pc s t = MWaking ids \<Longrightarrow> u \<notin> set ids"
  shows "known s' u"
proof -
  consider "u \<in> waker_ids (mx_notify s) \<or> u \<in> mx_notified s"
    | w ids where "mx_pc s w = MWaking ids" "u \<in> set ids"
    using assms(1) unfolding known_def by blast
  then show ?thesis
  proof cases
    case 1
    then show ?thesis using assms(2,3) unfolding known_def by auto
  next
    case 2
    then have "mx_pc s' w = MWaking ids" using assms(4,5) by auto
    then show ?thesis using 2 unfolding known_def by blast
  qed
qed

lemma mutex_inv_quiet:
  assumes "mutex_inv s" "mx_pc s' = (mx_pc s)(t := pc)" "mx_pc s t \<noteq> MHolding" "pc \<noteq> MHolding"
    and "mx_flag s' = mx_flag s" "t < MAX_TASKS" "\<And>u. mx_pc s' u = MParked \<Longrightarrow> known s' u"
  shows "mutex_inv s'"
  using assms holders_same [OF assms(2-4)] unfolding mutex_inv_def by (auto split: if_splits)

lemma mutex_inv_bound: "mutex_inv s \<Longrightarrow> mx_pc s t = pc \<Longrightarrow> pc \<noteq> MIdle \<Longrightarrow> t < MAX_TASKS"
  by (auto simp: mutex_inv_def)

lemma mutex_inv_known: "mutex_inv s \<Longrightarrow> mx_pc s t = MParked \<Longrightarrow> known s t"
  by (simp add: mutex_inv_def)

lemma known_mono:
  assumes "known s u" "waker_ids (mx_notify s) \<subseteq> waker_ids (mx_notify s')" "mx_notified s \<subseteq> mx_notified s'"
    and "\<And>w ids. mx_pc s w = MWaking ids \<Longrightarrow> mx_pc s' w = MWaking ids"
  shows "known s' u"
  using assms unfolding known_def by blast

lemma mutex_inv_step:
  assumes "mutex_step s s'" "mutex_inv s"
  shows "mutex_inv s'"
  using assms
proof (induction rule: mutex_step.induct)
  case (mx_add s t)
  let ?s' = "s\<lparr>mx_notify := bits_add t (mx_notify s), mx_pc := (mx_pc s)(t := MParked)\<rparr>"
  have t: "t < MAX_TASKS" using mutex_inv_bound [OF mx_add.prems mx_add.hyps] by simp
  then have ids: "waker_ids (bits_add t (mx_notify s)) = insert t (waker_ids (mx_notify s))"
    using ws.ids_add [of t] by (simp add: MAX_TASKS_def)
  have "known ?s' u" if "mx_pc ?s' u = MParked" for u
  proof (cases "u = t")
    case True
    then show ?thesis by (simp add: known_def ids)
  next
    case False
    then have "known s u" using that mutex_inv_known [OF mx_add.prems] by simp
    then show ?thesis by (rule known_mono) (auto simp: ids mx_add.hyps)
  qed
  then show ?case by (intro mutex_inv_quiet [OF mx_add.prems, of ?s' t MParked]) (simp_all add: mx_add.hyps t)
next
  case (mx_take s t ids rest)
  let ?s' = "s\<lparr>mx_notify := rest, mx_pc := (mx_pc s)(t := MWaking ids)\<rparr>"
  have t: "t < MAX_TASKS" using mutex_inv_bound [OF mx_take.prems mx_take.hyps(1)] by simp
  have ids: "set ids = waker_ids (mx_notify s)" using ws.ids_taken [of "mx_notify s"] mx_take.hyps(2) by simp
  have "known ?s' u" if "mx_pc ?s' u = MParked" for u
  proof -
    have "known s u" using that mutex_inv_known [OF mx_take.prems] by (auto split: if_splits)
    then consider "u \<in> set ids" | "u \<in> mx_notified s" | w ids' where "mx_pc s w = MWaking ids'" "u \<in> set ids'"
      unfolding known_def ids by blast
    then show ?thesis
    proof cases
      case 1
      then show ?thesis unfolding known_def by (auto intro!: exI [of _ t])
    next
      case 2
      then show ?thesis unfolding known_def by simp
    next
      case 3
      then have "w \<noteq> t" using mx_take.hyps(1) by auto
      with 3 show ?thesis unfolding known_def by (auto intro!: exI [of _ w])
    qed
  qed
  then show ?case
    by (intro mutex_inv_quiet [OF mx_take.prems, of ?s' t "MWaking ids"]) (simp_all add: mx_take.hyps t)
next
  case (mx_wake s t i ids)
  let ?s' = "s\<lparr>mx_notified := insert i (mx_notified s), mx_pc := (mx_pc s)(t := MWaking ids)\<rparr>"
  have t: "t < MAX_TASKS" using mutex_inv_bound [OF mx_wake.prems mx_wake.hyps] by simp
  have "known ?s' u" if "mx_pc ?s' u = MParked" for u
  proof -
    have "known s u" using that mutex_inv_known [OF mx_wake.prems] by (auto split: if_splits)
    then consider "u \<in> waker_ids (mx_notify s) \<or> u \<in> mx_notified s"
      | w ids' where "mx_pc s w = MWaking ids'" "u \<in> set ids'"
      unfolding known_def by blast
    then show ?thesis
    proof cases
      case 1
      then show ?thesis unfolding known_def by auto
    next
      case 2
      then show ?thesis
        using mx_wake.hyps unfolding known_def by (cases "w = t") (auto intro!: exI [of _ w])
    qed
  qed
  then show ?case
    by (intro mutex_inv_quiet [OF mx_wake.prems, of ?s' t "MWaking ids"]) (simp_all add: mx_wake.hyps t)
next
  case (mx_resume s t)
  let ?s' = "s\<lparr>mx_notified := mx_notified s - {t}, mx_pc := (mx_pc s)(t := MPolling)\<rparr>"
  have t: "t < MAX_TASKS" using mutex_inv_bound [OF mx_resume.prems mx_resume.hyps(1)] by simp
  have "known ?s' u" if "mx_pc ?s' u = MParked" for u
  proof -
    have "u \<noteq> t" "known s u" using that mutex_inv_known [OF mx_resume.prems] by (auto split: if_splits)
    then show ?thesis by (intro known_update [of s u ?s' t MPolling]) (auto simp: mx_resume.hyps)
  qed
  then show ?case
    by (intro mutex_inv_quiet [OF mx_resume.prems, of ?s' t MPolling]) (simp_all add: mx_resume.hyps t)
next
  case (mx_done s t)
  let ?s' = "s\<lparr>mx_pc := (mx_pc s)(t := MIdle)\<rparr>"
  have t: "t < MAX_TASKS" using mutex_inv_bound [OF mx_done.prems mx_done.hyps] by simp
  have "known ?s' u" if "mx_pc ?s' u = MParked" for u
  proof -
    have "known s u" using that mutex_inv_known [OF mx_done.prems] by (auto split: if_splits)
    then show ?thesis by (intro known_update [of s u ?s' t MIdle]) (auto simp: mx_done.hyps)
  qed
  then show ?case
    by (intro mutex_inv_quiet [OF mx_done.prems, of ?s' t MIdle]) (simp_all add: mx_done.hyps t)
next
  case (mx_lock t s)
  let ?s' = "s\<lparr>mx_pc := (mx_pc s)(t := MPolling)\<rparr>"
  have "known ?s' u" if "mx_pc ?s' u = MParked" for u
  proof -
    have "known s u" using that mutex_inv_known [OF mx_lock.prems] by (auto split: if_splits)
    then show ?thesis by (rule known_mono) (auto simp: mx_lock.hyps)
  qed
  then show ?case
    by (intro mutex_inv_quiet [OF mx_lock.prems, of ?s' t MPolling]) (simp_all add: mx_lock.hyps)
next
  case (mx_swap_lost s t)
  let ?s' = "s\<lparr>mx_flag := True, mx_pc := (mx_pc s)(t := MAdding)\<rparr>"
  have t: "t < MAX_TASKS" using mutex_inv_bound [OF mx_swap_lost.prems mx_swap_lost.hyps(1)] by simp
  have "known ?s' u" if "mx_pc ?s' u = MParked" for u
  proof -
    have "known s u" using that mutex_inv_known [OF mx_swap_lost.prems] by (auto split: if_splits)
    then show ?thesis by (rule known_mono) (auto simp: mx_swap_lost.hyps)
  qed
  then show ?case
    by (intro mutex_inv_quiet [OF mx_swap_lost.prems, of ?s' t MAdding]) (simp_all add: mx_swap_lost.hyps t)
next
  case (mx_swap_won s t)
  let ?s' = "s\<lparr>mx_flag := True, mx_pc := (mx_pc s)(t := MHolding)\<rparr>"
  have "known ?s' u" if "mx_pc ?s' u = MParked" for u
  proof -
    have "known s u" using that mutex_inv_known [OF mx_swap_won.prems] by (auto split: if_splits)
    then show ?thesis by (rule known_mono) (auto simp: mx_swap_won.hyps)
  qed
  moreover have "holders ?s' = {t}"
    using holders_update [of ?s' s t MHolding] mx_swap_won by (simp add: mutex_inv_def)
  ultimately show ?case using mx_swap_won by (auto simp: mutex_inv_def)
next
  case (mx_unlock s t)
  let ?s' = "s\<lparr>mx_flag := False, mx_pc := (mx_pc s)(t := MReleased)\<rparr>"
  have "known ?s' u" if "mx_pc ?s' u = MParked" for u
  proof -
    have "known s u" using that mutex_inv_known [OF mx_unlock.prems] by (auto split: if_splits)
    then show ?thesis by (rule known_mono) (auto simp: mx_unlock.hyps)
  qed
  moreover have "t \<in> holders s" using mx_unlock.hyps by (simp add: holders_def)
  then have "holders ?s' = {}"
    using holders_update [of ?s' s t MReleased] mx_unlock.prems by (auto simp: mutex_inv_def split: if_splits)
  ultimately show ?case using mx_unlock by (auto simp: mutex_inv_def)
next
  case (mx_foreign s i)
  have "known (s\<lparr>mx_notified := insert i (mx_notified s)\<rparr>) u" if "known s u" for u
    using that by (rule known_mono) auto
  moreover have "holders (s\<lparr>mx_notified := insert i (mx_notified s)\<rparr>) = holders s" by (simp add: holders_def)
  ultimately show ?case using mx_foreign by (simp add: mutex_inv_def)
qed

lemma mutex_reach_inv: "mutex_reach s \<Longrightarrow> mutex_inv s"
  by (induction rule: mutex_reach.induct) (auto intro: mutex_inv_init mutex_inv_step)

subsection \<open>Properties\<close>

text \<open>C26: mutual exclusion: at any time at most one task holds the lock, and the flag says whether one
  does, however the polls, registrations, releases and notifications of the tasks interleave.\<close>

theorem mutex_exclusion:
  assumes "mutex_reach s" "mx_pc s t = MHolding"
  shows "mx_flag s \<and> {u. mx_pc s u = MHolding} = {t}"
proof -
  have "t \<in> holders s" using assms(2) by (simp add: holders_def)
  then have "mx_flag s \<and> holders s = {t}"
    using mutex_reach_inv [OF assms(1)] by (auto simp: mutex_inv_def split: if_splits)
  then show ?thesis by (simp add: holders_def)
qed

text \<open>No waiting task is forgotten by the waker set: in every reachable state a parked task is
  registered for the next release, is in the list a releasing task is notifying, or has been notified.\<close>

theorem mutex_waiter_is_known:
  assumes "mutex_reach s" "mx_pc s t = MParked"
  shows "t \<in> waker_ids (mx_notify s) \<or> t \<in> mx_notified s \<or> (\<exists>u ids. mx_pc s u = MWaking ids \<and> t \<in> set ids)"
  using mutex_inv_known [OF mutex_reach_inv [OF assms(1)] assms(2)] by (simp add: known_def)

text \<open>
  But between the failed swap and the registration the holder can release the lock and wake everyone
  else, and the waiter does not look at the flag again before it parks.
\<close>

definition lost_wakeup :: task_mutex where
  "lost_wakeup = \<lparr>mx_flag = False, mx_notify = bits_add 1 0,
     mx_pc = (\<lambda>_. MIdle)(0 := MIdle, 1 := MParked), mx_notified = {}\<rparr>"

lemma mutex_reach_trans: "mutex_reach s \<Longrightarrow> mutex_step s s' \<Longrightarrow> s' = s'' \<Longrightarrow> mutex_reach s''"
  by (blast intro: mutex_reach_step)

lemma mutex_new_pc: "mx_pc mutex_new = (\<lambda>_. MIdle)" "mx_flag mutex_new = False" "mx_notified mutex_new = {}"
  "mx_notify mutex_new = 0"
  by (simp_all add: mutex_new_def waker_set_new_def)

lemma lost_wakeup_reachable: "mutex_reach lost_wakeup"
proof -
  let ?st = "\<lambda>f ns a b. \<lparr>mx_flag = f, mx_notify = ns, mx_pc = (\<lambda>_. MIdle)(0 := a, 1 := b), mx_notified = {}\<rparr>"
  have r0: "mutex_reach (?st False 0 MIdle MIdle)"
  proof -
    have "(\<lambda>_. MIdle)(0 := MIdle, 1 := MIdle) = (\<lambda>_ :: nat. MIdle)" by auto
    then show ?thesis using mutex_reach_init by (simp add: mutex_new_def waker_set_new_def)
  qed
  have r1: "mutex_reach (?st False 0 MPolling MIdle)"
    by (rule mutex_reach_trans [OF r0 mx_lock [of 0]]) (simp_all add: MAX_TASKS_def fun_upd_twist)
  have r2: "mutex_reach (?st True 0 MHolding MIdle)"
    by (rule mutex_reach_trans [OF r1 mx_swap_won [of _ 0]]) (simp_all add: fun_upd_twist)
  have r3: "mutex_reach (?st True 0 MHolding MPolling)"
    by (rule mutex_reach_trans [OF r2 mx_lock [of 1]]) (simp_all add: MAX_TASKS_def fun_upd_twist)
  have r4: "mutex_reach (?st True 0 MHolding MAdding)"
    by (rule mutex_reach_trans [OF r3 mx_swap_lost [of _ 1]]) (simp_all add: fun_upd_twist)
  have r5: "mutex_reach (?st False 0 MReleased MAdding)"
    by (rule mutex_reach_trans [OF r4 mx_unlock [of _ 0]]) (simp_all add: fun_upd_twist)
  have r6: "mutex_reach (?st False 0 (MWaking []) MAdding)"
    by (rule mutex_reach_trans [OF r5 mx_take [of _ 0 "[]" 0]]) (simp_all add: bits_take_def fun_upd_twist)
  have r7: "mutex_reach (?st False 0 MIdle MAdding)"
    by (rule mutex_reach_trans [OF r6 mx_done [of _ 0]]) (simp_all add: fun_upd_twist)
  show ?thesis
    by (rule mutex_reach_trans [OF r7 mx_add [of _ 1]]) (simp_all add: lost_wakeup_def fun_upd_twist)
qed

text \<open>C27: a wake-up can be lost: a state is reachable in which a task waits for the lock although nobody
  holds it, no task is releasing it and no notification is under way; the task is stuck until another
  task happens to take and release the lock, or something else notifies it.\<close>

theorem mutex_lost_wakeup:
  "\<exists>s. mutex_reach s \<and> mx_pc s 1 = MParked \<and> \<not> mx_flag s \<and> mx_notified s = {} \<and> mx_pc s = (\<lambda>_. MIdle)(1 := MParked)"
  using lost_wakeup_reachable
  by (intro exI [of _ lost_wakeup]) (simp add: lost_wakeup_def fun_eq_iff)

text \<open>The state with a holder and a waiter that has registered.\<close>

lemma mutex_example_reachable:
  "mutex_reach \<lparr>mx_flag = True, mx_notify = bits_add 1 0,
     mx_pc = (\<lambda>_. MIdle)(0 := MHolding, 1 := MParked), mx_notified = {}\<rparr>"
proof -
  let ?st = "\<lambda>f ns a b. \<lparr>mx_flag = f, mx_notify = ns, mx_pc = (\<lambda>_. MIdle)(0 := a, 1 := b), mx_notified = {}\<rparr>"
  have r0: "mutex_reach (?st False (bits_add 1 0) MIdle MParked)"
    using lost_wakeup_reachable by (simp add: lost_wakeup_def)
  have r1: "mutex_reach (?st False (bits_add 1 0) MPolling MParked)"
    by (rule mutex_reach_trans [OF r0 mx_lock [of 0]]) (simp_all add: MAX_TASKS_def fun_upd_twist)
  show ?thesis
    by (rule mutex_reach_trans [OF r1 mx_swap_won [of _ 0]]) (simp_all add: fun_upd_twist)
qed

theorem mutex_exclusion_witness:
  "{u. ((\<lambda>_. MIdle)(0 := MHolding, 1 := MParked)) u = MHolding} = {0 :: nat}"
  using mutex_exclusion [OF mutex_example_reachable, of 0] by simp

theorem mutex_waiter_is_known_witness: "1 \<in> waker_ids (bits_add 1 0)"
  using mutex_waiter_is_known [OF mutex_example_reachable, of 1] by (auto split: if_splits)

end
