(* ===== verification/LockedQueue.thy ===== *)
theory LockedQueue
  imports TaskMutex PacketQueue
begin

text \<open>
  Data behind a \<^verbatim>\<open>TaskMutex\<close>, and the packet queue as such data (\<^verbatim>\<open>receive_packet\<close> and \<^verbatim>\<open>pop_front\<close> of
  \<^verbatim>\<open>src/app/queue.rs\<close>): tasks reach the data through a guard only, an operation reads it and later writes it
  back, and the others run in between. What is shown is that this amounts to the operations one after the
  other, which is how the theories \<open>Stream\<close> and \<open>AppTask\<close> take them.
\<close>

subsection \<open>Data behind a lock\<close>

text \<open>
  \<open>run\<close> is what an operation does to the data and what it returns. A task at work has read the data; the
  log has the finished operations, each with its task and its result.
\<close>

record ('op, 'r, 'd) locked =
  lk_mutex :: task_mutex
  lk_data :: 'd
  lk_work :: "nat \<Rightarrow> ('op \<times> 'd) option"
  lk_log :: "(nat \<times> 'op \<times> 'r) list"

definition locked_new :: "'d \<Rightarrow> ('op, 'r, 'd) locked" where
  "locked_new d = \<lparr>lk_mutex = mutex_new, lk_data = d, lk_work = (\<lambda>_. None), lk_log = []\<rparr>"

text \<open>The guard lives to the end of the operation: a task that is at work does not let go of the lock.\<close>

inductive lock_step ::
    "('op \<Rightarrow> 'd \<Rightarrow> 'r \<times> 'd) \<Rightarrow> ('op, 'r, 'd) locked \<Rightarrow> ('op, 'r, 'd) locked \<Rightarrow> bool" for run where
  lk_sync: "mutex_step (lk_mutex s) m \<Longrightarrow> \<forall>t. lk_work s t \<noteq> None \<longrightarrow> mx_pc m t = MHolding \<Longrightarrow>
    lock_step run s (s\<lparr>lk_mutex := m\<rparr>)"
| lk_begin: "mx_pc (lk_mutex s) t = MHolding \<Longrightarrow> lk_work s t = None \<Longrightarrow>
    lock_step run s (s\<lparr>lk_work := (lk_work s)(t \<mapsto> (act, lk_data s))\<rparr>)"
| lk_end: "lk_work s t = Some (act, d) \<Longrightarrow> run act d = (r, d') \<Longrightarrow>
    lock_step run s (s\<lparr>lk_data := d', lk_work := (lk_work s)(t := None), lk_log := lk_log s @ [(t, act, r)]\<rparr>)"

inductive lock_reach :: "('op \<Rightarrow> 'd \<Rightarrow> 'r \<times> 'd) \<Rightarrow> 'd \<Rightarrow> ('op, 'r, 'd) locked \<Rightarrow> bool" for run d where
  lock_reach_init: "lock_reach run d (locked_new d)"
| lock_reach_step: "lock_reach run d s \<Longrightarrow> lock_step run s s' \<Longrightarrow> lock_reach run d s'"

text \<open>The same operations one after the other.\<close>

fun seq_run :: "('op \<Rightarrow> 'd \<Rightarrow> 'r \<times> 'd) \<Rightarrow> 'op list \<Rightarrow> 'd \<Rightarrow> 'r list \<times> 'd" where
  "seq_run run [] d = ([], d)"
| "seq_run run (act # acts) d = (case run act d of (r, d') \<Rightarrow> case seq_run run acts d' of (rs, d'') \<Rightarrow> (r # rs, d''))"

lemma seq_run_snoc:
  "seq_run run acts d = (rs, d') \<Longrightarrow> run act d' = (r, d'') \<Longrightarrow> seq_run run (acts @ [act]) d = (rs @ [r], d'')"
  by (induction acts arbitrary: d rs) (auto split: prod.splits)

definition log_acts :: "(nat \<times> 'op \<times> 'r) list \<Rightarrow> 'op list" where
  "log_acts log = map (\<lambda>(t, act, r). act) log"

definition log_results :: "(nat \<times> 'op \<times> 'r) list \<Rightarrow> 'r list" where
  "log_results log = map (\<lambda>(t, act, r). r) log"

definition locked_inv :: "('op \<Rightarrow> 'd \<Rightarrow> 'r \<times> 'd) \<Rightarrow> 'd \<Rightarrow> ('op, 'r, 'd) locked \<Rightarrow> bool" where
  "locked_inv run d s \<longleftrightarrow> mutex_reach (lk_mutex s)
     \<and> seq_run run (log_acts (lk_log s)) d = (log_results (lk_log s), lk_data s)
     \<and> (\<forall>t act d'. lk_work s t = Some (act, d') \<longrightarrow> mx_pc (lk_mutex s) t = MHolding \<and> d' = lk_data s)"

lemma one_holder: "mutex_reach m \<Longrightarrow> mx_pc m t = MHolding \<Longrightarrow> mx_pc m u = MHolding \<Longrightarrow> t = u"
  using mutex_reach_inv [of m] by (auto simp: mutex_inv_def holders_def set_eq_iff split: if_splits)

lemma locked_inv_step:
  assumes "lock_step run s s'" "locked_inv run d s"
  shows "locked_inv run d s'"
  using assms
proof (induction rule: lock_step.induct)
  case (lk_sync s m)
  then show ?case by (auto simp: locked_inv_def intro: mutex_reach_step)
next
  case (lk_begin s t act)
  then show ?case by (simp add: locked_inv_def)
next
  case (lk_end s t act d0 r d')
  have d0: "d0 = lk_data s" and t: "mx_pc (lk_mutex s) t = MHolding" and reach: "mutex_reach (lk_mutex s)"
    using lk_end by (auto simp: locked_inv_def)
  have "lk_work s u = None" if "u \<noteq> t" for u
    using lk_end(3) one_holder [OF reach t, of u] that by (cases "lk_work s u") (auto simp: locked_inv_def)
  moreover have "seq_run run (log_acts (lk_log s) @ [act]) d = (log_results (lk_log s) @ [r], d')"
    using lk_end(2,3) d0 by (intro seq_run_snoc) (simp_all add: locked_inv_def)
  ultimately show ?case using reach by (simp add: locked_inv_def log_acts_def log_results_def)
qed

lemma lock_reach_inv: "lock_reach run d s \<Longrightarrow> locked_inv run d s"
proof (induction rule: lock_reach.induct)
  case lock_reach_init
  then show ?case by (simp add: locked_inv_def locked_new_def log_acts_def log_results_def mutex_reach_init)
next
  case (lock_reach_step s s')
  then show ?case by (blast intro: locked_inv_step)
qed

subsection \<open>The packet queue behind its lock\<close>

text \<open>A panic aborts the firmware, lock and all: there is no queue then.\<close>

fun queue_op ::
    "profile \<Rightarrow> ('q, 'a option) deque_ops \<Rightarrow> ('a \<Rightarrow> u64) \<Rightarrow> 'a pq_act \<Rightarrow> ('q pq_shared \<times> stats) option \<Rightarrow>
     'a option option \<times> ('q pq_shared \<times> stats) option" where
  "queue_op p ops seq_of act None = (None, None)"
| "queue_op p ops seq_of (Receive packet) (Some (shared, stats)) =
     (case insert_packet p ops seq_of packet shared stats of
        Some (Ok (shared', stats')) \<Rightarrow> (None, Some (shared', stats'))
      | _ \<Rightarrow> (None, None))"
| "queue_op p ops seq_of PopFront (Some (shared, stats)) =
     (case pq_pop_front p ops shared of
        Ok (packet, shared') \<Rightarrow> (Some packet, Some (shared', stats))
      | Panic _ \<Rightarrow> (None, None))"

text \<open>What was popped.\<close>

definition popped :: "'a option option list \<Rightarrow> 'a option list" where
  "popped rs = List.map_filter (\<lambda>r. r) rs"

lemma popped_simps [simp]: "popped [] = []" "popped (None # rs) = popped rs" "popped (Some x # rs) = x # popped rs"
  by (simp_all add: popped_def List.map_filter_simps)

lemma seq_run_queue:
  "pq_run p ops seq_of acts shared stats = Some (Ok (outs, shared', stats')) \<Longrightarrow>
    popped (fst (seq_run (queue_op p ops seq_of) acts (Some (shared, stats)))) = outs
    \<and> snd (seq_run (queue_op p ops seq_of) acts (Some (shared, stats))) = Some (shared', stats')"
proof (induction acts arbitrary: shared stats outs)
  case Nil
  then show ?case by simp
next
  case (Cons act acts)
  show ?case
  proof (cases act)
    case (Receive packet)
    obtain shared1 stats1 where "insert_packet p ops seq_of packet shared stats = Some (Ok (shared1, stats1))"
      "pq_run p ops seq_of acts shared1 stats1 = Some (Ok (outs, shared', stats'))"
      using Cons.prems Receive by (auto split: option.splits outcome.splits)
    then show ?thesis using Cons.IH [of shared1 stats1 outs] Receive by (auto split: prod.splits)
  next
    case PopFront
    obtain out shared1 outs1 where "pq_pop_front p ops shared = Ok (out, shared1)" "outs = out # outs1"
      "pq_run p ops seq_of acts shared1 stats = Some (Ok (outs1, shared', stats'))"
      using Cons.prems PopFront by (auto simp: return_ok split: outcome.splits)
    then show ?thesis using Cons.IH [of shared1 stats outs1] PopFront by (auto split: prod.splits)
  qed
qed

lemma locked_operations_serialise:
  assumes "lock_reach run d s"
  shows "seq_run run (log_acts (lk_log s)) d = (log_results (lk_log s), lk_data s)"
    and "lk_work s t \<noteq> None \<Longrightarrow> lk_work s u \<noteq> None \<Longrightarrow> t = u"
  using lock_reach_inv [OF assms] one_holder [of "lk_mutex s" t u] by (auto simp: locked_inv_def)

subsection \<open>Properties\<close>

text \<open>C9: the lock makes the queue's operations whole: however the tasks' attempts to take the lock, their
  registrations, releases, notifications, and their reads and writes of the queue interleave, at most one
  task is in the middle of an operation; and as long as the first number, the number of pops and the length of the
  window add up to less than 2 to the 64th and every packet received is less than 2 to the 32nd ahead of the first
  number, no operation panics, and in the order in which the operations finished the \<open>k\<close>-th packet popped is the first one with number \<open>start + k\<close> that was
  received while that number was in the window, or nothing.\<close>

theorem locked_queue_plays_first_arrivals:
  assumes "deque_laws ops items"
    and "lock_reach (queue_op p ops seq_of) (Some (pq_new ops start_seq, stats)) s"
    and "unat start_seq + pops (log_acts (lk_log s)) + MAX_QUEUED_PACKETS < 2 ^ 64"
    and "\<forall>packet\<in>received (log_acts (lk_log s)). unat (seq_of packet) < unat start_seq + 2 ^ 32"
  shows "popped (log_results (lk_log s))
      = map (\<lambda>k. first_arrival seq_of (unat start_seq) (unat start_seq + k) (log_acts (lk_log s)))
          [0..<pops (log_acts (lk_log s))]
    \<and> lk_data s \<noteq> None \<and> (\<forall>t u. lk_work s t \<noteq> None \<and> lk_work s u \<noteq> None \<longrightarrow> t = u)"
proof -
  let ?acts = "log_acts (lk_log s)"
  have new: "pq_abs items (pq_new ops start_seq) = \<lparr>next_seq = unat start_seq, held = (\<lambda>_. None)\<rparr>"
    "pq_wf ops items (pq_new ops start_seq)" "pq_head_seq (pq_new ops start_seq) = start_seq"
    using pq_abs_new [OF assms(1)] by (auto simp: pq_new_def)
  obtain shared' stats' where "pq_run p ops seq_of ?acts (pq_new ops start_seq) stats
      = Some (Ok (play_run seq_of ?acts \<lparr>next_seq = unat start_seq, held = (\<lambda>_. None)\<rparr>, shared', stats'))"
    using pq_run_refines [OF assms(1) new(2), of "unat start_seq" ?acts seq_of p stats] assms(3,4) new(1,3) by auto
  from seq_run_queue [OF this] locked_operations_serialise(1) [OF assms(2)]
  have "popped (log_results (lk_log s)) = play_run seq_of ?acts \<lparr>next_seq = unat start_seq, held = (\<lambda>_. None)\<rparr>"
    "lk_data s = Some (shared', stats')" by simp_all
  moreover have "play_run seq_of ?acts \<lparr>next_seq = unat start_seq, held = (\<lambda>_. None)\<rparr>
      = map (\<lambda>k. first_arrival seq_of (unat start_seq) (unat start_seq + k) ?acts) [0..<pops ?acts]"
    by (intro nth_equalityI) (simp_all add: length_play_run play_run_first_arrival)
  ultimately show ?thesis using locked_operations_serialise(2) [OF assms(2)] by auto
qed

lemma lock_reach_trans: "lock_reach run d s \<Longrightarrow> lock_step run s s' \<Longrightarrow> s' = s'' \<Longrightarrow> lock_reach run d s''"
  by (blast intro: lock_reach_step)

text \<open>Task 0 receives packet 7; while it is giving the lock back, task 1 takes it and pops.\<close>

lemma example_locked_reach:
  "\<exists>s. lock_reach (queue_op Dev list_deque fst) (Some (pq_new list_deque 7, stats_new)) s
    \<and> log_acts (lk_log s) = [Receive (7, ''a''), PopFront]"
proof -
  let ?run = "queue_op Dev list_deque (fst :: u64 \<times> string \<Rightarrow> u64)"
  let ?d = "Some (pq_new list_deque 7, stats_new)"
  let ?m = "\<lambda>f a b. \<lparr>mx_flag = f, mx_notify = 0, mx_pc = (\<lambda>_. MIdle)(0 := a, 1 := b), mx_notified = {}\<rparr>"
  let ?st = "\<lambda>f a b d log. \<lparr>lk_mutex = ?m f a b, lk_data = d, lk_work = (\<lambda>_. None), lk_log = log\<rparr>"
  obtain r1 d1 where op1: "?run (Receive (7, ''a'')) ?d = (r1, d1)" by fastforce
  obtain r2 d2 where op2: "?run PopFront d1 = (r2, d2)" by fastforce
  have r0: "lock_reach ?run ?d (?st False MIdle MIdle ?d [])"
  proof -
    have "(\<lambda>_. MIdle)(0 := MIdle, 1 := MIdle) = (\<lambda>_ :: nat. MIdle)" by auto
    then show ?thesis using lock_reach_init [of ?run ?d] by (simp add: locked_new_def mutex_new_def waker_set_new_def)
  qed
  have r1: "lock_reach ?run ?d (?st False MPolling MIdle ?d [])"
    by (rule lock_reach_trans [OF r0 lk_sync [OF mx_lock [of 0]]]) (simp_all add: MAX_TASKS_def fun_upd_twist)
  have r2: "lock_reach ?run ?d (?st True MHolding MIdle ?d [])"
    by (rule lock_reach_trans [OF r1 lk_sync [OF mx_swap_won [of _ 0]]]) (simp_all add: fun_upd_twist)
  have r3: "lock_reach ?run ?d (?st True MHolding MIdle d1 [(0, Receive (7, ''a''), r1)])"
    by (rule lock_reach_trans [OF lock_reach_step [OF r2 lk_begin [where t = 0 and act = "Receive (7, ''a'')"]] lk_end [where run = ?run and t = 0 and d = ?d, OF _ op1]])
      (simp_all add: fun_upd_idem)
  have r4: "lock_reach ?run ?d (?st False MReleased MIdle d1 [(0, Receive (7, ''a''), r1)])"
    by (rule lock_reach_trans [OF r3 lk_sync [OF mx_unlock [of _ 0]]]) (simp_all add: fun_upd_twist)
  have r5: "lock_reach ?run ?d (?st False MReleased MPolling d1 [(0, Receive (7, ''a''), r1)])"
    by (rule lock_reach_trans [OF r4 lk_sync [OF mx_lock [of 1]]]) (simp_all add: MAX_TASKS_def fun_upd_twist)
  have r6: "lock_reach ?run ?d (?st True MReleased MHolding d1 [(0, Receive (7, ''a''), r1)])"
    by (rule lock_reach_trans [OF r5 lk_sync [OF mx_swap_won [of _ 1]]]) (simp_all add: fun_upd_twist)
  have r7: "lock_reach ?run ?d (?st True MReleased MHolding d2 [(0, Receive (7, ''a''), r1), (1, PopFront, r2)])"
    by (rule lock_reach_trans [OF lock_reach_step [OF r6 lk_begin [where t = 1 and act = PopFront]] lk_end [where run = ?run and t = 1 and d = d1, OF _ op2]])
      (simp_all add: fun_upd_idem)
  then show ?thesis by (intro exI conjI) (assumption, simp add: log_acts_def)
qed

theorem locked_queue_plays_first_arrivals_witness:
  "\<exists>s. lock_reach (queue_op Dev list_deque fst) (Some (pq_new list_deque 7, stats_new)) s
    \<and> popped (log_results (lk_log s)) = [Some (7, ''a'')]"
proof -
  obtain s where s: "lock_reach (queue_op Dev list_deque fst) (Some (pq_new list_deque 7, stats_new)) s"
    "log_acts (lk_log s) = [Receive (7, ''a''), PopFront]"
    using example_locked_reach by blast
  from locked_queue_plays_first_arrivals [OF list_deque_laws s(1)] show ?thesis
    using s by (auto simp: MAX_QUEUED_PACKETS_def received_def)
qed

end
