(* ===== verification/DacWait.thy ===== *)
theory DacWait
  imports Dac
begin

text \<open>
  The task that writes to the DAC and the interrupt that refills the DMA buffers, running at the same time
  (\<^verbatim>\<open>poll_write\<close> and \<^verbatim>\<open>on_convert_done\<close> of \<^verbatim>\<open>src/platform/dac.rs\<close>, with the loop of \<^verbatim>\<open>src/system/task/execute.rs\<close>):
  the accesses to the ring and to the waker set are the steps, so that an interrupt may come between the write
  that finds the ring full and the registration. The ring's own accesses are the theory \<open>RingBufferSpsc\<close>.
\<close>

subsection \<open>Steps\<close>

datatype writer_pc = DPolling | DMissed | DParked
datatype isr_pc = IsrIdle | IsrRead

text \<open>With the frames that were accepted and those that the interrupts took.\<close>

record dac_wait =
  dk_env :: dac_env
  dk_pc :: writer_pc
  dk_isr :: isr_pc
  dk_notified :: bool
  dk_written :: "frame list"
  dk_taken :: "frame list"

definition dac_wait_init :: "dac_env \<Rightarrow> dac_wait" where
  "dac_wait_init env = \<lparr>dk_env = env, dk_pc = DPolling, dk_isr = IsrIdle, dk_notified = False, dk_written = [], dk_taken = []\<rparr>"

text \<open>The writer's task is \<open>task\<close>, registered in slot \<open>n\<close>. Without an event list there is nothing to refill.\<close>

inductive dac_wait_step ::
    "profile \<Rightarrow> (task_ptr \<Rightarrow> bool) \<Rightarrow> task_ptr \<Rightarrow> nat \<Rightarrow> slots \<Rightarrow> dac_wait \<Rightarrow> dac_wait \<Rightarrow> bool"
  for p notify task n slots where
  dk_write: "dk_pc s = DPolling \<Longrightarrow> rb_write data (dac_ring (dk_env s)) = Ok (nbytes, ring) \<Longrightarrow> 0 < nbytes \<Longrightarrow>
    dac_wait_step p notify task n slots s
      (s\<lparr>dk_env := (dk_env s)\<lparr>dac_ring := ring\<rparr>, dk_written := dk_written s @ take nbytes data\<rparr>)"
| dk_full: "dk_pc s = DPolling \<Longrightarrow> data \<noteq> [] \<Longrightarrow> rb_write data (dac_ring (dk_env s)) = Ok (0, ring) \<Longrightarrow>
    dac_wait_step p notify task n slots s (s\<lparr>dk_env := (dk_env s)\<lparr>dac_ring := ring\<rparr>, dk_pc := DMissed\<rparr>)"
| dk_register: "dk_pc s = DMissed \<Longrightarrow>
    add_task p (raw_waker_new (nth_id n)) task slots (dac_waker (dk_env s)) = Ok waker \<Longrightarrow>
    dac_wait_step p notify task n slots s (s\<lparr>dk_env := (dk_env s)\<lparr>dac_waker := waker\<rparr>, dk_pc := DParked\<rparr>)"
| dk_resume: "dk_pc s = DParked \<Longrightarrow> dk_notified s \<Longrightarrow>
    dac_wait_step p notify task n slots s (s\<lparr>dk_notified := False, dk_pc := DPolling\<rparr>)"
| dk_refill: "dk_isr s = IsrIdle \<Longrightarrow>
    read_in_place (convert_slices (event_output event)) (dac_ring (dk_env s)) = Ok (k, filled, ring) \<Longrightarrow>
    dac_wait_step p notify task n slots s
      (s\<lparr>dk_env := (dk_env s)\<lparr>dac_ring := ring\<rparr>, dk_isr := IsrRead,
         dk_taken := dk_taken s @ take k (rb_contents (dac_ring (dk_env s)))\<rparr>)"
| dk_wake: "dk_isr s = IsrRead \<Longrightarrow> wake_from_isr p notify slots (dac_waker (dk_env s)) = Ok (result, tasks, waker) \<Longrightarrow>
    dac_wait_step p notify task n slots s
      (s\<lparr>dk_env := (dk_env s)\<lparr>dac_waker := waker\<rparr>, dk_isr := IsrIdle, dk_notified := (dk_notified s \<or> task \<in> set tasks)\<rparr>)"

inductive dac_wait_steps ::
    "profile \<Rightarrow> (task_ptr \<Rightarrow> bool) \<Rightarrow> task_ptr \<Rightarrow> nat \<Rightarrow> slots \<Rightarrow> dac_wait \<Rightarrow> dac_wait \<Rightarrow> bool"
  for p notify task n slots where
  dks_refl: "dac_wait_steps p notify task n slots s s"
| dks_step: "dac_wait_steps p notify task n slots s s' \<Longrightarrow> dac_wait_step p notify task n slots s' s'' \<Longrightarrow>
    dac_wait_steps p notify task n slots s s''"

subsection \<open>What holds of every run\<close>

definition dac_wait_inv :: "nat \<Rightarrow> frame list \<Rightarrow> nat \<Rightarrow> dac_wait \<Rightarrow> bool" where
  "dac_wait_inv N start n s \<longleftrightarrow>
     rb_wf (dac_ring (dk_env s)) \<and> buffer_len (dac_ring (dk_env s)) = N
     \<and> start @ dk_written s = dk_taken s @ rb_contents (dac_ring (dk_env s))
     \<and> (dk_pc s = DParked \<longrightarrow> dk_notified s \<or> n \<in> waker_ids (dac_waker (dk_env s)))"

text \<open>What the interrupt's read does.\<close>

lemma refill_spec:
  assumes "rb_wf rb"
  shows "\<exists>filled ring. read_in_place (convert_slices (event_output event)) rb
      = Ok (min (length (event_output event)) (length (rb_contents rb)), filled, ring)
    \<and> rb_wf ring \<and> buffer_len ring = buffer_len rb
    \<and> rb_contents ring = drop (length (event_output event)) (rb_contents rb)"
proof -
  let ?n = "\<lambda>xs. min (length (event_output event)) (length xs)"
  let ?res = "\<lambda>xs. map dma_of_frame (take (length (event_output event)) xs) @ drop (length xs) (event_output event)"
  have func: "convert_slices (event_output event) l r = (?n (l @ r), ?res (l @ r))" for l r
    by (simp add: convert_slices_eq)
  obtain ring where "read_in_place (convert_slices (event_output event)) rb = Ok (?n (rb_contents rb), ?res (rb_contents rb), ring)"
    "rb_wf ring" "rb_contents ring = drop (?n (rb_contents rb)) (rb_contents rb)" "buffer_len ring = buffer_len rb"
    using read_in_place_spec [OF assms, of "convert_slices (event_output event)" ?n ?res, OF func] by auto
  then show ?thesis by (simp add: min_def)
qed

lemma notified_tasks:
  assumes "length slots = 32" "slots ! n = Some task" "wake_from_isr p notify slots bits = Ok (result, tasks, waker)"
    and "n \<in> waker_ids bits"
  shows "task \<in> set tasks"
proof -
  have "tasks = occupants slots (fst (bits_take bits))"
    using wake_from_isr_eq [OF assms(1), of p notify bits] assms(3) by auto
  then show ?thesis using assms(2,4) by (force simp: set_occupants ws.ids_taken)
qed

lemma dac_wait_step_inv:
  assumes slots: "length slots = 32" "n < 32" "slots ! n = Some task"
    and "dac_wait_step p notify task n slots s s'" "dac_wait_inv N start n s"
  shows "dac_wait_inv N start n s'"
  using assms(4,5)
proof (induction rule: dac_wait_step.induct)
  case (dk_write s data nbytes ring)
  then show ?case using rb_write_spec [of "dac_ring (dk_env s)" data]
    by (auto simp: dac_wait_inv_def min_def split: if_splits)
next
  case (dk_full s data ring)
  then show ?case using rb_write_spec [of "dac_ring (dk_env s)" data]
    by (auto simp: dac_wait_inv_def min_def split: if_splits)
next
  case (dk_register s waker)
  then have "waker = bits_add n (dac_waker (dk_env s))" using add_task_own [OF slots(2)] by simp
  then have "n \<in> waker_ids waker" using ws.ids_add [OF slots(2)] by simp
  then show ?case using dk_register by (simp add: dac_wait_inv_def)
next
  case (dk_resume s)
  then show ?case by (simp add: dac_wait_inv_def)
next
  case (dk_refill s event k filled ring)
  let ?stored = "rb_contents (dac_ring (dk_env s))"
  have r: "rb_wf ring" "buffer_len ring = N" "rb_contents ring = drop (length (event_output event)) ?stored"
    "k = min (length (event_output event)) (length ?stored)"
    using refill_spec [of "dac_ring (dk_env s)" event] dk_refill(2,3) by (auto simp: dac_wait_inv_def)
  have "take k ?stored @ drop (length (event_output event)) ?stored = ?stored"
    unfolding r(4) by (cases "length (event_output event) \<le> length ?stored") simp_all
  then show ?case using dk_refill(3) r by (simp add: dac_wait_inv_def)
next
  case (dk_wake s result tasks waker)
  then show ?case using notified_tasks [OF slots(1,3) dk_wake(2)] by (auto simp: dac_wait_inv_def)
qed

lemma dac_wait_steps_inv:
  assumes "length slots = 32" "n < 32" "slots ! n = Some task"
    and "dac_wait_steps p notify task n slots s s'" "dac_wait_inv N start n s"
  shows "dac_wait_inv N start n s'"
  using assms(4,5) by (induction rule: dac_wait_steps.induct) (auto intro: dac_wait_step_inv [OF assms(1-3)])

lemma dac_wait_inv_init:
  "rb_wf (dac_ring env) \<Longrightarrow> dac_wait_inv (buffer_len (dac_ring env)) (rb_contents (dac_ring env)) n (dac_wait_init env)"
  by (simp add: dac_wait_inv_def dac_wait_init_def)

lemma refill_makes_room:
  assumes "rb_wf ring" "1 < buffer_len ring" "0 < k" "rb_contents ring = drop k stored" "length stored < buffer_len ring"
  shows "0 < rb_free ring"
  using assms length_rb_contents [of ring] by (simp add: rb_free_def)

subsection \<open>Properties\<close>

text \<open>C15: playback cannot stop on a lost wake-up: however the writing task and the interrupts interleave, an
  interrupt between the write that found the ring full and the registration included, the frames that were
  accepted are those the interrupts took followed by those in the ring, in order; and whenever the task
  waits, the next interrupt notifies it, with room in the ring for its next write.\<close>

theorem dac_writer_resumes:
  assumes "length slots = 32" "n < 32" "slots ! n = Some task"
    and "rb_wf (dac_ring env)" "1 < buffer_len (dac_ring env)"
    and "dac_wait_steps p notify task n slots (dac_wait_init env) s"
    and "0 < length (event_output event)"
  shows "rb_contents (dac_ring env) @ dk_written s = dk_taken s @ rb_contents (dac_ring (dk_env s))
    \<and> (dk_pc s = DParked \<and> dk_isr s = IsrIdle \<longrightarrow>
        (\<exists>k filled ring result tasks waker.
           read_in_place (convert_slices (event_output event)) (dac_ring (dk_env s)) = Ok (k, filled, ring)
           \<and> wake_from_isr p notify slots (dac_waker (dk_env s)) = Ok (result, tasks, waker)
           \<and> (dk_notified s \<or> task \<in> set tasks) \<and> 0 < rb_free ring))"
proof -
  have inv: "dac_wait_inv (buffer_len (dac_ring env)) (rb_contents (dac_ring env)) n s"
    using dac_wait_steps_inv [OF assms(1-3,6) dac_wait_inv_init [OF assms(4)]] .
  then have wf: "rb_wf (dac_ring (dk_env s))" "buffer_len (dac_ring (dk_env s)) = buffer_len (dac_ring env)"
    by (simp_all add: dac_wait_inv_def)
  obtain k filled ring where r: "read_in_place (convert_slices (event_output event)) (dac_ring (dk_env s)) = Ok (k, filled, ring)"
    "rb_wf ring" "buffer_len ring = buffer_len (dac_ring env)"
    "rb_contents ring = drop (length (event_output event)) (rb_contents (dac_ring (dk_env s)))"
    using refill_spec [OF wf(1), of event] wf(2) by auto
  have "0 < rb_free ring"
    using refill_makes_room [OF r(2) _ assms(7) r(4)] assms(5) r(3) wf rb_count_less [OF wf(1)]
    by simp
  moreover obtain result tasks waker where
    w: "wake_from_isr p notify slots (dac_waker (dk_env s)) = Ok (result, tasks, waker)"
    using wake_from_isr_eq [OF assms(1), of p notify "dac_waker (dk_env s)"] by blast
  moreover have "dk_pc s = DParked \<Longrightarrow> dk_notified s \<or> task \<in> set tasks"
    using inv notified_tasks [OF assms(1,3) w] by (auto simp: dac_wait_inv_def)
  ultimately show ?thesis using inv r(1) by (auto simp: dac_wait_inv_def)
qed

text \<open>The ring is full, an interrupt comes in the gap and notifies nobody, and the writer goes to sleep.\<close>

lemma example_gap:
  "\<exists>s. dac_wait_steps Dev (\<lambda>_. True) 300 3 ((replicate 32 None)[3 := Some 300])
      (dac_wait_init (example_env (replicate 7 default))) s
    \<and> dk_pc s = DParked \<and> dk_isr s = IsrIdle \<and> \<not> dk_notified s"
proof -
  let ?slots = "(replicate 32 None)[3 := Some (300 :: nat)]" and ?s0 = "dac_wait_init (example_env (replicate 7 default))"
  let ?steps = "dac_wait_steps Dev (\<lambda>_. True) 300 3 ?slots ?s0"
  let ?ev = "\<lparr>ev_buf = replicate 2 default, ev_buf_size = 8\<rparr>"
  have wf: "rb_wf (dac_ring (dk_env ?s0))" "rb_free (dac_ring (dk_env ?s0)) = 0" "dac_waker (dk_env ?s0) = 0"
    using example_env_wf [of "replicate 7 default"]
    by (simp_all add: dac_wait_init_def example_env_def rb_free_def buffer_len_def rb_count_def ring_dist_def)
  obtain ring where full: "rb_write [default] (dac_ring (dk_env ?s0)) = Ok (0, ring)" "rb_wf ring"
    using rb_write_spec [OF wf(1), of "[default]"] wf(2) by auto
  obtain s1 where s1: "?steps s1" "dk_pc s1 = DMissed" "dk_isr s1 = IsrIdle" "\<not> dk_notified s1"
    "dac_ring (dk_env s1) = ring" "dac_waker (dk_env s1) = 0"
    using dks_step [OF dks_refl dk_full [OF _ _ full(1), of Dev "\<lambda>_. True" 300 3 ?slots]] wf(3)
    by (force simp: dac_wait_init_def)
  obtain k filled ring1 where fill: "read_in_place (convert_slices (event_output ?ev)) (dac_ring (dk_env s1)) = Ok (k, filled, ring1)"
    using refill_spec [OF full(2), of ?ev] s1(5) by auto
  obtain s2 where s2: "?steps s2" "dk_pc s2 = DMissed" "dk_isr s2 = IsrRead" "\<not> dk_notified s2" "dac_waker (dk_env s2) = 0"
    using dks_step [OF s1(1) dk_refill [OF s1(3) fill]] s1 by force
  obtain r where wake: "wake_from_isr Dev (\<lambda>_. True) ?slots (dac_waker (dk_env s2)) = Ok (r, [], 0)"
    using wake_from_isr_eq [of ?slots Dev "\<lambda>_. True" 0] s2(5) by (auto simp: bits_take_def occupants_def List.map_filter_simps)
  obtain s3 where s3: "?steps s3" "dk_pc s3 = DMissed" "dk_isr s3 = IsrIdle" "\<not> dk_notified s3"
    using dks_step [OF s2(1) dk_wake [OF s2(3) wake]] s2 by force
  have "add_task Dev (raw_waker_new (nth_id 3)) 300 ?slots (dac_waker (dk_env s3)) = Ok (bits_add 3 (dac_waker (dk_env s3)))"
    by (rule add_task_own) simp
  from dks_step [OF s3(1) dk_register [OF s3(2) this]] s3 show ?thesis by force
qed

theorem dac_writer_resumes_witness:
  "\<exists>(s :: dac_wait) result tasks waker. \<not> dk_notified s \<and> dk_pc s = DParked
    \<and> wake_from_isr Dev (\<lambda>_. True) ((replicate 32 None)[3 := Some 300]) (dac_waker (dk_env s)) = Ok (result, tasks, waker)
    \<and> 300 \<in> set tasks"
proof -
  let ?slots = "(replicate 32 None)[3 := Some (300 :: nat)]" and ?env = "example_env (replicate 7 default)"
  let ?ev = "\<lparr>ev_buf = replicate 2 default, ev_buf_size = 8\<rparr>"
  obtain s where s: "dac_wait_steps Dev (\<lambda>_. True) 300 3 ?slots (dac_wait_init ?env) s"
    "dk_pc s = DParked" "dk_isr s = IsrIdle" "\<not> dk_notified s"
    using example_gap by blast
  have "length ?slots = 32" "(3 :: nat) < 32" "?slots ! 3 = Some 300" "rb_wf (dac_ring ?env)" "1 < buffer_len (dac_ring ?env)"
    "0 < length (event_output ?ev)"
    using example_env_wf [of "replicate 7 default"] by (simp_all add: example_env_def buffer_len_def event_output_def)
  from dac_writer_resumes [OF this(1-5) s(1) this(6)] s(2-4) obtain result tasks waker where
    "wake_from_isr Dev (\<lambda>_. True) ?slots (dac_waker (dk_env s)) = Ok (result, tasks, waker)" "300 \<in> set tasks" by auto
  with s(2,4) show ?thesis
    by (intro exI [of _ s] exI [of _ result] exI [of _ tasks] exI [of _ waker]) simp
qed

end
