(* ===== verification/RingBufferSpsc.thy ===== *)
theory RingBufferSpsc
  imports RingBuffer
begin

text \<open>
  The ring buffer with one writer and one reader running concurrently, as the DAC uses it: the
  stream task calls \<^verbatim>\<open>write\<close> while the DMA interrupt calls \<^verbatim>\<open>read_in_place\<close>.

  A call is broken into the steps at which the other side can interfere: the load of \<^verbatim>\<open>reader\<close>, the
  load of \<^verbatim>\<open>writer\<close>, each single element copied, and the store of the own index. The loads are
  \<^verbatim>\<open>Acquire\<close> and the stores \<^verbatim>\<open>Release\<close>, and each index is stored by one side only, so the copies
  made before a store are visible to whoever loads the stored value: the interleaving of these steps
  is what the hardware can show. \<open>sp_sent\<close> and \<open>sp_received\<close> are histories, they are not state
  of the program: what the writer has published, and what the reader has finished reading.
\<close>

subsection \<open>State and steps\<close>

datatype 'a producer =
    PIdle
  | PLoadedReader "'a list" nat
  | PCopying "'a list" nat nat

datatype 'a consumer =
    CIdle
  | CLoadedReader nat nat
  | CCopying nat nat "'a list"

record 'a spsc =
  sp_ring :: "'a ring_buffer"
  sp_prod :: "'a producer"
  sp_cons :: "'a consumer"
  sp_sent :: "'a list"
  sp_received :: "'a list"

definition write_chunk :: "nat \<Rightarrow> nat \<Rightarrow> nat \<Rightarrow> 'a list \<Rightarrow> 'a list" where
  "write_chunk len writer reader data =
     (let (left, right) = writer_slices len writer reader;
          available = snd left + snd right
      in if length data \<ge> available then take (available - 1) data else data)"

definition readable :: "nat \<Rightarrow> nat \<Rightarrow> nat \<Rightarrow> nat" where
  "readable len reader writer =
     (let (left, right) = reader_slices len reader writer in snd left + snd right)"

inductive prod_step :: "'a spsc \<Rightarrow> 'a spsc \<Rightarrow> bool" where
  load_reader: "sp_prod s = PIdle \<Longrightarrow>
    prod_step s (s\<lparr>sp_prod := PLoadedReader data (rb_reader (sp_ring s))\<rparr>)"
| load_writer: "sp_prod s = PLoadedReader data r \<Longrightarrow> w = rb_writer (sp_ring s) \<Longrightarrow>
    prod_step s (s\<lparr>sp_prod := PCopying (write_chunk (buffer_len (sp_ring s)) w r data) w 0\<rparr>)"
| copy_in: "sp_prod s = PCopying xs w k \<Longrightarrow> k < length xs \<Longrightarrow>
    prod_step s (s\<lparr>sp_prod := PCopying xs w (Suc k),
      sp_ring := (sp_ring s)\<lparr>rb_buffer :=
        (rb_buffer (sp_ring s))[(w + k) mod buffer_len (sp_ring s) := xs ! k]\<rparr>\<rparr>)"
| store_writer: "sp_prod s = PCopying xs w k \<Longrightarrow> k = length xs \<Longrightarrow>
    prod_step s (s\<lparr>sp_prod := PIdle, sp_sent := sp_sent s @ xs,
      sp_ring := (sp_ring s)\<lparr>rb_writer := (w + length xs) mod buffer_len (sp_ring s)\<rparr>\<rparr>)"

inductive cons_step :: "'a spsc \<Rightarrow> 'a spsc \<Rightarrow> bool" where
  load_reader: "sp_cons s = CIdle \<Longrightarrow>
    cons_step s (s\<lparr>sp_cons := CLoadedReader want (rb_reader (sp_ring s))\<rparr>)"
| load_writer: "sp_cons s = CLoadedReader want r \<Longrightarrow> w = rb_writer (sp_ring s) \<Longrightarrow>
    cons_step s (s\<lparr>sp_cons := CCopying r (min want (readable (buffer_len (sp_ring s)) r w)) []\<rparr>)"
| copy_out: "sp_cons s = CCopying r n acc \<Longrightarrow> length acc < n \<Longrightarrow>
    cons_step s (s\<lparr>sp_cons := CCopying r n
      (acc @ [rb_buffer (sp_ring s) ! ((r + length acc) mod buffer_len (sp_ring s))])\<rparr>)"
| store_reader: "sp_cons s = CCopying r n acc \<Longrightarrow> length acc = n \<Longrightarrow>
    cons_step s (s\<lparr>sp_cons := CIdle, sp_received := sp_received s @ acc,
      sp_ring := (sp_ring s)\<lparr>rb_reader := (r + n) mod buffer_len (sp_ring s)\<rparr>\<rparr>)"


definition spsc_step :: "'a spsc \<Rightarrow> 'a spsc \<Rightarrow> bool" where
  "spsc_step s t \<longleftrightarrow> prod_step s t \<or> cons_step s t"

definition spsc_init :: "'a list \<Rightarrow> 'a spsc" where
  "spsc_init buf = \<lparr>sp_ring = new_with_buffer buf, sp_prod = PIdle, sp_cons = CIdle,
     sp_sent = [], sp_received = []\<rparr>"

subsection \<open>Invariant\<close>

definition prod_inv :: "'a spsc \<Rightarrow> bool" where
  "prod_inv s = (case sp_prod s of PIdle \<Rightarrow> True
     | PLoadedReader data r0 \<Rightarrow> r0 < buffer_len (sp_ring s)
         \<and> rb_count (sp_ring s) \<le> ring_dist (buffer_len (sp_ring s)) r0 (rb_writer (sp_ring s))
     | PCopying xs w0 k \<Rightarrow> w0 = rb_writer (sp_ring s)
         \<and> rb_count (sp_ring s) + length xs < buffer_len (sp_ring s) \<and> k \<le> length xs
         \<and> (\<forall>i<k. rb_buffer (sp_ring s) ! ((w0 + i) mod buffer_len (sp_ring s)) = xs ! i))"

definition cons_inv :: "'a spsc \<Rightarrow> bool" where
  "cons_inv s = (case sp_cons s of CIdle \<Rightarrow> True
     | CLoadedReader want r0 \<Rightarrow> r0 = rb_reader (sp_ring s)
     | CCopying r0 n acc \<Rightarrow> r0 = rb_reader (sp_ring s) \<and> length acc \<le> n \<and> n \<le> rb_count (sp_ring s)
         \<and> acc = take (length acc) (rb_contents (sp_ring s)))"

definition spsc_inv :: "'a spsc \<Rightarrow> bool" where
  "spsc_inv s \<longleftrightarrow> rb_wf (sp_ring s) \<and> prod_inv s \<and> cons_inv s
     \<and> sp_received s @ rb_contents (sp_ring s) = sp_sent s"

lemma readable_dist: "r < N \<Longrightarrow> w < N \<Longrightarrow> readable N r w = ring_dist N r w"
  by (auto simp: readable_def reader_slices_def ring_dist_cases)

lemma write_chunk_fits:
  assumes "r < N" "w < N"
  shows "write_chunk N w r data = take (N - 1 - ring_dist N r w) data"
  using assms by (auto simp: write_chunk_def writer_slices_def ring_dist_cases Let_def)

text \<open>A write outside the stored region leaves the contents alone.\<close>

lemma rb_contents_store_outside:
  assumes "rb_wf rb" "rb_count rb + k < buffer_len rb"
  shows "rb_contents (rb\<lparr>rb_buffer := (rb_buffer rb)[(rb_writer rb + k) mod buffer_len rb := x]\<rparr>)
    = rb_contents rb"
proof -
  let ?N = "buffer_len rb"
  let ?j = "(rb_writer rb + k) mod ?N"
  have wf: "rb_reader rb < ?N" "rb_writer rb < ?N" using assms(1) by (auto simp: rb_wf_def)
  have d: "ring_dist ?N (rb_reader rb) ?j = rb_count rb + k"
    using ring_dist_add [OF wf, of k] assms(2) by (simp add: rb_count_def)
  have "(rb_reader rb + i) mod ?N \<noteq> ?j" if "i < rb_count rb" for i
  proof
    assume eq: "(rb_reader rb + i) mod ?N = ?j"
    have "i = rb_count rb + k"
      using ring_dist_forward [OF wf(1), of i] d that assms(2) unfolding eq by linarith
    with that show False by simp
  qed
  then show ?thesis
    by (force simp: rb_contents_def rb_count_def buffer_len_def intro!: map_cong nth_list_update_neq)
qed

lemma spsc_init_inv: "buf \<noteq> [] \<Longrightarrow> spsc_inv (spsc_init buf)"
  by (simp add: spsc_inv_def spsc_init_def new_with_buffer_def rb_wf_def buffer_len_def prod_inv_def
      cons_inv_def rb_contents_def rb_count_def ring_dist_def)


lemma rb_count_upd_buffer [simp]:
  "rb_count (rb\<lparr>rb_buffer := (rb_buffer rb)[j := x]\<rparr>) = rb_count rb"
  by (simp add: rb_count_def buffer_len_def)

text \<open>Publishing: the elements already in place become the tail of the contents.\<close>

lemma rb_contents_publish:
  assumes wf: "rb_wf rb" and fits: "rb_count rb + length xs < buffer_len rb"
    and placed: "\<And>i. i < length xs \<Longrightarrow> rb_buffer rb ! ((rb_writer rb + i) mod buffer_len rb) = xs ! i"
  defines "rb' \<equiv> rb\<lparr>rb_writer := (rb_writer rb + length xs) mod buffer_len rb\<rparr>"
  shows "rb_wf rb' \<and> rb_contents rb' = rb_contents rb @ xs \<and> rb_count rb' = rb_count rb + length xs"
proof -
  let ?N = "buffer_len rb" and ?w = "rb_writer rb"
  have w: "?w < ?N" using wf by (simp add: rb_wf_def)
  have "rb_buffer rb ! j = xs ! ring_dist ?N ?w j" if "j < ?N" "ring_dist ?N ?w j < length xs" for j
  proof -
    have "(?w + ring_dist ?N ?w j) mod ?N = j"
      using w that(1) by (auto simp: ring_dist_cases mod_if)
    then show ?thesis using placed [OF that(2)] by simp
  qed
  then have "rb_wf rb' \<and> rb_contents rb' = rb_contents rb @ xs"
    using rb_contents_extend [OF wf, of "rb_buffer rb" xs] fits
    by (simp add: rb'_def rb_free_def buffer_len_def)
  moreover from this have "rb_count rb' = rb_count rb + length xs"
    by (metis length_append length_rb_contents)
  ultimately show ?thesis by simp
qed

lemma placed_update:
  assumes "w < length buf" "length xs < length buf" "k < length xs"
    and "\<forall>i<k. buf ! ((w + i) mod length buf) = xs ! i" "i < Suc k"
  shows "buf[(w + k) mod length buf := xs ! k] ! ((w + i) mod length buf) = xs ! i"
proof (cases "i = k")
  case True
  have "(w + k) mod length buf < length buf" using assms(1) by (intro mod_less_divisor) auto
  with True show ?thesis by simp
next
  case False
  then have "i < k" using assms(5) by simp
  moreover have "(w + i) mod length buf \<noteq> (w + k) mod length buf"
    using ring_dist_forward [OF assms(1), of i] ring_dist_forward [OF assms(1), of k]
      \<open>i < k\<close> assms(2,3) by (metis less_trans nat_neq_iff)
  ultimately show ?thesis using assms(4) by simp
qed

lemma prod_step_inv:
  assumes "prod_step s t" "spsc_inv s"
  shows "spsc_inv t"
  using assms(1)
proof (cases rule: prod_step.cases)
  case (load_reader data)
  then show ?thesis
    using assms(2) by (auto simp: spsc_inv_def prod_inv_def cons_inv_def rb_wf_def rb_count_def
        split: consumer.splits)
next
  case (load_writer data r w)
  have wf: "r < buffer_len (sp_ring s)" "w < buffer_len (sp_ring s)"
    using assms(2) load_writer by (auto simp: spsc_inv_def prod_inv_def rb_wf_def)
  have "rb_count (sp_ring s) \<le> ring_dist (buffer_len (sp_ring s)) r w"
    "ring_dist (buffer_len (sp_ring s)) r w < buffer_len (sp_ring s)"
    using assms(2) load_writer wf ring_dist_less by (auto simp: spsc_inv_def prod_inv_def)
  then show ?thesis
    using assms(2) load_writer write_chunk_fits [OF wf, of data]
    by (auto simp: spsc_inv_def prod_inv_def cons_inv_def split: consumer.splits)
next
  case (copy_in xs w k)
  let ?rb = "sp_ring s" and ?N = "buffer_len (sp_ring s)"
  have inv: "rb_wf ?rb" "w = rb_writer ?rb" "rb_count ?rb + length xs < ?N"
    "\<forall>i<k. rb_buffer ?rb ! ((w + i) mod ?N) = xs ! i"
    using assms(2) copy_in by (auto simp: spsc_inv_def prod_inv_def Let_def)
  have "rb_contents (?rb\<lparr>rb_buffer := (rb_buffer ?rb)[(w + k) mod ?N := xs ! k]\<rparr>) = rb_contents ?rb"
    using rb_contents_store_outside [of ?rb k "xs ! k"] inv copy_in(3) by simp
  moreover have "(rb_buffer ?rb)[(w + k) mod ?N := xs ! k] ! ((w + i) mod ?N) = xs ! i" if "i < Suc k" for i
    using placed_update [of w "rb_buffer ?rb" xs k i] inv copy_in(3) that
    by (auto simp: rb_wf_def buffer_len_def)
  ultimately show ?thesis
    using assms(2) copy_in inv
    by (auto simp: spsc_inv_def prod_inv_def cons_inv_def Let_def rb_wf_def buffer_len_def
        split: consumer.splits)
next
  case (store_writer xs w k)
  let ?rb = "sp_ring s"
  have inv: "rb_wf ?rb" "w = rb_writer ?rb" "rb_count ?rb + length xs < buffer_len ?rb"
    "\<And>i. i < length xs \<Longrightarrow> rb_buffer ?rb ! ((w + i) mod buffer_len ?rb) = xs ! i"
    using assms(2) store_writer by (auto simp: spsc_inv_def prod_inv_def Let_def)
  note pub = rb_contents_publish [OF inv(1) inv(3), unfolded inv(2)[symmetric], OF inv(4)]
  show ?thesis
    using assms(2) store_writer pub inv
    by (auto simp: spsc_inv_def prod_inv_def cons_inv_def split: consumer.splits)
qed


lemma cons_step_inv:
  assumes "cons_step s t" "spsc_inv s"
  shows "spsc_inv t"
  using assms(1)
proof (cases rule: cons_step.cases)
  case (load_reader want)
  then show ?thesis
    using assms(2) by (auto simp: spsc_inv_def prod_inv_def cons_inv_def split: producer.splits)
next
  case (load_writer want r w)
  have "readable (buffer_len (sp_ring s)) r w = rb_count (sp_ring s)"
    using assms(2) load_writer
    by (auto simp: spsc_inv_def cons_inv_def rb_wf_def rb_count_def readable_dist)
  then show ?thesis
    using assms(2) load_writer
    by (auto simp: spsc_inv_def prod_inv_def cons_inv_def split: producer.splits)
next
  case (copy_out r n acc)
  let ?rb = "sp_ring s"
  have inv: "r = rb_reader ?rb" "n \<le> rb_count ?rb" "acc = take (length acc) (rb_contents ?rb)"
    using assms(2) copy_out by (auto simp: spsc_inv_def cons_inv_def)
  then have "take (Suc (length acc)) (rb_contents ?rb) =
      acc @ [rb_buffer ?rb ! ((r + length acc) mod buffer_len ?rb)]"
    using copy_out(3) by (simp add: take_Suc_conv_app_nth rb_contents_def)
  then show ?thesis
    using assms(2) copy_out inv
    by (auto simp: spsc_inv_def prod_inv_def cons_inv_def split: producer.splits)
next
  case (store_reader r n acc)
  let ?rb = "sp_ring s"
  have inv: "rb_wf ?rb" "r = rb_reader ?rb" "n \<le> rb_count ?rb" "acc = take n (rb_contents ?rb)"
    using assms(2) store_reader by (auto simp: spsc_inv_def cons_inv_def)
  have "sp_sent s = (sp_received s @ acc) @ drop n (rb_contents ?rb)"
    using assms(2) inv(4) by (simp add: spsc_inv_def)
  then show ?thesis
    using assms(2) store_reader inv rb_contents_advance [OF inv(1,3)]
    by (auto simp: spsc_inv_def prod_inv_def cons_inv_def Let_def split: producer.splits)
qed

inductive spsc_reachable :: "'a list \<Rightarrow> 'a spsc \<Rightarrow> bool" for buf where
  start: "spsc_reachable buf (spsc_init buf)"
| step: "spsc_reachable buf s \<Longrightarrow> spsc_step s t \<Longrightarrow> spsc_reachable buf t"

lemma spsc_reachable_inv: "spsc_reachable buf s \<Longrightarrow> buf \<noteq> [] \<Longrightarrow> spsc_inv s"
  by (induction rule: spsc_reachable.induct)
    (auto simp: spsc_step_def spsc_init_inv intro: prod_step_inv cons_step_inv)

text \<open>Wait-freedom: whatever the other side does, a started operation can always take its next step.\<close>

lemma prod_step_enabled: "sp_prod s \<noteq> PIdle \<Longrightarrow> prod_inv s \<Longrightarrow> \<exists>t. prod_step s t"
  by (cases "sp_prod s")
    (auto simp: prod_inv_def Let_def intro: prod_step.intros dest!: le_imp_less_or_eq)

subsection \<open>Undisturbed calls\<close>

lemma prod_copy_all:
  assumes "sp_prod s = PCopying xs w 0" "k \<le> length xs"
  shows "prod_step\<^sup>*\<^sup>* s (s\<lparr>sp_prod := PCopying xs w k,
    sp_ring := (sp_ring s)\<lparr>rb_buffer := put_first w xs k (rb_buffer (sp_ring s))\<rparr>\<rparr>)"
  using assms(2)
proof (induction k)
  case 0
  have "s\<lparr>sp_prod := PCopying xs w 0, sp_ring := (sp_ring s)\<lparr>rb_buffer := rb_buffer (sp_ring s)\<rparr>\<rparr> = s"
    using assms(1) by (cases s) simp
  then show ?case by simp
next
  case (Suc k)
  let ?t = "s\<lparr>sp_prod := PCopying xs w k,
    sp_ring := (sp_ring s)\<lparr>rb_buffer := put_first w xs k (rb_buffer (sp_ring s))\<rparr>\<rparr>"
  have "prod_step ?t (s\<lparr>sp_prod := PCopying xs w (Suc k),
      sp_ring := (sp_ring s)\<lparr>rb_buffer := put_first w xs (Suc k) (rb_buffer (sp_ring s))\<rparr>\<rparr>)"
    using prod_step.copy_in [of ?t xs w k] Suc.prems by (simp add: buffer_len_def)
  with Suc show ?case by (meson Suc_leD rtranclp.rtrancl_into_rtrancl)
qed

lemma prod_solo_is_write:
  assumes "rb_wf (sp_ring s)" "sp_prod s = PIdle"
  shows "\<exists>n rb'. rb_write data (sp_ring s) = Ok (n, rb') \<and>
    prod_step\<^sup>*\<^sup>* s (s\<lparr>sp_sent := sp_sent s @ take n data, sp_ring := rb'\<rparr>)"
proof -
  let ?rb = "sp_ring s"
  define xs where "xs = take (rb_free ?rb) data"
  have wf: "rb_reader ?rb < buffer_len ?rb" "rb_writer ?rb < buffer_len ?rb"
    using assms(1) by (auto simp: rb_wf_def)
  let ?s1 = "s\<lparr>sp_prod := PLoadedReader data (rb_reader ?rb)\<rparr>"
  let ?s2 = "s\<lparr>sp_prod := PCopying xs (rb_writer ?rb) 0\<rparr>"
  let ?s3 = "s\<lparr>sp_prod := PCopying xs (rb_writer ?rb) (length xs),
    sp_ring := ?rb\<lparr>rb_buffer := put_first (rb_writer ?rb) xs (length xs) (rb_buffer ?rb)\<rparr>\<rparr>"
  have "prod_step s ?s1" using assms(2) by (rule prod_step.load_reader)
  moreover have "prod_step ?s1 ?s2"
    using prod_step.load_writer [of ?s1 data "rb_reader ?rb" "rb_writer ?rb"]
      write_chunk_fits [OF wf, of data] by (simp add: xs_def rb_free_def rb_count_def)
  moreover have "prod_step\<^sup>*\<^sup>* ?s2 ?s3"
    using prod_copy_all [of ?s2 xs "rb_writer ?rb" "length xs"] by simp
  moreover have "prod_step ?s3 (s\<lparr>sp_sent := sp_sent s @ xs,
      sp_ring := ?rb\<lparr>rb_writer := (rb_writer ?rb + length xs) mod buffer_len ?rb,
        rb_buffer := put_first (rb_writer ?rb) xs (length xs) (rb_buffer ?rb)\<rparr>\<rparr>)"
    using prod_step.store_writer [of ?s3 xs "rb_writer ?rb" "length xs"] assms(2)
    by (cases s, cases "sp_ring s") (simp add: buffer_len_def)
  ultimately have "prod_step\<^sup>*\<^sup>* s (s\<lparr>sp_sent := sp_sent s @ xs,
      sp_ring := ?rb\<lparr>rb_writer := (rb_writer ?rb + length xs) mod buffer_len ?rb,
        rb_buffer := put_first (rb_writer ?rb) xs (length xs) (rb_buffer ?rb)\<rparr>\<rparr>)"
    by (meson converse_rtranclp_into_rtranclp rtranclp.rtrancl_into_rtrancl)
  moreover have "take (length xs) data = xs"
    by (simp add: xs_def min.commute)
  ultimately show ?thesis
    using rb_write_elementwise [OF assms(1), of data] by (simp add: xs_def)
qed

lemma cons_copy_all:
  assumes "sp_cons s = CCopying r n []" "k \<le> n"
  shows "cons_step\<^sup>*\<^sup>* s (s\<lparr>sp_cons := CCopying r n
    (map (\<lambda>i. rb_buffer (sp_ring s) ! ((r + i) mod buffer_len (sp_ring s))) [0..<k])\<rparr>)"
  using assms(2)
proof (induction k)
  case 0
  have "s\<lparr>sp_cons := CCopying r n []\<rparr> = s" using assms(1) by (cases s) simp
  then show ?case by simp
next
  case (Suc k)
  let ?acc = "\<lambda>k. map (\<lambda>i. rb_buffer (sp_ring s) ! ((r + i) mod buffer_len (sp_ring s))) [0..<k]"
  have "cons_step (s\<lparr>sp_cons := CCopying r n (?acc k)\<rparr>) (s\<lparr>sp_cons := CCopying r n (?acc (Suc k))\<rparr>)"
    using cons_step.copy_out [of "s\<lparr>sp_cons := CCopying r n (?acc k)\<rparr>" r n "?acc k"] Suc.prems by simp
  with Suc show ?case by (meson Suc_leD rtranclp.rtrancl_into_rtrancl)
qed

lemma cons_solo_is_read:
  assumes "rb_wf (sp_ring s)" "sp_cons s = CIdle"
  shows "\<exists>n out rb'. rb_read data (sp_ring s) = Ok (n, out, rb') \<and>
    cons_step\<^sup>*\<^sup>* s (s\<lparr>sp_received := sp_received s @ take n out, sp_ring := rb'\<rparr>)"
proof -
  let ?rb = "sp_ring s"
  let ?n = "min (length data) (rb_count ?rb)"
  define acc where "acc = map (\<lambda>i. rb_buffer ?rb ! ((rb_reader ?rb + i) mod buffer_len ?rb)) [0..<?n]"
  have acc: "acc = take ?n (rb_contents ?rb)"
    by (simp add: acc_def rb_contents_def take_map min.assoc)
  let ?s1 = "s\<lparr>sp_cons := CLoadedReader (length data) (rb_reader ?rb)\<rparr>"
  let ?s2 = "s\<lparr>sp_cons := CCopying (rb_reader ?rb) ?n []\<rparr>"
  let ?s3 = "s\<lparr>sp_cons := CCopying (rb_reader ?rb) ?n acc\<rparr>"
  have "cons_step s ?s1" using assms(2) by (rule cons_step.load_reader)
  moreover have "cons_step ?s1 ?s2"
    using cons_step.load_writer [of ?s1 "length data" "rb_reader ?rb" "rb_writer ?rb"] assms(1)
    by (simp add: readable_dist rb_wf_def rb_count_def)
  moreover have "cons_step\<^sup>*\<^sup>* ?s2 ?s3"
    using cons_copy_all [of ?s2 "rb_reader ?rb" ?n ?n] by (simp add: acc_def)
  moreover have "cons_step ?s3 (s\<lparr>sp_received := sp_received s @ acc,
      sp_ring := ?rb\<lparr>rb_reader := (rb_reader ?rb + ?n) mod buffer_len ?rb\<rparr>\<rparr>)"
    using cons_step.store_reader [of ?s3 "rb_reader ?rb" ?n acc] assms(2)
    by (cases s) (simp add: acc_def)
  ultimately have "cons_step\<^sup>*\<^sup>* s (s\<lparr>sp_received := sp_received s @ acc,
      sp_ring := ?rb\<lparr>rb_reader := (rb_reader ?rb + ?n) mod buffer_len ?rb\<rparr>\<rparr>)"
    by (meson converse_rtranclp_into_rtranclp rtranclp.rtrancl_into_rtrancl)
  moreover have "take ?n (acc @ drop ?n data) = acc"
    by (simp add: acc_def)
  ultimately show ?thesis
    using rb_read_eq [OF assms(1), of data] acc by auto
qed

text \<open>A run of both sides, used to show that the hypotheses above can hold.\<close>

definition spsc_example :: "nat spsc" where
  "spsc_example = \<lparr>sp_ring = \<lparr>rb_reader = 0, rb_writer = 1, rb_buffer = [7, 0, 0]\<rparr>,
     sp_prod = PCopying [8] 1 0, sp_cons = CCopying 0 1 [], sp_sent = [7], sp_received = []\<rparr>"

lemma spsc_example_reachable: "spsc_reachable [0, 0, 0] spsc_example"
proof -
  let ?rb0 = "\<lparr>rb_reader = 0, rb_writer = 0, rb_buffer = [0, 0, 0 :: nat]\<rparr>"
  let ?rb1 = "\<lparr>rb_reader = 0, rb_writer = 1, rb_buffer = [7, 0, 0 :: nat]\<rparr>"
  let ?s0 = "\<lparr>sp_ring = ?rb0, sp_prod = PIdle, sp_cons = CIdle, sp_sent = [], sp_received = []\<rparr>"
  let ?s1 = "\<lparr>sp_ring = ?rb1, sp_prod = PIdle, sp_cons = CIdle, sp_sent = [7], sp_received = []\<rparr>"
  let ?s2 = "\<lparr>sp_ring = ?rb1, sp_prod = PLoadedReader [8] 0, sp_cons = CIdle, sp_sent = [7], sp_received = []\<rparr>"
  let ?s3 = "\<lparr>sp_ring = ?rb1, sp_prod = PCopying [8] 1 0, sp_cons = CIdle, sp_sent = [7], sp_received = []\<rparr>"
  let ?s4 = "\<lparr>sp_ring = ?rb1, sp_prod = PCopying [8] 1 0, sp_cons = CLoadedReader 1 0, sp_sent = [7], sp_received = []\<rparr>"
  have reach: "spsc_reachable buf t" if "spsc_reachable buf s" "spsc_step\<^sup>*\<^sup>* s t" for buf and s t :: "nat spsc"
    using that(2,1) by (induction rule: rtranclp_induct) (auto intro: spsc_reachable.step)
  have mono: "spsc_step\<^sup>*\<^sup>* s t" if "prod_step\<^sup>*\<^sup>* s t" for s t :: "nat spsc"
    using that by (rule rtranclp_mono [THEN predicate2D, rotated]) (auto simp: spsc_step_def)
  have "spsc_reachable [0, 0, 0] ?s0"
    using spsc_reachable.start [of "[0, 0, 0 :: nat]"] by (simp add: spsc_init_def new_with_buffer_def)
  moreover have "prod_step\<^sup>*\<^sup>* ?s0 ?s1"
  proof -
    have "rb_write [7] ?rb0 = Ok (1, ?rb1)" by code_simp
    then show ?thesis using prod_solo_is_write [of ?s0 "[7]"] by (simp add: rb_wf_def buffer_len_def)
  qed
  ultimately have s1: "spsc_reachable [0, 0, 0] ?s1" by (blast intro: reach mono)
  have "prod_step ?s1 ?s2" using prod_step.load_reader [of ?s1 "[8]"] by simp
  moreover have "prod_step ?s2 ?s3" using prod_step.load_writer [of ?s2 "[8]" 0 1]
    by (simp add: write_chunk_def writer_slices_def buffer_len_def)
  moreover have "cons_step ?s3 ?s4" using cons_step.load_reader [of ?s3 1] by simp
  moreover have "cons_step ?s4 spsc_example" using cons_step.load_writer [of ?s4 1 0 1]
    by (simp add: readable_def reader_slices_def buffer_len_def spsc_example_def)
  ultimately show ?thesis
    using s1 unfolding spsc_step_def by (blast intro: spsc_reachable.step [unfolded spsc_step_def])
qed

subsection \<open>Properties\<close>

text \<open>C4: in every state reachable by interleaving one writer and one reader, the elements the writer
  published are exactly the elements the reader took, in order, followed by the elements still in the
  ring; no element is lost, duplicated, reordered or torn, and the ring is never completely full.\<close>

theorem spsc_fifo:
  assumes "spsc_reachable buf s" "buf \<noteq> []"
  shows "sp_sent s = sp_received s @ rb_contents (sp_ring s)
    \<and> length (rb_contents (sp_ring s)) < buffer_len (sp_ring s)"
  using spsc_reachable_inv [OF assms] rb_count_less by (auto simp: spsc_inv_def)

theorem spsc_fifo_witness:
  "sp_sent spsc_example = sp_received spsc_example @ rb_contents (sp_ring spsc_example)
    \<and> length (rb_contents (sp_ring spsc_example)) < buffer_len (sp_ring spsc_example)"
  by (rule spsc_fifo [OF spsc_example_reachable]) simp

text \<open>C5: the slot the writer is about to store to is never the slot the reader is about to load:
  the plain (non-atomic) copies of the two sides never touch the same element at the same time.\<close>

theorem spsc_no_data_race:
  assumes "spsc_reachable buf s" "buf \<noteq> []"
    and "sp_prod s = PCopying xs w k" "k < length xs"
    and "sp_cons s = CCopying r n acc" "length acc < n"
  shows "(w + k) mod buffer_len (sp_ring s) \<noteq> (r + length acc) mod buffer_len (sp_ring s)"
proof
  let ?rb = "sp_ring s" and ?N = "buffer_len (sp_ring s)"
  assume eq: "(w + k) mod ?N = (r + length acc) mod ?N"
  have inv: "rb_wf ?rb" "w = rb_writer ?rb" "r = rb_reader ?rb" "n \<le> rb_count ?rb"
    "rb_count ?rb + length xs < ?N"
    using spsc_reachable_inv [OF assms(1,2)] assms(3,5)
    by (auto simp: spsc_inv_def prod_inv_def cons_inv_def)
  have wf: "r < ?N" "w < ?N" using inv by (auto simp: rb_wf_def)
  have "ring_dist ?N r ((w + k) mod ?N) = rb_count ?rb + k"
    using ring_dist_add [OF wf, of k] inv assms(4) by (simp add: rb_count_def)
  moreover have "ring_dist ?N r ((r + length acc) mod ?N) = length acc"
    using ring_dist_forward [OF wf(1), of "length acc"] assms(6) inv(4,5) by simp
  ultimately show False using eq assms(6) inv(4) by simp
qed

theorem spsc_no_data_race_witness:
  "((1::nat) + 0) mod buffer_len (sp_ring spsc_example)
     \<noteq> (0 + length ([] :: nat list)) mod buffer_len (sp_ring spsc_example)"
  by (rule spsc_no_data_race [OF spsc_example_reachable, where xs = "[8]" and n = 1])
    (simp_all add: spsc_example_def)

text \<open>A call that runs without interference is the sequential operation: the writer's steps from
  idle to idle compute \<open>rb_write\<close>, the reader's steps compute \<open>rb_read\<close>, and what they publish and
  receive is what those operations report.\<close>

theorem spsc_refines_sequential:
  assumes "rb_wf (sp_ring s)" "sp_prod s = PIdle" "sp_cons s = CIdle"
  shows "(\<exists>n rb'. rb_write data (sp_ring s) = Ok (n, rb') \<and>
      prod_step\<^sup>*\<^sup>* s (s\<lparr>sp_sent := sp_sent s @ take n data, sp_ring := rb'\<rparr>))
    \<and> (\<exists>n out rb'. rb_read data (sp_ring s) = Ok (n, out, rb') \<and>
      cons_step\<^sup>*\<^sup>* s (s\<lparr>sp_received := sp_received s @ take n out, sp_ring := rb'\<rparr>))"
  using prod_solo_is_write [OF assms(1,2)] cons_solo_is_read [OF assms(1,3)] by blast

theorem spsc_refines_sequential_witness:
  "\<exists>n rb'. rb_write [3, 4] (sp_ring (spsc_init [0, 0 :: nat])) = Ok (n, rb') \<and>
      prod_step\<^sup>*\<^sup>* (spsc_init [0, 0])
        (spsc_init [0, 0]\<lparr>sp_sent := sp_sent (spsc_init [0, 0]) @ take n [3, 4], sp_ring := rb'\<rparr>)"
  using spsc_refines_sequential [of "spsc_init [0, 0 :: nat]" "[3, 4]"]
  by (simp add: spsc_init_def new_with_buffer_def rb_wf_def buffer_len_def)

end
