(* ===== verification/CriticalMutex.thy ===== *)
theory CriticalMutex
  imports Prelude
begin

text \<open>
  \<^verbatim>\<open>CriticalMutex\<close> (\<^verbatim>\<open>src/sync/mutex.rs\<close>): a value behind one of the spinlocks of FreeRTOS on two cores. The
  calls that enter and leave a critical section are parameters.
\<close>

text \<open>
  \<open>cs_enter core\<close> is \<^const>\<open>None\<close> while the call spins. As ESP-IDF documents, entering disables the interrupts of
  the core, and a core that is in the critical section of a spinlock may enter it again: \<open>holder\<close> is the
  core that is in and how often it entered.
\<close>

record 'l spinlock_ops =
  cs_default :: 'l
  cs_enter :: "nat \<Rightarrow> 'l \<Rightarrow> 'l option"
  cs_exit :: "nat \<Rightarrow> 'l \<Rightarrow> 'l"

definition spinlock_laws :: "'l spinlock_ops \<Rightarrow> ('l \<Rightarrow> (nat \<times> nat) option) \<Rightarrow> bool" where
  "spinlock_laws S holder \<longleftrightarrow>
     holder (cs_default S) = None \<and>
     (\<forall>core l. case holder l of
        None \<Rightarrow> (\<exists>l'. cs_enter S core l = Some l' \<and> holder l' = Some (core, 1))
      | Some (c, n) \<Rightarrow> if c = core then (\<exists>l'. cs_enter S core l = Some l' \<and> holder l' = Some (core, Suc n))
          else cs_enter S core l = None) \<and>
     (\<forall>core n l. holder l = Some (core, n) \<longrightarrow>
        holder (cs_exit S core l) = (if n \<le> 1 then None else Some (core, n - 1)))"

lemma spinlock_enter:
  assumes "spinlock_laws S holder"
  shows "case holder l of
      None \<Rightarrow> (\<exists>l'. cs_enter S core l = Some l' \<and> holder l' = Some (core, 1))
    | Some (c, n) \<Rightarrow> if c = core then (\<exists>l'. cs_enter S core l = Some l' \<and> holder l' = Some (core, Suc n))
        else cs_enter S core l = None"
  using assms unfolding spinlock_laws_def by blast

record ('l, 'a) critical_mutex =
  cm_spinlock :: 'l
  cm_inner :: 'a

definition critical_new :: "'l spinlock_ops \<Rightarrow> 'a \<Rightarrow> ('l, 'a) critical_mutex" where
  "critical_new S value = \<lparr>cm_spinlock = cs_default S, cm_inner = value\<rparr>"

definition critical_lock ::
    "'l spinlock_ops \<Rightarrow> nat \<Rightarrow> ('l, 'a) critical_mutex \<Rightarrow> ('l, 'a) critical_mutex option" where
  "critical_lock S core mutex = map_option (\<lambda>l. mutex\<lparr>cm_spinlock := l\<rparr>) (cs_enter S core (cm_spinlock mutex))"

definition critical_deref :: "('l, 'a) critical_mutex \<Rightarrow> 'a" where
  "critical_deref mutex = cm_inner mutex"

definition critical_deref_mut :: "'a \<Rightarrow> ('l, 'a) critical_mutex \<Rightarrow> ('l, 'a) critical_mutex" where
  "critical_deref_mut value mutex = mutex\<lparr>cm_inner := value\<rparr>"

definition critical_guard_drop :: "'l spinlock_ops \<Rightarrow> nat \<Rightarrow> ('l, 'a) critical_mutex \<Rightarrow> ('l, 'a) critical_mutex" where
  "critical_guard_drop S core mutex = mutex\<lparr>cm_spinlock := cs_exit S core (cm_spinlock mutex)\<rparr>"

text \<open>Runs of two cores: the guards that exist, by the core that made them.\<close>

inductive critical_run ::
    "'l spinlock_ops \<Rightarrow> ('l, 'a) critical_mutex \<Rightarrow> nat list \<Rightarrow> bool" for S where
  cr_new: "critical_run S (critical_new S v) []"
| cr_lock: "critical_run S mutex guards \<Longrightarrow> critical_lock S core mutex = Some mutex' \<Longrightarrow>
    critical_run S mutex' (core # guards)"
| cr_write: "critical_run S mutex guards \<Longrightarrow> guards \<noteq> [] \<Longrightarrow> critical_run S (critical_deref_mut v mutex) guards"
| cr_drop: "critical_run S mutex guards \<Longrightarrow> core \<in> set guards \<Longrightarrow>
    critical_run S (critical_guard_drop S core mutex) (remove1 core guards)"

lemma critical_run_holder:
  assumes "spinlock_laws S holder" "critical_run S mutex guards"
  shows "holder (cm_spinlock mutex) = (if guards = [] then None else Some (hd guards, length guards))
    \<and> (\<forall>core\<in>set guards. core = hd guards)"
  using assms(2)
proof (induction rule: critical_run.induct)
  case (cr_new v)
  then show ?case using assms(1) by (simp add: critical_new_def spinlock_laws_def)
next
  case (cr_lock mutex guards core mutex')
  obtain l where l: "cs_enter S core (cm_spinlock mutex) = Some l" "cm_spinlock mutex' = l"
    using cr_lock.hyps(2) by (auto simp: critical_lock_def)
  show ?case using l cr_lock.IH spinlock_enter [OF assms(1), where l = "cm_spinlock mutex" and core = core] by (cases guards) (auto split: if_splits)
next
  case (cr_write mutex guards v)
  then show ?case by (simp add: critical_deref_mut_def)
next
  case (cr_drop mutex guards core)
  obtain g gs where g: "guards = g # gs" using cr_drop.hyps(2) by (cases guards) auto
  have same: "core = g" "\<forall>core\<in>set gs. core = g" using cr_drop.IH cr_drop.hyps(2) g by auto
  then have left: "remove1 core guards = gs" using g by simp
  have "holder (cs_exit S g (cm_spinlock mutex)) = (if length guards \<le> 1 then None else Some (g, length guards - 1))"
    using assms(1) cr_drop.IH g unfolding spinlock_laws_def by simp
  then show ?case using same g left by (cases gs) (simp_all add: critical_guard_drop_def)
qed

definition example_spinlock :: "(nat \<times> nat) option spinlock_ops" where
  "example_spinlock = \<lparr>cs_default = None,
     cs_enter = (\<lambda>core l. case l of None \<Rightarrow> Some (Some (core, 1))
       | Some (c, n) \<Rightarrow> if c = core then Some (Some (core, Suc n)) else None),
     cs_exit = (\<lambda>core l. case l of None \<Rightarrow> None | Some (c, n) \<Rightarrow> if n \<le> 1 then None else Some (c, n - 1))\<rparr>"

lemma example_spinlock_laws: "spinlock_laws example_spinlock (\<lambda>l. l)"
  by (auto simp: spinlock_laws_def example_spinlock_def split: option.splits)

subsection \<open>Properties\<close>

text \<open>Guards of a critical mutex never exist on two cores at the same time, and the section is left with the
  last guard; but on one core a second lock succeeds while the first guard is still there, so two mutable
  borrows of the value exist at once.\<close>

theorem critical_mutex_excludes_cores:
  assumes "spinlock_laws S holder" "critical_run S mutex guards"
  shows "(\<forall>core\<in>set guards. \<forall>core'\<in>set guards. core = core')
    \<and> (\<forall>core\<in>set guards. \<exists>mutex'. critical_lock S core mutex = Some mutex' \<and> critical_run S mutex' (core # guards))
    \<and> (holder (cm_spinlock mutex) = None \<longleftrightarrow> guards = [])"
proof -
  note h = critical_run_holder [OF assms]
  have same: "core = hd guards" if "core \<in> set guards" for core using h that by blast
  have "\<exists>mutex'. critical_lock S core mutex = Some mutex' \<and> critical_run S mutex' (core # guards)"
    if core: "core \<in> set guards" for core
  proof -
    have "holder (cm_spinlock mutex) = Some (core, length guards)" using h same [OF core] core by auto
    then obtain l' where "cs_enter S core (cm_spinlock mutex) = Some l'"
      using spinlock_enter [OF assms(1), where l = "cm_spinlock mutex" and core = core] by auto
    then have "critical_lock S core mutex = Some (mutex\<lparr>cm_spinlock := l'\<rparr>)" by (simp add: critical_lock_def)
    with cr_lock [OF assms(2) this] show ?thesis by blast
  qed
  moreover have "\<forall>core\<in>set guards. \<forall>core'\<in>set guards. core = core'" using same by metis
  ultimately show ?thesis using h by simp
qed

theorem critical_mutex_excludes_cores_witness:
  "\<exists>(mutex :: ((nat \<times> nat) option, nat) critical_mutex) (mutex' :: ((nat \<times> nat) option, nat) critical_mutex).
     critical_run example_spinlock mutex [1] \<and> critical_run example_spinlock mutex' [1, 1]"
proof -
  have "critical_lock example_spinlock 1 (critical_new example_spinlock (7 :: nat)) =
      Some \<lparr>cm_spinlock = Some (1, 1), cm_inner = 7\<rparr>"
    by (simp add: critical_lock_def critical_new_def example_spinlock_def)
  from cr_lock [OF cr_new this]
  have run: "critical_run example_spinlock \<lparr>cm_spinlock = Some (1, 1), cm_inner = (7 :: nat)\<rparr> [1]" .
  obtain mutex' :: "((nat \<times> nat) option, nat) critical_mutex" where "critical_run example_spinlock mutex' [1, 1 :: nat]"
    using critical_mutex_excludes_cores [OF example_spinlock_laws run, THEN conjunct2, THEN conjunct1, THEN bspec, of 1]
    by auto
  then show ?thesis using run by blast
qed

end
