(* ===== verification/TaskIds.thy ===== *)
theory TaskIds
  imports Waker
begin

text \<open>
  Task ids as a type (\<^verbatim>\<open>src/system/task/registry.rs\<close>, \<^verbatim>\<open>src/system/task/waker.rs\<close>): the constructor accepts
  one number too many, but every id and waker that the code hands out is in range, so the operations on
  them never panic.
\<close>

inductive id_out :: "task_id \<Rightarrow> bool" and waker_out :: "raw_waker \<Rightarrow> bool" where
  out_iter: "tid \<in> set task_id_iter \<Longrightarrow> id_out tid"
| out_registration: "new_for_current_task task slots = Ok (tid, slots') \<Longrightarrow> id_out tid"
| out_current: "task_id_current task slots = Ok tid \<Longrightarrow> id_out tid"
| out_opaque: "id_out tid \<Longrightarrow> from_opaque_ptr (as_opaque_ptr tid) = Ok tid' \<Longrightarrow> id_out tid'"
| out_waker: "waker_out waker \<Longrightarrow> waker_task_id waker = Ok (Some tid) \<Longrightarrow> id_out tid"
| out_context: "waker_out waker \<Longrightarrow> task_waker_from_context waker task slots = Ok tid \<Longrightarrow> id_out tid"
| waker_new: "id_out tid \<Longrightarrow> waker_out (raw_waker_new tid)"
| waker_clone: "waker_out waker \<Longrightarrow> same_vtable waker \<Longrightarrow> waker_out (raw_waker_clone (waker_data waker))"
| waker_foreign: "\<not> same_vtable waker \<Longrightarrow> waker_out waker"

lemma claim_scan_id: "claim_scan ids task slots = Ok (tid, slots') \<Longrightarrow> tid \<in> set ids"
proof (induction ids arbitrary: slots)
  case (Cons i ids)
  then show ?case by (cases "slot slots i") (auto simp: try_claim_def split: if_splits)
qed simp

lemma find_scan_id: "find_scan ids task slots = Ok tid \<Longrightarrow> tid \<in> set ids"
  by (induction ids task slots rule: find_scan.induct) (auto simp: return_ok split: if_splits)

lemma iter_ids: "tid \<in> set task_id_iter \<longleftrightarrow> (\<exists>n<32. tid = nth_id n)"
  by (auto simp: task_id_iter_upt)

lemma task_id_new_in_range: "n < 32 \<Longrightarrow> task_id_new n = Ok (nth_id n)"
  by (simp add: task_id_new_def MAX_TASKS_def nth_id_def)

lemma current_id: "task_id_current task slots = Ok tid \<Longrightarrow> \<exists>n<32. tid = nth_id n"
  using find_scan_id iter_ids unfolding task_id_current_def by blast

text \<open>The only number that the constructor accepts and no slot has.\<close>

lemma task_id_new_accepts_too_much:
  assumes "length slots = 32"
  shows "\<exists>tid. task_id_new 32 = Ok tid \<and> slot slots tid = Panic IndexOutOfBounds \<and> as_bit Dev tid = Panic ArithmeticOverflow"
  using assms by (simp add: task_id_new_def MAX_TASKS_def slot_def)

lemma out_in_range:
  "id_out tid \<Longrightarrow> \<exists>n<32. tid = nth_id n"
  "waker_out waker \<Longrightarrow> same_vtable waker \<longrightarrow> waker_data waker < 32"
proof (induction rule: id_out_waker_out.inducts)
  case (out_iter tid)
  then show ?case by (simp add: iter_ids)
next
  case (out_registration task slots tid slots')
  then have "tid \<in> set task_id_iter" using claim_scan_id unfolding new_for_current_task_def by blast
  then show ?case by (simp add: iter_ids)
next
  case (out_current task slots tid)
  then show ?case by (rule current_id)
next
  case (out_opaque tid tid')
  then show ?case using opaque_roundtrip by auto
next
  case (out_waker waker tid)
  then show ?case using task_id_new_in_range
    by (auto simp: waker_task_id_def from_opaque_ptr_def return_ok split: if_splits)
next
  case (out_context waker task slots tid)
  then show ?case using task_id_new_in_range current_id
    by (cases "same_vtable waker") (auto simp: task_waker_from_context_def waker_task_id_def from_opaque_ptr_def)
next
  case (waker_new tid)
  then show ?case by (auto simp: raw_waker_new_def as_opaque_ptr_def)
next
  case (waker_clone waker)
  then show ?case by (simp add: raw_waker_clone_def)
qed simp

lemma current_registered:
  assumes "length slots = 32" "i < 32" "slots ! i = Some task"
  shows "\<exists>n<32. task_id_current task slots = Ok (nth_id n) \<and> slots ! n = Some task"
proof -
  have "\<exists>j<32. slots ! j = Some task" using assms(2,3) by blast
  then obtain n where "n < 32" "slots ! n = Some task" "\<And>j. j < n \<Longrightarrow> slots ! j \<noteq> Some task"
    by (rule first_index) blast
  then show ?thesis using find_scan_first [OF assms(1), of 0 n task]
    by (auto simp: task_id_current_def task_id_iter_upt)
qed

lemma raw_waker_wake_in_range:
  assumes "length slots = 32" "n < 32"
  shows "raw_waker_wake slots n = Ok (case slots ! n of Some task \<Rightarrow> [task] | None \<Rightarrow> [])"
  using task_id_new_in_range [OF assms(2)] assms by (simp add: raw_waker_wake_def from_opaque_ptr_def slot_load_def)

subsection \<open>Properties\<close>

text \<open>C30: an id that the code hands out, by registering, looking up, iterating, or through the opaque pointer of a
  waker or a copy of one, names a slot, is one bit, survives the way through a pointer, and ends its
  registration without a panic; waking through a waker that was handed out, or a copy, notifies the task in its slot,
  if there is one, without a panic; and a registered task can register with any waker set through any waker.\<close>

theorem task_ids_in_range:
  assumes "id_out tid" "length slots = MAX_TASKS"
  shows "\<exists>i<MAX_TASKS. slot slots tid = Ok i \<and> as_bit p tid = Ok (push_bit i 1)
    \<and> from_opaque_ptr (as_opaque_ptr tid) = Ok tid \<and> registration_drop tid slots = Ok (slots[i := None])
    \<and> raw_waker_wake slots (waker_data (raw_waker_new tid)) = Ok (case slots ! i of Some task \<Rightarrow> [task] | None \<Rightarrow> [])
    \<and> (\<forall>waker. waker_out waker \<and> same_vtable waker \<longrightarrow>
        (\<exists>j<MAX_TASKS. raw_waker_wake slots (waker_data waker) = Ok (case slots ! j of Some task \<Rightarrow> [task] | None \<Rightarrow> [])))
    \<and> (\<forall>waker task bits. waker_out waker \<and> slots ! i = Some task \<longrightarrow>
        (\<exists>j<MAX_TASKS. add_task p waker task slots bits = Ok (bits_add j bits)))"
proof -
  have len: "length slots = 32" using assms(2) by (simp add: MAX_TASKS_def)
  obtain i where i: "i < 32" "tid = nth_id i" using out_in_range(1) [OF assms(1)] by blast
  have "\<exists>j<32. add_task p waker task slots bits = Ok (bits_add j bits)"
    if w: "waker_out waker" "slots ! i = Some task" for waker task bits
  proof (cases "same_vtable waker")
    case True
    then have "waker_data waker < 32" using out_in_range(2) [OF w(1)] by simp
    then show ?thesis using True task_id_new_in_range
      by (auto simp: add_task_def task_waker_from_context_def waker_task_id_def from_opaque_ptr_def bits_add_def)
  next
    case False
    obtain n where "n < 32" "task_id_current task slots = Ok (nth_id n)"
      using current_registered [OF len i(1) w(2)] by blast
    then show ?thesis using False
      by (auto simp: add_task_def task_waker_from_context_def waker_task_id_def bits_add_def)
  qed
  moreover have "\<exists>j<32. raw_waker_wake slots (waker_data waker) = Ok (case slots ! j of Some task \<Rightarrow> [task] | None \<Rightarrow> [])"
    if "waker_out waker" "same_vtable waker" for waker
    using raw_waker_wake_in_range [OF len] out_in_range(2) [OF that(1)] that(2) by blast
  moreover have "raw_waker_wake slots (waker_data (raw_waker_new tid)) = Ok (case slots ! i of Some task \<Rightarrow> [task] | None \<Rightarrow> [])"
    using raw_waker_wake_in_range [OF len i(1)] i
    by (simp add: raw_waker_new_def as_opaque_ptr_def nth_id_def unat_of_nat)
  ultimately show ?thesis using i len opaque_roundtrip [OF i(1)]
    by (auto simp: MAX_TASKS_def registration_drop_def slot_clear_def)
qed

theorem task_ids_in_range_witness:
  "\<exists>i<MAX_TASKS. slot (empty_slots[31 := Some 300]) (nth_id 31) = Ok i \<and> as_bit Dev (nth_id 31) = Ok (push_bit i 1)
    \<and> raw_waker_wake (empty_slots[31 := Some 300]) (waker_data (raw_waker_new (nth_id 31))) = Ok [300]"
proof -
  let ?slots = "empty_slots[31 := Some 300]"
  have "nth_id 31 \<in> set task_id_iter" unfolding iter_ids by (rule exI [of _ 31]) simp
  then have out: "id_out (nth_id 31)" by (rule out_iter)
  have len: "length ?slots = MAX_TASKS" by (simp add: empty_slots_def)
  then have slot: "slot ?slots (nth_id 31) = Ok 31" by (simp add: MAX_TASKS_def)
  have "?slots ! 31 = Some 300" by (simp add: empty_slots_def MAX_TASKS_def)
  then show ?thesis using task_ids_in_range [OF out len, of Dev] slot by auto
qed

end
