(* ===== verification/EventGroup.thy ===== *)
theory EventGroup
  imports Heap
begin

text \<open>
  Event groups (\<^verbatim>\<open>src/sync/eventgroup.rs\<close>): sets of flags that a thread can wait for. Used between the wifi
  event handlers and the platform task, and between a socket and its receive callback.
\<close>

text \<open>
  The FreeRTOS calls are parameters: \<open>eg_ops\<close> are the ones the code makes, and \<open>eg_laws\<close> what the comments
  of the code and FreeRTOS say of them, stated with \<open>bits\<close>, the flags that are set. Waiting gives
  \<^const>\<open>None\<close> while it blocks; \<open>xe_sync\<close> sets flags first, and clears the ones waited for when they are there.
\<close>

record 'g eg_ops =
  xe_create :: 'g
  xe_set :: "u32 \<Rightarrow> 'g \<Rightarrow> u32 \<times> 'g"
  xe_clear :: "u32 \<Rightarrow> 'g \<Rightarrow> u32 \<times> 'g"
  xe_wait :: "u32 \<Rightarrow> bool \<Rightarrow> bool \<Rightarrow> 'g \<Rightarrow> (u32 \<times> 'g) option"
  xe_sync :: "u32 \<Rightarrow> u32 \<Rightarrow> 'g \<Rightarrow> u32 option \<times> 'g"

definition eg_laws :: "'g eg_ops \<Rightarrow> ('g \<Rightarrow> u32) \<Rightarrow> bool" where
  "eg_laws E bits \<longleftrightarrow>
     bits (xe_create E) = 0 \<and>
     (\<forall>flags g. bits (snd (xe_set E flags g)) = bits g OR flags) \<and>
     (\<forall>flags g. fst (xe_clear E flags g) = bits g \<and> bits (snd (xe_clear E flags g)) = bits g AND NOT flags) \<and>
     (\<forall>flags clear every g. case xe_wait E flags clear every g of
        None \<Rightarrow> \<not> (if every then bits g AND flags = flags else bits g AND flags \<noteq> 0)
      | Some (r, g') \<Rightarrow> (if every then bits g AND flags = flags else bits g AND flags \<noteq> 0)
          \<and> r = bits g \<and> bits g' = (if clear then bits g AND NOT flags else bits g)) \<and>
     (\<forall>flags wait g. xe_sync E flags wait g =
        (if (bits g OR flags) AND wait = wait then (Some (bits g OR flags), snd (xe_sync E flags wait g))
         else (None, snd (xe_sync E flags wait g))) \<and>
        bits (snd (xe_sync E flags wait g)) =
          (if (bits g OR flags) AND wait = wait then (bits g OR flags) AND NOT wait else bits g OR flags))"

text \<open>The operations on a group whose handle is set; each gives the flags handed back and the group.\<close>

definition eg_init_with :: "'g eg_ops \<Rightarrow> u32 \<Rightarrow> 'g" where
  "eg_init_with E value = snd (xe_set E value (xe_create E))"

definition eg_set :: "'g eg_ops \<Rightarrow> u32 \<Rightarrow> 'g \<Rightarrow> u32 \<times> 'g" where
  "eg_set E flags g = xe_set E flags g"

definition eg_clear :: "'g eg_ops \<Rightarrow> u32 \<Rightarrow> 'g \<Rightarrow> u32 \<times> 'g" where
  "eg_clear E flags g = xe_clear E flags g"

definition eg_wait_all :: "'g eg_ops \<Rightarrow> u32 \<Rightarrow> 'g \<Rightarrow> (u32 \<times> 'g) option" where
  "eg_wait_all E flags g = xe_wait E flags False True g"

definition eg_wait_for_any_and_clear :: "'g eg_ops \<Rightarrow> u32 \<Rightarrow> 'g \<Rightarrow> (u32 \<times> 'g) option" where
  "eg_wait_for_any_and_clear E flags g = xe_wait E flags True False g"

definition eg_set_and_then_wait_for :: "'g eg_ops \<Rightarrow> u32 \<Rightarrow> u32 \<Rightarrow> 'g \<Rightarrow> u32 option \<times> 'g" where
  "eg_set_and_then_wait_for E flags wait_for g = xe_sync E flags wait_for g"

text \<open>
  A group in its cell: without a handle until it is initialised, and every operation asks for the handle
  first.
\<close>

record 'g event_group =
  eg_handle :: "'g option"

definition eg_declare :: "'g event_group" where
  "eg_declare = \<lparr>eg_handle = None\<rparr>"

definition eg_init_cell :: "'g eg_ops \<Rightarrow> u32 \<Rightarrow> 'g event_group \<Rightarrow> 'g event_group" where
  "eg_init_cell E value cell = cell\<lparr>eg_handle := Some (eg_init_with E value)\<rparr>"

definition eg_boxed ::
    "'g eg_ops \<Rightarrow> (nat \<Rightarrow> nat) \<Rightarrow> nat \<Rightarrow> u32 \<Rightarrow> 'g event_group memory \<Rightarrow> (malloc_error + nat) \<times> 'g event_group memory" where
  "eg_boxed E malloc sz value m =
     (case box_alloc malloc sz eg_declare m of
        (Inl e, m') \<Rightarrow> (Inl e, m')
      | (Inr ptr, m') \<Rightarrow> (Inr ptr, m'\<lparr>mem_live := (mem_live m')(ptr := map_option (eg_init_cell E value) (mem_live m' ptr))\<rparr>))"

definition eg_with_handle :: "'g event_group \<Rightarrow> ('g \<Rightarrow> 'r \<times> 'g) \<Rightarrow> ('r \<times> 'g event_group) outcome" where
  "eg_with_handle cell operation =
     (case eg_handle cell of
        None \<Rightarrow> Panic (ExplicitPanic ''must call EventGroup::init before using!'')
      | Some g \<Rightarrow> let (r, g') = operation g in Ok (r, cell\<lparr>eg_handle := Some g'\<rparr>))"

text \<open>A boxed group has its value from the start, so its operations do not panic.\<close>

lemma eg_boxed_spec:
  assumes "eg_boxed E malloc sz value m = (Inr ptr, m')"
  shows "box_deref ptr m' = Some \<lparr>eg_handle = Some (eg_init_with E value)\<rparr>"
    and "eg_with_handle \<lparr>eg_handle = Some g\<rparr> operation = Ok (fst (operation g), \<lparr>eg_handle = Some (snd (operation g))\<rparr>)"
  using assms
  by (auto simp: eg_boxed_def box_alloc_def box_deref_def eg_init_cell_def eg_declare_def eg_with_handle_def
      split: sum.splits prod.splits)

lemma eg_declare_panics:
  "eg_with_handle eg_declare operation = Panic (ExplicitPanic ''must call EventGroup::init before using!'')"
  by (simp add: eg_with_handle_def eg_declare_def)

definition eg_contains :: "u32 \<Rightarrow> u32 \<Rightarrow> bool" where
  "eg_contains bits flags \<longleftrightarrow> bits AND flags = flags"

lemma eg_ops_spec:
  assumes "eg_laws E bits"
  shows "bits (eg_init_with E v) = v"
    and "bits (snd (eg_set E flags g)) = bits g OR flags"
    and "fst (eg_clear E flags g) = bits g"
    and "bits (snd (eg_clear E flags g)) = bits g AND NOT flags"
  using assms by (simp_all add: eg_laws_def eg_init_with_def eg_set_def eg_clear_def)

lemma eg_wait_all_spec:
  assumes "eg_laws E bits"
  shows "eg_wait_all E flags g = None \<longleftrightarrow> \<not> eg_contains (bits g) flags"
    and "eg_wait_all E flags g = Some (r, g') \<Longrightarrow> eg_contains (bits g) flags \<and> r = bits g \<and> bits g' = bits g"
proof -
  have "case xe_wait E flags False True g of
      None \<Rightarrow> \<not> (if True then bits g AND flags = flags else bits g AND flags \<noteq> 0)
    | Some (r, g') \<Rightarrow> (if True then bits g AND flags = flags else bits g AND flags \<noteq> 0)
        \<and> r = bits g \<and> bits g' = (if False then bits g AND NOT flags else bits g)"
    using assms unfolding eg_laws_def by blast
  then show "eg_wait_all E flags g = None \<longleftrightarrow> \<not> eg_contains (bits g) flags"
    "eg_wait_all E flags g = Some (r, g') \<Longrightarrow> eg_contains (bits g) flags \<and> r = bits g \<and> bits g' = bits g"
    by (auto simp: eg_wait_all_def eg_contains_def split: option.splits)
qed

lemma eg_wait_any_spec:
  assumes "eg_laws E bits"
  shows "eg_wait_for_any_and_clear E flags g = None \<longleftrightarrow> bits g AND flags = 0"
    and "eg_wait_for_any_and_clear E flags g = Some (r, g') \<Longrightarrow>
      bits g AND flags \<noteq> 0 \<and> r = bits g \<and> bits g' = bits g AND NOT flags"
proof -
  have "case xe_wait E flags True False g of
      None \<Rightarrow> \<not> (if False then bits g AND flags = flags else bits g AND flags \<noteq> 0)
    | Some (r, g') \<Rightarrow> (if False then bits g AND flags = flags else bits g AND flags \<noteq> 0)
        \<and> r = bits g \<and> bits g' = (if True then bits g AND NOT flags else bits g)"
    using assms unfolding eg_laws_def by blast
  then show "eg_wait_for_any_and_clear E flags g = None \<longleftrightarrow> bits g AND flags = 0"
    "eg_wait_for_any_and_clear E flags g = Some (r, g') \<Longrightarrow>
      bits g AND flags \<noteq> 0 \<and> r = bits g \<and> bits g' = bits g AND NOT flags"
    by (auto simp: eg_wait_for_any_and_clear_def split: option.splits)
qed

lemma eg_sync_spec:
  assumes "eg_laws E bits"
  shows "fst (eg_set_and_then_wait_for E flags wait_for g) =
      (if eg_contains (bits g OR flags) wait_for then Some (bits g OR flags) else None)"
    and "bits (snd (eg_set_and_then_wait_for E flags wait_for g)) =
      (if eg_contains (bits g OR flags) wait_for then (bits g OR flags) AND NOT wait_for else bits g OR flags)"
proof -
  have "xe_sync E flags wait_for g =
        (if (bits g OR flags) AND wait_for = wait_for then (Some (bits g OR flags), snd (xe_sync E flags wait_for g))
         else (None, snd (xe_sync E flags wait_for g)))"
    "bits (snd (xe_sync E flags wait_for g)) =
        (if (bits g OR flags) AND wait_for = wait_for then (bits g OR flags) AND NOT wait_for else bits g OR flags)"
    using assms unfolding eg_laws_def by blast+
  then show "fst (eg_set_and_then_wait_for E flags wait_for g) =
      (if eg_contains (bits g OR flags) wait_for then Some (bits g OR flags) else None)"
    "bits (snd (eg_set_and_then_wait_for E flags wait_for g)) =
      (if eg_contains (bits g OR flags) wait_for then (bits g OR flags) AND NOT wait_for else bits g OR flags)"
    by (metis eg_contains_def eg_set_and_then_wait_for_def fst_conv)+
qed

text \<open>The laws hold for a group that is a word.\<close>

definition word_eg :: "u32 eg_ops" where
  "word_eg = \<lparr>xe_create = 0, xe_set = (\<lambda>flags g. (g OR flags, g OR flags)),
     xe_clear = (\<lambda>flags g. (g, g AND NOT flags)),
     xe_wait = (\<lambda>flags clear every g.
       if (if every then g AND flags = flags else g AND flags \<noteq> 0)
       then Some (g, if clear then g AND NOT flags else g) else None),
     xe_sync = (\<lambda>flags wait g.
       if (g OR flags) AND wait = wait then (Some (g OR flags), (g OR flags) AND NOT wait) else (None, g OR flags))\<rparr>"

lemma word_eg_laws: "eg_laws word_eg (\<lambda>g. g)"
  by (simp add: eg_laws_def word_eg_def)

end
