(* ===== verification/UdpCallback.thy ===== *)
theory UdpCallback
  imports EventGroup Net
begin

text \<open>
  The protocol by which \<^verbatim>\<open>src/platform/net/udp.rs\<close> takes a
  receive callback away while the network thread may be running it. The application side
  (\<^verbatim>\<open>on_receive\<close>, \<^verbatim>\<open>safely_free_receive_callback\<close>) and the network side (\<^verbatim>\<open>dispatch\<close>) are the two
  threads of a step relation. lwIP first reads the registered callback and its argument and then calls
  it, which are two steps.
\<close>

subsection \<open>The flags of a callback\<close>

definition CALLBACK_SAFE :: u32 where "CALLBACK_SAFE = push_bit 0 1"
definition CALLBACK_STOP :: u32 where "CALLBACK_STOP = push_bit 1 1"

lemma flag_values: "CALLBACK_SAFE = 1" "CALLBACK_STOP = 2"
  by (simp_all add: CALLBACK_SAFE_def CALLBACK_STOP_def)

lemma contains_safe: "eg_contains b CALLBACK_SAFE \<longleftrightarrow> bit b 0"
  by (simp add: eg_contains_def flag_values and_one_eq bit_0 odd_iff_mod_2_eq_one)

lemma safe_bit:
  assumes "eg_laws E bits"
  shows "\<not> eg_contains (bits (snd (eg_clear E CALLBACK_SAFE g))) CALLBACK_SAFE"
    and "eg_contains (bits (snd (eg_set E CALLBACK_SAFE g))) CALLBACK_SAFE"
    and "eg_contains (bits (snd (eg_set E CALLBACK_STOP g))) CALLBACK_SAFE = eg_contains (bits g) CALLBACK_SAFE"
  unfolding contains_safe
  by (simp_all only: eg_ops_spec [OF assms] bit_and_iff bit_or_iff bit_not_iff flag_values) (simp_all add: bit_0)

subsection \<open>One call of the callback\<close>

text \<open>
  \<^verbatim>\<open>dispatch\<close> as a whole, for a call that nothing interferes with: \<open>try_mut\<close> is \<^verbatim>\<open>PbufMut::try_from_ptr\<close>, which
  refuses a buffer that has other owners, and \<open>func\<close> the closure, over the state it works on. The first
  result says whether the closure was called; otherwise the buffer is freed unread.
\<close>

definition dispatch ::
    "'g eg_ops \<Rightarrow> ('b \<Rightarrow> 'm option) \<Rightarrow> ('m \<Rightarrow> ipv4 \<times> u16 \<Rightarrow> 's \<Rightarrow> 's outcome) \<Rightarrow> 'b \<Rightarrow> u32 \<Rightarrow> u16 \<Rightarrow> 'g \<times> 's \<Rightarrow>
     (bool \<times> 'g \<times> 's) outcome" where
  "dispatch E try_mut func pbuf addr port = (\<lambda>(g, st).
     let (flags, g1) = eg_clear E CALLBACK_SAFE g
     in if eg_contains flags CALLBACK_STOP then Ok (False, snd (eg_set E CALLBACK_SAFE g1), st)
        else case try_mut pbuf of
               None \<Rightarrow> Panic (ExplicitPanic ''pbuf in udp_recv callback has refcount > 1'')
             | Some m \<Rightarrow>
                 bind_outcome (func m (esp_to_rust_ipv4_addr addr, port) st) (\<lambda>st'.
                   Ok (True, snd (eg_set E CALLBACK_SAFE g1), st')))"

text \<open>
  A call that returns leaves the group as it was, with the flag that says so set; it calls the closure exactly
  when the application is not about to free it.
\<close>

lemma dispatch_returns:
  assumes "eg_laws E bits" "dispatch E try_mut func pbuf addr port (g, st) = Ok (called, g', st')"
  shows "bits g' = bits g OR CALLBACK_SAFE"
    and "called \<longleftrightarrow> \<not> eg_contains (bits g) CALLBACK_STOP"
    and "if called then \<exists>m. try_mut pbuf = Some m \<and> func m (esp_to_rust_ipv4_addr addr, port) st = Ok st' else st' = st"
proof -
  obtain flags g1 where c: "eg_clear E CALLBACK_SAFE g = (flags, g1)" by fastforce
  then have flags: "flags = bits g" "bits g1 = bits g AND NOT CALLBACK_SAFE"
    using eg_ops_spec(3,4) [OF assms(1), of CALLBACK_SAFE g] by simp_all
  have "(bits g AND NOT CALLBACK_SAFE) OR CALLBACK_SAFE = bits g OR CALLBACK_SAFE"
    by (rule bit_eqI) (auto simp: bit_simps)
  moreover have "g' = snd (eg_set E CALLBACK_SAFE g1)"
    using assms(2) c by (auto simp: dispatch_def return_ok split: if_splits option.splits)
  ultimately show "bits g' = bits g OR CALLBACK_SAFE" using eg_ops_spec(2) [OF assms(1), of CALLBACK_SAFE g1] flags by simp
  show "called \<longleftrightarrow> \<not> eg_contains (bits g) CALLBACK_STOP"
    "if called then \<exists>m. try_mut pbuf = Some m \<and> func m (esp_to_rust_ipv4_addr addr, port) st = Ok st' else st' = st"
    using assms(2) c flags(1) by (auto simp: dispatch_def return_ok split: if_splits option.splits)
qed

subsection \<open>The receive callback\<close>

datatype app_pc = AFresh | AArmed | AInstalled | AStopping | AUninstalled | AQuiesced | AFreed | ACleared

datatype net_pc = NIdle | NCalled | NStopped | NRunning

record 'g udp_cb =
  ug_group :: 'g
  ug_registered :: bool
  ug_live :: bool
  ug_app :: app_pc
  ug_net :: net_pc

text \<open>The box of the callback is allocated before the group is touched.\<close>

definition udp_init :: "'g eg_ops \<Rightarrow> 'g udp_cb" where
  "udp_init E = \<lparr>ug_group = eg_init_with E 0, ug_registered = False, ug_live = True, ug_app = AFresh, ug_net = NIdle\<rparr>"

text \<open>
  \<open>sync\<close> says whether unregistering waits for a call that lwIP has begun: so it would if the calls to
  lwIP were made with its core lock held. The code does not take the lock, so \<open>sync\<close> is false for it.
\<close>

inductive udp_step :: "bool \<Rightarrow> 'g eg_ops \<Rightarrow> 'g udp_cb \<Rightarrow> 'g udp_cb \<Rightarrow> bool" for sync E where
  ug_arm: "ug_app s = AFresh \<Longrightarrow>
    udp_step sync E s (s\<lparr>ug_group := snd (eg_set E CALLBACK_SAFE (ug_group s)), ug_app := AArmed\<rparr>)"
| ug_install: "ug_app s = AArmed \<Longrightarrow> udp_step sync E s (s\<lparr>ug_registered := True, ug_app := AInstalled\<rparr>)"
| ug_stop: "ug_app s = AInstalled \<Longrightarrow>
    udp_step sync E s (s\<lparr>ug_group := snd (eg_set E CALLBACK_STOP (ug_group s)), ug_app := AStopping\<rparr>)"
| ug_uninstall: "ug_app s = AStopping \<Longrightarrow> \<not> (sync \<and> ug_net s = NCalled) \<Longrightarrow>
    udp_step sync E s (s\<lparr>ug_registered := False, ug_app := AUninstalled\<rparr>)"
| ug_quiesce: "ug_app s = AUninstalled \<Longrightarrow> eg_wait_all E CALLBACK_SAFE (ug_group s) = Some (r, g) \<Longrightarrow>
    udp_step sync E s (s\<lparr>ug_group := g, ug_app := AQuiesced\<rparr>)"
| ug_free: "ug_app s = AQuiesced \<Longrightarrow> udp_step sync E s (s\<lparr>ug_live := False, ug_app := AFreed\<rparr>)"
| ug_reset: "ug_app s = AFreed \<Longrightarrow>
    udp_step sync E s (s\<lparr>ug_group := snd (eg_clear E (CALLBACK_SAFE OR CALLBACK_STOP) (ug_group s)), ug_app := ACleared\<rparr>)"
| un_call: "ug_net s = NIdle \<Longrightarrow> ug_registered s \<Longrightarrow> udp_step sync E s (s\<lparr>ug_net := NCalled\<rparr>)"
| un_enter: "ug_net s = NCalled \<Longrightarrow> eg_clear E CALLBACK_SAFE (ug_group s) = (flags, g) \<Longrightarrow>
    udp_step sync E s (s\<lparr>ug_group := g,
      ug_net := (if eg_contains flags CALLBACK_STOP then NStopped else NRunning)\<rparr>)"
| un_stopped: "ug_net s = NStopped \<Longrightarrow>
    udp_step sync E s (s\<lparr>ug_group := snd (eg_set E CALLBACK_SAFE (ug_group s)), ug_net := NIdle\<rparr>)"
| un_return: "ug_net s = NRunning \<Longrightarrow>
    udp_step sync E s (s\<lparr>ug_group := snd (eg_set E CALLBACK_SAFE (ug_group s)), ug_net := NIdle\<rparr>)"

inductive udp_reach :: "bool \<Rightarrow> 'g eg_ops \<Rightarrow> 'g udp_cb \<Rightarrow> bool" for sync E where
  udp_reach_init: "udp_reach sync E (udp_init E)"
| udp_reach_step: "udp_reach sync E s \<Longrightarrow> udp_step sync E s s' \<Longrightarrow> udp_reach sync E s'"

text \<open>
  With the lock the states obey: a call that has begun is one of a registered callback, and while the
  callback is in its body the application has not got past waiting for it.
\<close>

definition udp_inv :: "('g \<Rightarrow> u32) \<Rightarrow> 'g udp_cb \<Rightarrow> bool" where
  "udp_inv bits s \<longleftrightarrow>
     (ug_registered s \<longleftrightarrow> ug_app s = AInstalled \<or> ug_app s = AStopping) \<and>
     (ug_live s \<longleftrightarrow> ug_app s \<noteq> AFreed \<and> ug_app s \<noteq> ACleared) \<and>
     (ug_net s = NCalled \<longrightarrow> ug_registered s) \<and>
     (ug_net s = NStopped \<or> ug_net s = NRunning \<longrightarrow>
        (ug_registered s \<or> ug_app s = AUninstalled) \<and> \<not> eg_contains (bits (ug_group s)) CALLBACK_SAFE)"

lemma udp_inv_step:
  assumes "eg_laws E bits"
  shows "udp_step True E s s' \<Longrightarrow> udp_inv bits s \<Longrightarrow> udp_inv bits s'"
proof (induction rule: udp_step.induct)
  case (ug_quiesce s r g)
  then have "eg_contains (bits (ug_group s)) CALLBACK_SAFE" using eg_wait_all_spec(2) [OF assms] by blast
  then show ?case using ug_quiesce by (auto simp: udp_inv_def)
next
  case (un_enter s flags g)
  then have "\<not> eg_contains (bits g) CALLBACK_SAFE" using safe_bit(1) [OF assms, of "ug_group s"] by simp
  then show ?case using un_enter by (auto simp: udp_inv_def)
qed (auto simp: udp_inv_def safe_bit [OF assms])

lemma udp_reach_inv:
  assumes "eg_laws E bits"
  shows "udp_reach True E s \<Longrightarrow> udp_inv bits s"
proof (induction rule: udp_reach.induct)
  case udp_reach_init
  show ?case by (simp add: udp_inv_def udp_init_def)
next
  case (udp_reach_step s s')
  then show ?case using udp_inv_step [OF assms] by blast
qed

lemma udp_run:
  assumes "udp_reach sync E s" "udp_step sync E s s'" "s' = s''"
  shows "udp_reach sync E s''"
  using assms by (blast intro: udp_reach_step)

text \<open>A run up to a call that lwIP has begun, with any group.\<close>

lemma udp_called_reach:
  "udp_reach sync E \<lparr>ug_group = snd (eg_set E CALLBACK_SAFE (eg_init_with E 0)), ug_registered = True, ug_live = True,
     ug_app = AInstalled, ug_net = NCalled\<rparr>"
proof -
  let ?st = "\<lambda>g r a n. \<lparr>ug_group = g, ug_registered = r, ug_live = True, ug_app = a, ug_net = n\<rparr>"
  let ?g = "eg_init_with E 0" and ?h = "snd (eg_set E CALLBACK_SAFE (eg_init_with E 0))"
  have r0: "udp_reach sync E (?st ?g False AFresh NIdle)"
    using udp_reach_init [of sync E] by (simp add: udp_init_def)
  have r1: "udp_reach sync E (?st ?h False AArmed NIdle)" by (rule udp_run [OF r0 ug_arm]) simp_all
  have r2: "udp_reach sync E (?st ?h True AInstalled NIdle)" by (rule udp_run [OF r1 ug_install]) simp_all
  show ?thesis by (rule udp_run [OF r2 un_call]) simp_all
qed

subsection \<open>Properties\<close>

text \<open>C21: the quiescence protocol is sound when a call that lwIP has begun cannot overlap the
  unregistration: whenever the network thread is about to enter the callback or is in its body, the
  callback's box has not been freed.\<close>

theorem callback_quiesce_sound:
  assumes "eg_laws E bits" "udp_reach True E s" "ug_net s \<noteq> NIdle"
  shows "ug_live s"
  using udp_reach_inv [OF assms(1,2)] assms(3) by (cases "ug_net s") (auto simp: udp_inv_def)

lemma udp_running_reach:
  "udp_reach True word_eg \<lparr>ug_group = 2, ug_registered = True, ug_live = True, ug_app = AStopping, ug_net = NRunning\<rparr>"
proof -
  let ?st = "\<lambda>g a n. \<lparr>ug_group = g, ug_registered = True, ug_live = True, ug_app = a, ug_net = n\<rparr>"
  have r3: "udp_reach True word_eg (?st 1 AInstalled NCalled)"
    using udp_called_reach [of True word_eg] by (simp add: eg_init_with_def eg_set_def word_eg_def flag_values)
  have r4: "udp_reach True word_eg (?st 0 AInstalled NRunning)"
    by (rule udp_run [OF r3 un_enter [of _ _ 1 0]])
      (simp_all add: eg_clear_def word_eg_def flag_values eg_contains_def)
  show ?thesis
    by (rule udp_run [OF r4 ug_stop]) (simp_all add: eg_set_def word_eg_def flag_values)
qed

theorem callback_quiesce_sound_witness:
  "ug_live \<lparr>ug_group = 2 :: u32, ug_registered = True, ug_live = True, ug_app = AStopping, ug_net = NRunning\<rparr>"
  by (rule callback_quiesce_sound [OF word_eg_laws udp_running_reach]) simp

text \<open>C22: as the code calls lwIP, without its core lock, the callback can be entered after it has been
  freed: a state is reachable in which the network thread is about to use the callback's box, the box is
  gone, and the flags no longer tell the callback to stop.\<close>

theorem callback_use_after_free:
  assumes "eg_laws E bits"
  shows "\<exists>s. udp_reach False E s \<and> ug_net s = NCalled \<and> \<not> ug_live s
    \<and> \<not> eg_contains (bits (ug_group s)) CALLBACK_STOP"
proof -
  let ?st = "\<lambda>g r l a. \<lparr>ug_group = g, ug_registered = r, ug_live = l, ug_app = a, ug_net = NCalled\<rparr>"
  let ?h = "snd (eg_set E CALLBACK_SAFE (eg_init_with E 0))"
  let ?k = "snd (eg_set E CALLBACK_STOP ?h)"
  have "eg_contains (bits ?k) CALLBACK_SAFE" using safe_bit(2,3) [OF assms] by blast
  then obtain r g where w: "eg_wait_all E CALLBACK_SAFE ?k = Some (r, g)"
    using eg_wait_all_spec(1) [OF assms, of CALLBACK_SAFE ?k] by auto
  let ?z = "snd (eg_clear E (CALLBACK_SAFE OR CALLBACK_STOP) g)"
  have r4: "udp_reach False E (?st ?k True True AStopping)"
    by (rule udp_run [OF udp_called_reach ug_stop]) simp_all
  have r5: "udp_reach False E (?st ?k False True AUninstalled)" by (rule udp_run [OF r4 ug_uninstall]) simp_all
  have r6: "udp_reach False E (?st g False True AQuiesced)"
    by (rule udp_run [OF r5 ug_quiesce [of _ _ r g]]) (simp_all add: w)
  have r7: "udp_reach False E (?st g False False AFreed)" by (rule udp_run [OF r6 ug_free]) simp_all
  have r8: "udp_reach False E (?st ?z False False ACleared)" by (rule udp_run [OF r7 ug_reset]) simp_all
  have "\<not> bit (bits ?z) 1"
    by (simp only: eg_ops_spec(4) [OF assms] bit_and_iff bit_not_iff bit_or_iff flag_values) (simp add: bit_simps)
  then have "\<not> eg_contains (bits ?z) CALLBACK_STOP"
    using bit_and_iff [of "bits ?z" "2 :: u32" 1] by (auto simp: eg_contains_def flag_values)
  then show ?thesis using r8 by (intro exI [of _ "?st ?z False False ACleared"]) simp
qed

theorem callback_use_after_free_witness:
  "\<exists>s :: u32 udp_cb. udp_reach False word_eg s \<and> ug_net s = NCalled \<and> \<not> ug_live s
    \<and> \<not> eg_contains (ug_group s) CALLBACK_STOP"
  by (rule callback_use_after_free [OF word_eg_laws])

end
