(* ===== verification/LogBuffer.thy ===== *)
theory LogBuffer
  imports Prelude
begin

text \<open>
  The buffer in which a log line is formatted (\<^verbatim>\<open>Buffer\<close> of \<^verbatim>\<open>src/system/log.rs\<close>): a fixed array that
  keeps a NUL after its text and drops what does not fit.
\<close>

record log_buffer =
  lb_len :: nat
  lb_buff :: "u8 list"

definition log_buffer_new :: "nat \<Rightarrow> log_buffer" where
  "log_buffer_new SIZE = \<lparr>lb_len = 0, lb_buff = replicate SIZE 0\<rparr>"

text \<open>The rest of the array, from the end of the text.\<close>

definition unused_mut :: "log_buffer \<Rightarrow> u8 list outcome" where
  "unused_mut b = (if length (lb_buff b) < lb_len b then Panic IndexOutOfBounds else Ok (drop (lb_len b) (lb_buff b)))"

text \<open>\<^verbatim>\<open>unused.len() - 1\<close> underflows on an empty slice; wrapped around, it would let the copy run out of range.\<close>

definition write_str :: "profile \<Rightarrow> u8 list \<Rightarrow> log_buffer \<Rightarrow> log_buffer outcome" where
  "write_str p s b =
     bind_outcome (unused_mut b) (\<lambda>unused.
       if unused = [] then Panic (if p = Dev then ArithmeticOverflow else IndexOutOfBounds)
       else let len = min (length s) (length unused - 1);
                unused' = (take len s @ drop len unused)[len := 0]
            in Ok (b\<lparr>lb_buff := take (lb_len b) (lb_buff b) @ unused', lb_len := lb_len b + len\<rparr>))"

definition as_bytes_with_nul :: "log_buffer \<Rightarrow> u8 list outcome" where
  "as_bytes_with_nul b =
     (if lb_len b + 1 \<le> length (lb_buff b) then Ok (take (lb_len b + 1) (lb_buff b)) else Panic IndexOutOfBounds)"

text \<open>\<^verbatim>\<open>from_bytes_with_nul_unchecked\<close> takes the bytes as they are, a NUL inside or not.\<close>

definition as_cstr :: "log_buffer \<Rightarrow> u8 list outcome" where
  "as_cstr b = as_bytes_with_nul b"

text \<open>The formatter writes a line as a sequence of pieces.\<close>

fun write_all :: "profile \<Rightarrow> u8 list list \<Rightarrow> log_buffer \<Rightarrow> log_buffer outcome" where
  "write_all p [] b = Ok b"
| "write_all p (s # ss) b = bind_outcome (write_str p s b) (write_all p ss)"

definition log_text :: "log_buffer \<Rightarrow> u8 list" where
  "log_text b = take (lb_len b) (lb_buff b)"

definition log_wf :: "nat \<Rightarrow> log_buffer \<Rightarrow> bool" where
  "log_wf SIZE b \<longleftrightarrow> length (lb_buff b) = SIZE \<and> lb_len b < SIZE \<and> lb_buff b ! lb_len b = 0"

lemma log_wf_new: "0 < SIZE \<Longrightarrow> log_wf SIZE (log_buffer_new SIZE) \<and> log_text (log_buffer_new SIZE) = []"
  by (simp add: log_wf_def log_buffer_new_def log_text_def)

lemma write_str_spec:
  assumes "log_wf SIZE b"
  shows "\<exists>b'. write_str p s b = Ok b' \<and> log_wf SIZE b' \<and> log_text b' = take (SIZE - 1) (log_text b @ s)"
proof -
  let ?u = "drop (lb_len b) (lb_buff b)" and ?n = "lb_len b"
  define len where "len = min (length s) (length ?u - 1)"
  have wf: "length (lb_buff b) = SIZE" "?n < SIZE" using assms by (simp_all add: log_wf_def)
  then have u: "?u \<noteq> []" "length ?u = SIZE - ?n" "len < length ?u" by (auto simp: len_def)
  let ?u' = "(take len s @ drop len ?u)[len := 0]"
  let ?b' = "b\<lparr>lb_buff := take ?n (lb_buff b) @ ?u', lb_len := ?n + len\<rparr>"
  have ln: "len \<le> length s" by (simp add: len_def)
  have "write_str p s b = Ok ?b'" using wf u(1) by (simp add: write_str_def unused_mut_def Let_def len_def)
  moreover have "length ?u' = SIZE - ?n" using u ln by simp
  then have "length (lb_buff ?b') = SIZE" using wf by simp
  moreover have "lb_buff ?b' ! (?n + len) = 0"
    using wf u(2,3) ln by (simp add: nth_append)
  moreover have "log_text ?b' = log_text b @ take len s"
    using wf ln by (simp add: log_text_def take_append min_def)
  moreover have "\<dots> = take (SIZE - 1) (log_text b @ s)"
    using wf by (cases "length s \<le> SIZE - ?n - 1") (auto simp: log_text_def len_def min_absorb1 min_absorb2)
  ultimately show ?thesis using u(2,3) wf by (auto simp: log_wf_def)
qed

lemma write_all_spec:
  "log_wf SIZE b \<Longrightarrow> \<exists>b'. write_all p ss b = Ok b' \<and> log_wf SIZE b'
    \<and> log_text b' = take (SIZE - 1) (log_text b @ concat ss)"
proof (induction ss arbitrary: b)
  case Nil
  then show ?case by (auto simp: log_text_def log_wf_def)
next
  case (Cons s ss)
  obtain b1 where b1: "write_str p s b = Ok b1" "log_wf SIZE b1" "log_text b1 = take (SIZE - 1) (log_text b @ s)"
    using write_str_spec [OF Cons.prems] by blast
  obtain b2 where b2: "write_all p ss b1 = Ok b2" "log_wf SIZE b2"
    "log_text b2 = take (SIZE - 1) (log_text b1 @ concat ss)"
    using Cons.IH [OF b1(2)] by blast
  have "take (SIZE - 1) (take (SIZE - 1) xs @ ys) = take (SIZE - 1) (xs @ ys)" for xs ys :: "u8 list"
    by (cases "length xs \<le> SIZE - 1") (simp_all add: min_absorb2)
  then have "log_text b2 = take (SIZE - 1) ((log_text b @ s) @ concat ss)" using b1(3) b2(3) by metis
  then show ?case using b1(1) b2(1,2) by (simp del: take_append)
qed

text \<open>Formatting into the buffer never panics and always leaves a C string: whatever pieces a line is
  written in, the buffer holds the first \<open>SIZE - 1\<close> bytes of the line and then a NUL.\<close>

lemma written_line_is_c_string:
  assumes "0 < SIZE"
  shows "\<exists>b. write_all p pieces (log_buffer_new SIZE) = Ok b
    \<and> as_bytes_with_nul b = Ok (take (SIZE - 1) (concat pieces) @ [0])"
proof -
  obtain b where b: "write_all p pieces (log_buffer_new SIZE) = Ok b" "log_wf SIZE b"
    "log_text b = take (SIZE - 1) (concat pieces)"
    using write_all_spec [of SIZE "log_buffer_new SIZE" p pieces] log_wf_new [OF assms] by auto
  have "as_bytes_with_nul b = Ok (log_text b @ [0])"
    using b(2) by (simp add: as_bytes_with_nul_def log_wf_def log_text_def take_Suc_conv_app_nth)
  then show ?thesis using b(1,3) by simp
qed

end
