(* ===== verification/Format.thy ===== *)
theory Format
  imports Prelude
begin

text \<open>
  The text that \<^verbatim>\<open>core::fmt\<close> makes of numbers and padded values, for the log lines and the task monitor.
\<close>

definition digit_char :: "nat \<Rightarrow> char" where
  "digit_char d = char_of (if d < 10 then 48 + d else 87 + d)"

function text_base :: "nat \<Rightarrow> nat \<Rightarrow> string" where
  "text_base b n =
     (if n < b \<or> b < 2 then [digit_char n] else text_base b (n div b) @ [digit_char (n mod b)])"
  by pat_completeness auto
termination by (relation "measure snd") auto

declare text_base.simps [simp del]

definition decimal :: "u32 \<Rightarrow> string" where
  "decimal v = text_base 10 (unat v)"

text \<open>The widths \<^verbatim>\<open>{: >n}\<close> and \<^verbatim>\<open>{: <n}\<close> of a format pad and never cut.\<close>

definition pad_left :: "nat \<Rightarrow> string \<Rightarrow> string" where
  "pad_left n s = replicate (n - length s) CHR '' '' @ s"

definition pad_right :: "nat \<Rightarrow> string \<Rightarrow> string" where
  "pad_right n s = s @ replicate (n - length s) CHR '' ''"

subsection \<open>Lengths\<close>

lemma length_pad: "length (pad_left n s) = max n (length s)" "length (pad_right n s) = max n (length s)"
  by (simp_all add: pad_left_def pad_right_def)

lemma length_text_base: "0 < k \<Longrightarrow> 2 \<le> b \<Longrightarrow> n < b ^ k \<Longrightarrow> length (text_base b n) \<le> k"
proof (induction b n arbitrary: k rule: text_base.induct)
  case (1 b n)
  show ?case
  proof (cases "n < b")
    case True
    then show ?thesis using "1.prems"(1) by (simp add: text_base.simps [of b n])
  next
    case False
    then have "k \<noteq> 1" using "1.prems"(3) by auto
    then obtain k' where k: "k = Suc k'" "0 < k'" using "1.prems"(1) by (cases k) auto
    have "n div b < b ^ k'" using "1.prems"(2,3) k(1) by (simp add: less_mult_imp_div_less mult.commute)
    then have "length (text_base b (n div b)) \<le> k'" using "1.IH" False "1.prems"(2) k(2) by simp
    then show ?thesis using False "1.prems"(2) k(1) by (simp add: text_base.simps [of b n])
  qed
qed

lemma length_decimal: "0 < k \<Longrightarrow> unat v < 10 ^ k \<Longrightarrow> length (decimal v) \<le> k"
  by (simp add: decimal_def length_text_base)

end
