(* ===== verification/Logger.thy ===== *)
theory Logger
  imports LogBuffer Format
begin

text \<open>
  The logger (\<^verbatim>\<open>src/system/log.rs\<close>): how a record becomes the line in the buffer and the call of ESP-IDF's
  \<^verbatim>\<open>esp_log_write\<close>. Text is its bytes.
\<close>

subsection \<open>Levels, labels and colours\<close>

datatype level = LError | LWarn | LInfo | LDebug | LTrace

text \<open>The constants of ESP-IDF.\<close>

record esp_levels =
  esp_log_error :: u32
  esp_log_warn :: u32
  esp_log_info :: u32
  esp_log_debug :: u32
  esp_log_verbose :: u32

fun log_level :: "esp_levels \<Rightarrow> level \<Rightarrow> u32" where
  "log_level K LError = esp_log_error K"
| "log_level K LWarn = esp_log_warn K"
| "log_level K LInfo = esp_log_info K"
| "log_level K LDebug = esp_log_debug K"
| "log_level K LTrace = esp_log_verbose K"

definition bytes_of :: "string \<Rightarrow> u8 list" where
  "bytes_of s = map of_char s"

definition escape :: "string \<Rightarrow> u8 list" where
  "escape s = 0x1B # bytes_of s"

definition RESET :: "u8 list" where
  "RESET = escape ''[0m''"

record color =
  co_normal :: "u8 list"
  co_bright :: "u8 list"

fun log_color :: "level \<Rightarrow> color" where
  "log_color LError = \<lparr>co_normal = escape ''[31m'', co_bright = escape ''[1;31m''\<rparr>"
| "log_color LWarn = \<lparr>co_normal = escape ''[33m'', co_bright = escape ''[1;33m''\<rparr>"
| "log_color LInfo = \<lparr>co_normal = escape ''[32m'', co_bright = escape ''[1;32m''\<rparr>"
| "log_color LDebug = \<lparr>co_normal = [], co_bright = []\<rparr>"
| "log_color LTrace = \<lparr>co_normal = escape ''[2m'', co_bright = escape ''[2m''\<rparr>"

fun log_label :: "level \<Rightarrow> u8 list" where
  "log_label LError = bytes_of ''ERROR''"
| "log_label LWarn = bytes_of ''WARN ''"
| "log_label LInfo = bytes_of ''INFO ''"
| "log_label LDebug = bytes_of ''DEBUG''"
| "log_label LTrace = bytes_of ''TRACE''"

subsection \<open>The line\<close>

text \<open>
  A string slice is an address and bytes. The arguments of a record write pieces of text and may give an
  error, which ends the formatting; the logger ignores it.
\<close>

record str_slice =
  str_ptr :: nat
  str_bytes :: "u8 list"

record log_record =
  lr_level :: level
  lr_target :: str_slice
  lr_args :: "u8 list list"
  lr_args_error :: bool

definition log_pieces :: "u32 \<Rightarrow> log_record \<Rightarrow> u8 list list" where
  "log_pieces timestamp r =
     (let color = log_color (lr_level r) in
      [co_normal color, log_label (lr_level r), bytes_of '' ['', bytes_of (pad_left 10 (decimal timestamp)), bytes_of ''] '',
       co_bright color, str_bytes (lr_target r), bytes_of '':'', RESET, co_normal color, bytes_of '' '']
      @ lr_args r @ (if lr_args_error r then [] else [RESET]))"

definition LINE_SIZE :: nat where
  "LINE_SIZE = 300"

text \<open>Only a slice in the read-only data of the program is static; \<open>rodata\<close> is the range from its linker symbols.\<close>

definition static_str :: "nat \<times> nat \<Rightarrow> str_slice \<Rightarrow> str_slice option" where
  "static_str rodata s = (if fst rodata \<le> str_ptr s \<and> str_ptr s < snd rodata then Some s else None)"

text \<open>\<open>rust_dynamic\<close> is the literal that stands for other targets.\<close>

record esp_log_call =
  ec_level :: u32
  ec_tag :: nat
  ec_format :: "u8 list"
  ec_message :: "u8 list"

definition esp_log :: "esp_levels \<Rightarrow> level \<Rightarrow> str_slice \<Rightarrow> u8 list \<Rightarrow> esp_log_call" where
  "esp_log K level tag message =
     \<lparr>ec_level = log_level K level, ec_tag = str_ptr tag, ec_format = bytes_of ''%s'' @ [10, 0], ec_message = message\<rparr>"

definition write_log ::
    "profile \<Rightarrow> esp_levels \<Rightarrow> nat \<times> nat \<Rightarrow> str_slice \<Rightarrow> u32 \<Rightarrow> log_record \<Rightarrow> esp_log_call outcome" where
  "write_log p K rodata rust_dynamic timestamp r =
     bind_outcome (write_all p (log_pieces timestamp r) (log_buffer_new LINE_SIZE)) (\<lambda>buffer.
     bind_outcome (as_cstr buffer) (\<lambda>message.
       let tag = (case static_str rodata (lr_target r) of Some s \<Rightarrow> s | None \<Rightarrow> rust_dynamic)
       in Ok (esp_log K (lr_level r) tag message)))"

subsection \<open>What C reads\<close>

text \<open>A C string goes from its address to the first NUL of the memory; \<open>None\<close> if there is none.\<close>

definition c_string :: "u8 list \<Rightarrow> u8 list option" where
  "c_string mem = (if 0 \<in> set mem then Some (takeWhile (\<lambda>b. b \<noteq> 0) mem) else None)"

lemma c_string_append_nul: "c_string (xs @ [0]) = Some (takeWhile (\<lambda>b. b \<noteq> 0) xs)"
  by (auto simp: c_string_def takeWhile_append takeWhile_eq_all_conv [THEN iffD2])

text \<open>A tag is read as such exactly if it has no NUL in it and one follows it in memory, which no Rust string promises.\<close>

lemma tag_is_c_string:
  "c_string (tag @ following) = Some tag \<longleftrightarrow> 0 \<notin> set tag \<and> (\<exists>rest. following = 0 # rest)"
proof
  assume *: "c_string (tag @ following) = Some tag"
  then have t: "takeWhile (\<lambda>b. b \<noteq> 0) (tag @ following) = tag" "0 \<in> set (tag @ following)"
    by (auto simp: c_string_def split: if_splits)
  have nul: "0 \<notin> set tag"
    using t(1) by (metis (mono_tags, lifting) set_takeWhileD)
  then have "takeWhile (\<lambda>b. b \<noteq> 0) following = []" "following \<noteq> []"
    using t by (auto simp: takeWhile_append split: if_splits)
  then show "0 \<notin> set tag \<and> (\<exists>rest. following = 0 # rest)"
    using nul by (cases following) (auto split: if_splits)
qed (auto simp: c_string_def takeWhile_append)

definition log_line :: "u32 \<Rightarrow> log_record \<Rightarrow> u8 list" where
  "log_line timestamp r = concat (log_pieces timestamp r)"

text \<open>Formatting never panics, so a record always reaches ESP-IDF.\<close>

lemma write_log_call:
  "write_log p K rodata rust_dynamic timestamp r = Ok (esp_log K (lr_level r)
     (case static_str rodata (lr_target r) of Some s \<Rightarrow> s | None \<Rightarrow> rust_dynamic)
     (take (LINE_SIZE - 1) (log_line timestamp r) @ [0]))"
proof -
  obtain b where "write_all p (log_pieces timestamp r) (log_buffer_new LINE_SIZE) = Ok b"
    "as_bytes_with_nul b = Ok (take (LINE_SIZE - 1) (log_line timestamp r) @ [0])"
    using written_line_is_c_string [of LINE_SIZE p "log_pieces timestamp r"] by (auto simp: LINE_SIZE_def log_line_def)
  then show ?thesis by (simp add: write_log_def as_cstr_def)
qed

subsection \<open>The panic handler\<close>

text \<open>
  The handler of \<^verbatim>\<open>src/system/panic.rs\<close> logs the panic and calls \<^verbatim>\<open>abort\<close>. What the \<^verbatim>\<open>PanicInfo\<close> writes, in
  pieces and possibly with an error, is a parameter.
\<close>

datatype panic_effect = Logged esp_log_call | Aborted

definition panic_handler ::
    "profile \<Rightarrow> esp_levels \<Rightarrow> nat \<times> nat \<Rightarrow> str_slice \<Rightarrow> u32 \<Rightarrow> str_slice \<Rightarrow> u8 list list \<times> bool \<Rightarrow>
     panic_effect list outcome" where
  "panic_handler p K rodata rust_dynamic timestamp target info =
     bind_outcome (write_log p K rodata rust_dynamic timestamp
         \<lparr>lr_level = LError, lr_target = target, lr_args = bytes_of ''PANIC: '' # fst info, lr_args_error = snd info\<rparr>)
       (\<lambda>call. Ok [Logged call, Aborted])"

text \<open>A panic does not panic again: whatever it writes, the program is aborted after one line at the error level.\<close>

lemma panic_handler_aborts:
  "\<exists>call. panic_handler p K rodata rust_dynamic timestamp target info = Ok [Logged call, Aborted]
    \<and> ec_level call = esp_log_error K"
  by (simp add: panic_handler_def write_log_call esp_log_def)

subsection \<open>Properties\<close>

text \<open>C40: logging never panics, in either profile, whatever the record: it calls ESP-IDF once, with the level
  of the record, a tag in the read-only data (given that the literal for other targets is), and as message a
  C string that is the line up to its first NUL, cut to 299 bytes; so the colour is reset at the end
  unless the line was too long, held a NUL or could not be formatted.\<close>

theorem log_writes_line:
  assumes "fst rodata \<le> str_ptr rust_dynamic" "str_ptr rust_dynamic < snd rodata"
  shows "\<exists>call. write_log p K rodata rust_dynamic timestamp r = Ok call
    \<and> ec_level call = log_level K (lr_level r)
    \<and> fst rodata \<le> ec_tag call \<and> ec_tag call < snd rodata
    \<and> c_string (ec_message call) = Some (takeWhile (\<lambda>b. b \<noteq> 0) (take (LINE_SIZE - 1) (log_line timestamp r)))
    \<and> (length (log_line timestamp r) < LINE_SIZE \<and> 0 \<notin> set (log_line timestamp r) \<and> \<not> lr_args_error r
       \<longrightarrow> (\<exists>shown. c_string (ec_message call) = Some (shown @ RESET)))"
proof -
  define tag where "tag = (case static_str rodata (lr_target r) of Some s \<Rightarrow> s | None \<Rightarrow> rust_dynamic)"
  define call where "call = esp_log K (lr_level r) tag (take (LINE_SIZE - 1) (log_line timestamp r) @ [0])"
  have tag: "fst rodata \<le> str_ptr tag" "str_ptr tag < snd rodata"
    using assms by (auto simp: tag_def static_str_def)
  have msg: "c_string (ec_message call) = Some (takeWhile (\<lambda>b. b \<noteq> 0) (take (LINE_SIZE - 1) (log_line timestamp r)))"
    by (simp add: call_def esp_log_def c_string_append_nul)
  have "\<exists>shown. c_string (ec_message call) = Some (shown @ RESET)"
    if ok: "length (log_line timestamp r) < LINE_SIZE" "0 \<notin> set (log_line timestamp r)" "\<not> lr_args_error r"
  proof -
    have "takeWhile (\<lambda>b. b \<noteq> 0) (log_line timestamp r) = log_line timestamp r"
      using ok(2) by (metis (mono_tags, lifting) takeWhile_eq_all_conv)
    moreover obtain shown where "log_line timestamp r = shown @ RESET"
      using ok(3) by (simp add: log_line_def log_pieces_def Let_def)
    moreover have "take (LINE_SIZE - 1) (log_line timestamp r) = log_line timestamp r" using ok(1) by simp
    ultimately have "c_string (ec_message call) = Some (shown @ RESET)" using msg by metis
    then show ?thesis by blast
  qed
  moreover have "write_log p K rodata rust_dynamic timestamp r = Ok call"
    by (simp add: write_log_call tag_def call_def)
  ultimately show ?thesis using tag msg by (auto simp: call_def esp_log_def)
qed

definition example_record :: log_record where
  "example_record = \<lparr>lr_level = LInfo, lr_target = \<lparr>str_ptr = 40, str_bytes = bytes_of ''bark''\<rparr>,
     lr_args = [bytes_of ''hello''], lr_args_error = False\<rparr>"

theorem log_writes_line_witness:
  "\<exists>call. write_log Dev \<lparr>esp_log_error = 1, esp_log_warn = 2, esp_log_info = 3, esp_log_debug = 4, esp_log_verbose = 5\<rparr>
      (1000, 2000) \<lparr>str_ptr = 1500, str_bytes = bytes_of ''rust-dynamic''\<rparr> 7 example_record = Ok call
    \<and> ec_level call = 3 \<and> 1000 \<le> ec_tag call
    \<and> c_string (ec_message call) = Some (log_line 7 example_record)"
proof -
  have seven: "char_of (55 :: nat) = CHR ''7''" by code_simp
  have line: "length (log_line 7 example_record) < 299" "0 \<notin> set (log_line 7 example_record)"
    by (simp_all add: log_line_def log_pieces_def example_record_def bytes_of_def escape_def RESET_def decimal_def
        text_base.simps pad_left_def digit_char_def seven)
  then have all: "takeWhile (\<lambda>b. b \<noteq> 0) (log_line 7 example_record) = log_line 7 example_record"
    by (metis (mono_tags, lifting) takeWhile_eq_all_conv)
  show ?thesis
    using log_writes_line [of "(1000, 2000)" "\<lparr>str_ptr = 1500, str_bytes = bytes_of ''rust-dynamic''\<rparr>" Dev
        "\<lparr>esp_log_error = 1, esp_log_warn = 2, esp_log_info = 3, esp_log_debug = 4, esp_log_verbose = 5\<rparr>" 7 example_record]
      line all by (auto simp: LINE_SIZE_def example_record_def)
qed

end
