(* ===== verification/TaskSpawn.thy ===== *)
theory TaskSpawn
  imports Heap Registry
begin

text \<open>
  Task creation and the executor (\<^verbatim>\<open>src/system/task.rs\<close>, \<^verbatim>\<open>src/system/task/execute.rs\<close>): \<^verbatim>\<open>spawn\<close>
  boxes the closure, hands the box to FreeRTOS as the argument of the new task and takes it back when no
  task was made; the task unboxes it, registers itself and polls its future until it is ready. What
  FreeRTOS answers, and what the polls of the future return, are parameters.
\<close>

subsection \<open>Building a task\<close>

record task_builder =
  tb_name :: "u8 list"
  tb_stack_bytes :: u32
  tb_priority :: u32
  tb_core :: int

definition DEFAULT_STACK_SIZE :: u32 where "DEFAULT_STACK_SIZE = 8192"
definition DEFAULT_PRIORITY :: u32 where "DEFAULT_PRIORITY = 0"
definition TASK_NAME_LENGTH :: nat where "TASK_NAME_LENGTH = 32"

definition task_new :: "u8 list \<Rightarrow> task_builder" where
  "task_new name = \<lparr>tb_name = name, tb_stack_bytes = DEFAULT_STACK_SIZE, tb_priority = DEFAULT_PRIORITY, tb_core = 0\<rparr>"

definition stack_size :: "nat \<Rightarrow> task_builder \<Rightarrow> task_builder" where
  "stack_size bytes b = b\<lparr>tb_stack_bytes := of_nat bytes\<rparr>"

definition priority :: "u32 \<Rightarrow> task_builder \<Rightarrow> task_builder" where
  "priority prio b = b\<lparr>tb_priority := prio\<rparr>"

definition use_alternate_core :: "task_builder \<Rightarrow> task_builder" where
  "use_alternate_core b = b\<lparr>tb_core := 1\<rparr>"

text \<open>
  The name in a \<^verbatim>\<open>heapless::Vec\<close> of 33 bytes: the first 32 bytes fit, and so does the NUL after them.
\<close>

definition task_name_bytes :: "u8 list \<Rightarrow> u8 list" where
  "task_name_bytes name = take TASK_NAME_LENGTH name @ [0]"

subsection \<open>Spawning\<close>

datatype spawn_error = AllocateClosure malloc_error | TaskCreateError

text \<open>The arguments of \<^verbatim>\<open>xTaskCreatePinnedToCore\<close>.\<close>

record task_args =
  ta_name :: "u8 list"
  ta_stack :: u32
  ta_param :: nat
  ta_priority :: u32
  ta_core :: int

definition task_spawn ::
    "profile \<Rightarrow> (nat \<Rightarrow> nat) \<Rightarrow> nat \<Rightarrow> nat \<Rightarrow> (task_args \<Rightarrow> int) \<Rightarrow> 'f \<Rightarrow> task_builder \<Rightarrow> 'f memory \<Rightarrow>
     ((spawn_error + task_args) \<times> 'f memory) outcome option" where
  "task_spawn p malloc sz fut_size create main b m =
     (case box_alloc malloc sz main m of
        (Inl e, m1) \<Rightarrow> Some (Ok (Inl (AllocateClosure e), m1))
      | (Inr ptr, m1) \<Rightarrow>
          (case add_word p (tb_stack_bytes b) (of_nat fut_size) of
             Panic e \<Rightarrow> Some (Panic e)
           | Ok stack \<Rightarrow>
               let args = \<lparr>ta_name = task_name_bytes (tb_name b), ta_stack = stack, ta_param = ptr,
                           ta_priority = tb_priority b, ta_core = tb_core b\<rparr>
               in if create args = 1 then Some (Ok (Inr args, m1))
                  else map_option (\<lambda>m2. Ok (Inl TaskCreateError, m2)) (drop_free sz ptr m1)))"

text \<open>The first thing a started task does with its argument.\<close>

definition task_start :: "nat \<Rightarrow> nat \<Rightarrow> 'f memory \<Rightarrow> ('f \<times> 'f memory) option" where
  "task_start sz param m = box_into_inner sz param m"

subsection \<open>The executor\<close>

text \<open>
  The future is polled until it is ready; between two polls the task waits for a notification. An
  exhausted list of polls leaves the task waiting (\<^const>\<open>None\<close>).
\<close>

fun poll_until_ready :: "'r poll list \<Rightarrow> 'r option" where
  "poll_until_ready [] = None"
| "poll_until_ready (Ready ret # polls) = Some ret"
| "poll_until_ready (Pending # polls) = poll_until_ready polls"

text \<open>The registration lives as long as the call.\<close>

definition execute :: "task_ptr \<Rightarrow> 'r poll list \<Rightarrow> slots \<Rightarrow> ('r \<times> slots) option outcome" where
  "execute task polls slots =
     bind_outcome (new_for_current_task task slots) (\<lambda>(tid, slots1).
       case poll_until_ready polls of
         None \<Rightarrow> Ok None
       | Some ret \<Rightarrow> bind_outcome (registration_drop tid slots1) (\<lambda>slots2. Ok (Some (ret, slots2))))"

subsection \<open>The end of a task\<close>

text \<open>
  What a task returns: nothing, or a result that holds such a value or an error, of which the log shows
  the \<^verbatim>\<open>Debug\<close> text.
\<close>

datatype task_return = ReturnUnit | ReturnOk task_return | ReturnErr string

datatype exit_line = ExitInfo string | ExitError string

fun return_log :: "string \<Rightarrow> task_return \<Rightarrow> exit_line" where
  "return_log name ReturnUnit = ExitInfo (name @ '' exited'')"
| "return_log name (ReturnOk val) = return_log name val"
| "return_log name (ReturnErr err) = ExitError (name @ '' failed with error: '' @ err)"

text \<open>
  The routine of a started task: it takes its closure out of the box, runs it under the executor, logs what
  came back with the name FreeRTOS has for it (empty where that is not UTF-8), and deletes itself.
  \<^const>\<open>None\<close> inside stands for a task that still waits.
\<close>

definition task_routine ::
    "nat \<Rightarrow> ('f \<Rightarrow> task_return poll list) \<Rightarrow> string option \<Rightarrow> task_ptr \<Rightarrow> nat \<Rightarrow> 'f memory \<Rightarrow> slots \<Rightarrow>
     (exit_line \<times> 'f memory \<times> slots) option outcome option" where
  "task_routine sz polls name task param m slots =
     map_option (\<lambda>(main, m1).
         bind_outcome (execute task (polls main) slots) (\<lambda>finished.
           case finished of
             None \<Rightarrow> Ok None
           | Some (ret, slots1) \<Rightarrow> Ok (Some (return_log (case name of Some n \<Rightarrow> n | None \<Rightarrow> '''') ret, m1, slots1))))
       (task_start sz param m)"

subsection \<open>Lemmas\<close>

lemma length_task_name: "length (task_name_bytes name) \<le> TASK_NAME_LENGTH + 1"
  by (simp add: task_name_bytes_def)

text \<open>The error at the bottom of nested results.\<close>

fun return_cause :: "task_return \<Rightarrow> string option" where
  "return_cause ReturnUnit = None"
| "return_cause (ReturnOk val) = return_cause val"
| "return_cause (ReturnErr err) = Some err"

lemma return_log_cause:
  "return_log name ret = (case return_cause ret of
      None \<Rightarrow> ExitInfo (name @ '' exited'')
    | Some err \<Rightarrow> ExitError (name @ '' failed with error: '' @ err))"
  by (induction name ret rule: return_log.induct) simp_all

lemma poll_until_ready_some: "Ready ret \<in> set polls \<Longrightarrow> \<exists>ret'. poll_until_ready polls = Some ret'"
  by (induction polls rule: poll_until_ready.induct) auto

lemma execute_releases_slot:
  assumes "length slots = 32" "i < 32" "slots ! i = None" "\<And>j. j < i \<Longrightarrow> slots ! j \<noteq> None"
    and "poll_until_ready polls = Some ret"
  shows "execute task polls slots = Ok (Some (ret, slots))"
proof -
  have reg: "new_for_current_task task slots = Ok (nth_id i, slots[i := Some task])"
    using claim_scan_first [OF assms(1) _ assms(2,3), of 0 task] assms(4)
    by (simp add: new_for_current_task_def task_id_iter_upt)
  have "registration_drop (nth_id i) (slots[i := Some task]) = Ok slots"
    using assms(1-3) by (simp add: registration_drop_def slot_clear_def list_update_same_conv)
  then show ?thesis using reg assms(5) by (simp add: execute_def)
qed

lemma box_alloc_result:
  assumes "malloc sz \<noteq> 0 \<Longrightarrow> mem_live m (malloc sz) = None" "sz \<noteq> 0" "box_alloc malloc sz v m = (r, m')"
  shows "case r of Inl e \<Rightarrow> m' = m
    | Inr ptr \<Rightarrow> mem_live m ptr = None \<and> m' = m\<lparr>mem_live := (mem_live m)(ptr \<mapsto> v)\<rparr>"
  using assms by (auto simp: box_alloc_def alloc_layout_def system_alloc_def Let_def split: if_splits)

text \<open>Who frees the closure, on every path.\<close>

lemma spawn_ownership:
  assumes "malloc sz \<noteq> 0 \<Longrightarrow> mem_live m (malloc sz) = None" "sz \<noteq> 0"
    and "unat (tb_stack_bytes b) + fut_size < 2 ^ 32"
  shows "\<exists>r m'. task_spawn p malloc sz fut_size create main b m = Some (Ok (r, m'))
    \<and> (case r of
         Inl (AllocateClosure e) \<Rightarrow> m' = m
       | Inl TaskCreateError \<Rightarrow> mem_live m' = mem_live m \<and> (\<exists>ptr. mem_frees m' = mem_frees m @ [ptr])
       | Inr args \<Rightarrow> mem_frees m' = mem_frees m
           \<and> (\<exists>m''. task_start sz (ta_param args) m' = Some (main, m'')
               \<and> mem_live m'' = mem_live m \<and> mem_frees m'' = mem_frees m @ [ta_param args]))"
proof -
  obtain r1 m1 where r1: "box_alloc malloc sz main m = (r1, m1)" by fastforce
  note al = box_alloc_result [OF assms(1,2) r1]
  have stack: "add_word p (tb_stack_bytes b) (of_nat fut_size) = Ok (tb_stack_bytes b + of_nat fut_size)"
  proof (rule add_word_no_overflow)
    have "unat (of_nat fut_size :: u32) = fut_size"
      using assms(3) by (simp add: unat_of_nat)
    then show "unat (tb_stack_bytes b) + unat (of_nat fut_size :: u32) < 2 ^ LENGTH(32)"
      using assms(3) by simp
  qed
  show ?thesis
  proof (cases r1)
    case (Inl e)
    then show ?thesis using r1 al by (simp add: task_spawn_def)
  next
    case (Inr ptr)
    then have m1: "mem_live m ptr = None" "m1 = m\<lparr>mem_live := (mem_live m)(ptr \<mapsto> main)\<rparr>" using al by simp_all
    have upd: "(mem_live m)(ptr := None) = mem_live m" using m1(1) by (simp add: fun_upd_idem)
    let ?args = "\<lparr>ta_name = task_name_bytes (tb_name b), ta_stack = tb_stack_bytes b + of_nat fut_size, ta_param = ptr,
                  ta_priority = tb_priority b, ta_core = tb_core b\<rparr>"
    show ?thesis
    proof (cases "create ?args = 1")
      case True
      then have "task_spawn p malloc sz fut_size create main b m = Some (Ok (Inr ?args, m1))"
        using r1 Inr stack by (simp add: task_spawn_def Let_def)
      then show ?thesis using m1 assms(2)
        by (simp add: task_start_def box_into_inner_def free_layout_def upd)
    next
      case False
      let ?m2 = "m1\<lparr>mem_live := (mem_live m1)(ptr := None), mem_frees := mem_frees m @ [ptr]\<rparr>"
      have "task_spawn p malloc sz fut_size create main b m = Some (Ok (Inl TaskCreateError, ?m2))"
        using False r1 Inr stack m1 assms(2) by (simp add: task_spawn_def Let_def drop_free_def free_layout_def)
      then show ?thesis using m1 upd by auto
    qed
  qed
qed

subsection \<open>Properties\<close>

text \<open>The closure of a task has one owner at every moment and its memory is freed exactly once: by
  nobody if it could not be allocated, by \<^verbatim>\<open>spawn\<close> if no task was made (which leaves the memory as it
  was), and otherwise by the started task, which gets the closure that was passed.\<close>

theorem closure_has_one_owner:
  assumes "malloc sz \<noteq> 0 \<Longrightarrow> mem_live m (malloc sz) = None" "sz \<noteq> 0"
    and "unat (tb_stack_bytes b) + fut_size < 2 ^ 32"
  shows "\<exists>r m'. task_spawn p malloc sz fut_size create main b m = Some (Ok (r, m'))
    \<and> (case r of
         Inl (AllocateClosure e) \<Rightarrow> m' = m
       | Inl TaskCreateError \<Rightarrow> mem_live m' = mem_live m \<and> (\<exists>ptr. mem_frees m' = mem_frees m @ [ptr])
       | Inr args \<Rightarrow> mem_frees m' = mem_frees m
           \<and> (\<exists>m''. task_start sz (ta_param args) m' = Some (main, m'')
               \<and> mem_live m'' = mem_live m \<and> mem_frees m'' = mem_frees m @ [ta_param args]))"
  using spawn_ownership [of malloc sz m b fut_size p create main, OF assms] .

theorem closure_has_one_owner_witness:
  "\<exists>m' m''. task_spawn Dev (\<lambda>_. 4096) 24 100 (\<lambda>_. - 1) ''closure'' (task_new [98, 97]) \<lparr>mem_live = (\<lambda>_. None), mem_frees = []\<rparr>
      = Some (Ok (Inl TaskCreateError, m')) \<and> mem_live m' = (\<lambda>_. None) \<and> length (mem_frees m') = 1"
  using closure_has_one_owner [of "\<lambda>_. 4096" 24 "\<lparr>mem_live = (\<lambda>_. None), mem_frees = []\<rparr>" "task_new [98, 97]"
      100 Dev "\<lambda>_. - 1" "''closure''"]
  by (auto simp: task_new_def DEFAULT_STACK_SIZE_def task_spawn_def box_alloc_def alloc_layout_def system_alloc_def
      add_word_def Let_def drop_free_def free_layout_def)

text \<open>A task holds its registry slot exactly while it runs: it registers in the lowest free slot, and
  when its future is ready the slots are what they were.\<close>

theorem executor_releases_registration:
  assumes "length slots = 32" "\<exists>i<32. slots ! i = None" "Ready ret \<in> set polls"
  shows "\<exists>ret'. execute task polls slots = Ok (Some (ret', slots))"
proof -
  obtain i where i: "i < 32" "slots ! i = None" "\<And>j. j < i \<Longrightarrow> slots ! j \<noteq> None"
    using assms(2) by (rule first_index) blast
  obtain ret' where "poll_until_ready polls = Some ret'"
    using poll_until_ready_some [OF assms(3)] by (rule exE)
  from execute_releases_slot [OF assms(1) i this] show ?thesis by (rule exI)
qed

theorem executor_releases_registration_witness:
  "\<exists>ret'. execute 100 [Pending, Pending, Ready ''done''] empty_slots = Ok (Some (ret', empty_slots))"
proof (rule executor_releases_registration [where ret = "''done''"])
  show len: "length empty_slots = 32" by (simp add: empty_slots_def MAX_TASKS_def)
  have "empty_slots ! 0 = None" by (simp add: empty_slots_def MAX_TASKS_def)
  then show "\<exists>i<32. empty_slots ! i = None" by (intro exI [of _ 0] conjI) simp_all
qed simp

text \<open>C37: a task that was spawned leaves nothing behind: when its future is ready, the started task has run
  the closure that was passed, with a waker of its own; it logs one line with its name, an error exactly
  when an error came back; and then the closure's memory has been freed once, the memory is what it was
  before the task was spawned, and its slot in the registry is free again.\<close>

theorem task_leaves_nothing:
  assumes "malloc sz \<noteq> 0 \<Longrightarrow> mem_live m (malloc sz) = None" "sz \<noteq> 0"
    and "unat (tb_stack_bytes b) + fut_size < 2 ^ 32"
    and "task_spawn p malloc sz fut_size create main b m = Some (Ok (Inr args, m'))"
    and "length slots = 32" "\<exists>i<32. slots ! i = None" "poll_until_ready (polls main) = Some ret"
  shows "\<exists>line m''. task_routine sz polls (Some name) task (ta_param args) m' slots = Some (Ok (Some (line, m'', slots)))
    \<and> mem_live m'' = mem_live m \<and> mem_frees m'' = mem_frees m @ [ta_param args]
    \<and> line = (case return_cause ret of None \<Rightarrow> ExitInfo (name @ '' exited'') | Some err \<Rightarrow> ExitError (name @ '' failed with error: '' @ err))"
proof -
  obtain m'' where m'': "task_start sz (ta_param args) m' = Some (main, m'')" "mem_live m'' = mem_live m"
    "mem_frees m'' = mem_frees m @ [ta_param args]"
    using spawn_ownership [of malloc sz m b fut_size p create main, OF assms(1-3)] assms(4) by auto
  obtain i where i: "i < 32" "slots ! i = None" "\<And>j. j < i \<Longrightarrow> slots ! j \<noteq> None"
    using assms(6) by (rule first_index) blast
  have "execute task (polls main) slots = Ok (Some (ret, slots))"
    by (rule execute_releases_slot [OF assms(5) i assms(7)])
  then show ?thesis using m'' by (simp add: task_routine_def return_log_cause)
qed

theorem task_leaves_nothing_witness:
  "\<exists>m'' :: string memory. mem_live m'' = (\<lambda>_. None) \<and> mem_frees m'' = [4096]
    \<and> task_routine 24 (\<lambda>main. [Pending, Ready (ReturnOk (ReturnErr main))]) (Some ''app'') 100 4096
        \<lparr>mem_live = [4096 \<mapsto> ''no netif''], mem_frees = []\<rparr> empty_slots
      = Some (Ok (Some (ExitError ''app failed with error: no netif'', m'', empty_slots)))"
proof -
  let ?args = "\<lparr>ta_name = task_name_bytes [97], ta_stack = 8292, ta_param = 4096, ta_priority = 0, ta_core = 0\<rparr>"
  have spawn: "task_spawn Dev (\<lambda>_. 4096) 24 100 (\<lambda>_. 1) ''no netif'' (task_new [97]) \<lparr>mem_live = (\<lambda>_. None), mem_frees = []\<rparr>
      = Some (Ok (Inr ?args, \<lparr>mem_live = [4096 \<mapsto> ''no netif''], mem_frees = []\<rparr>))"
    by (simp add: task_new_def DEFAULT_STACK_SIZE_def DEFAULT_PRIORITY_def task_spawn_def box_alloc_def alloc_layout_def
        system_alloc_def add_word_def)
  have "empty_slots ! 0 = None" by (simp add: empty_slots_def MAX_TASKS_def)
  then have slots: "length empty_slots = 32" "\<exists>i<32. empty_slots ! i = None"
    by (simp add: empty_slots_def MAX_TASKS_def, intro exI [of _ 0] conjI) simp_all
  from task_leaves_nothing [OF _ _ _ spawn slots, of "\<lambda>main. [Pending, Ready (ReturnOk (ReturnErr main))]" _ "''app''" 100]
  show ?thesis by (auto simp: task_new_def DEFAULT_STACK_SIZE_def)
qed

end
