(* ===== verification/Wifi.thy ===== *)
theory Wifi
  imports Prelude
begin

text \<open>
  Bringing the wifi up (\<^verbatim>\<open>init\<close> and \<^verbatim>\<open>configure\<close> of \<^verbatim>\<open>src/platform/wifi.rs\<close>): the calls to ESP-IDF with
  what they are given, and where an error ends the sequence.
\<close>

subsection \<open>Configuration\<close>

text \<open>
  What comes from outside the source: the credentials, which the build takes from its environment, the sizes of
  the fields they go to, and the constants of the ESP-IDF bindings.
\<close>

record wifi_sys =
  ws_ssid :: "u8 list"
  ws_password :: "u8 list"
  ws_ssid_field :: nat
  ws_password_field :: nat
  ws_osi_funcs :: nat
  ws_wpa_crypto_funcs :: nat
  ws_tx_buffer_type :: u32
  ws_nano_format :: u32
  ws_rx_ba_win :: u32
  ws_softap_beacon_max_len :: u32
  ws_mgmt_sbuf_num :: u32
  ws_feature_caps :: u64
  ws_sta_disconnected_pm :: u32
  ws_espnow_max_encrypt :: u32
  ws_init_config_magic :: u32
  ws_all_channel_scan :: u32
  ws_by_signal :: u32
  ws_auth_wpa2_psk :: u32
  ws_mode_sta :: u32
  ws_if_sta :: u32

definition STATIC_RX_BUF_COUNT :: i32 where "STATIC_RX_BUF_COUNT = 10"
definition DYNAMIC_RX_BUF_COUNT :: i32 where "DYNAMIC_RX_BUF_COUNT = 10"
definition STATIC_TX_BUF_COUNT :: i32 where "STATIC_TX_BUF_COUNT = 10"
definition DYNAMIC_TX_BUF_COUNT :: i32 where "DYNAMIC_TX_BUF_COUNT = 10"
definition AMPDU_ENABLE :: i32 where "AMPDU_ENABLE = 0"

record wifi_init_config =
  ic_osi_funcs :: nat
  ic_wpa_crypto_funcs :: nat
  ic_static_rx_buf_num :: i32
  ic_dynamic_rx_buf_num :: i32
  ic_tx_buf_type :: i32
  ic_static_tx_buf_num :: i32
  ic_dynamic_tx_buf_num :: i32
  ic_cache_tx_buf_num :: i32
  ic_csi_enable :: i32
  ic_ampdu_rx_enable :: i32
  ic_ampdu_tx_enable :: i32
  ic_amsdu_tx_enable :: i32
  ic_nvs_enable :: i32
  ic_nano_enable :: i32
  ic_rx_ba_win :: i32
  ic_wifi_task_core_id :: i32
  ic_beacon_max_len :: i32
  ic_mgmt_sbuf_num :: i32
  ic_feature_caps :: u64
  ic_sta_disconnected_pm :: bool
  ic_espnow_max_encrypt_num :: i32
  ic_magic :: i32

text \<open>The constants are \<^verbatim>\<open>u32\<close>, and cast; the cast keeps the 32 bits.\<close>

definition init_config :: "wifi_sys \<Rightarrow> wifi_init_config" where
  "init_config W =
     \<lparr>ic_osi_funcs = ws_osi_funcs W,
      ic_wpa_crypto_funcs = ws_wpa_crypto_funcs W,
      ic_static_rx_buf_num = STATIC_RX_BUF_COUNT,
      ic_dynamic_rx_buf_num = DYNAMIC_RX_BUF_COUNT,
      ic_tx_buf_type = ws_tx_buffer_type W,
      ic_static_tx_buf_num = STATIC_TX_BUF_COUNT,
      ic_dynamic_tx_buf_num = DYNAMIC_TX_BUF_COUNT,
      ic_cache_tx_buf_num = 0,
      ic_csi_enable = 1,
      ic_ampdu_rx_enable = AMPDU_ENABLE,
      ic_ampdu_tx_enable = AMPDU_ENABLE,
      ic_amsdu_tx_enable = AMPDU_ENABLE,
      ic_nvs_enable = 0,
      ic_nano_enable = ws_nano_format W,
      ic_rx_ba_win = ws_rx_ba_win W,
      ic_wifi_task_core_id = 0,
      ic_beacon_max_len = ws_softap_beacon_max_len W,
      ic_mgmt_sbuf_num = ws_mgmt_sbuf_num W,
      ic_feature_caps = ws_feature_caps W,
      ic_sta_disconnected_pm = (ws_sta_disconnected_pm W \<noteq> 0),
      ic_espnow_max_encrypt_num = ws_espnow_max_encrypt W,
      ic_magic = ws_init_config_magic W\<rparr>"

text \<open>A string in a fixed array: truncated, or padded with NUL.\<close>

definition fixed :: "nat \<Rightarrow> u8 list \<Rightarrow> u8 list" where
  "fixed N s = (let len = min N (length s) in take len s @ drop len (replicate N 0))"

lemma length_fixed: "length (fixed N s) = N"
  by (simp add: fixed_def Let_def min_def)

lemma fixed_padded: "length s \<le> N \<Longrightarrow> fixed N s = s @ replicate (N - length s) 0"
  by (simp add: fixed_def Let_def min_def)

text \<open>The station's configuration; the fields that are left out of it are the zeroes of the source.\<close>

record sta_config =
  sta_ssid :: "u8 list"
  sta_password :: "u8 list"
  sta_scan_method :: u32
  sta_bssid_set :: bool
  sta_bssid :: "u8 list"
  sta_channel :: u8
  sta_listen_interval :: u16
  sta_sort_method :: u32
  sta_threshold :: "u32 \<times> i8"
  sta_pmf :: "bool \<times> bool"
  sta_sae_pwe_h2e :: u32
  sta_failure_retry_cnt :: u8

definition station :: "wifi_sys \<Rightarrow> sta_config" where
  "station W =
     \<lparr>sta_ssid = fixed (ws_ssid_field W) (ws_ssid W),
      sta_password = fixed (ws_password_field W) (ws_password W),
      sta_scan_method = ws_all_channel_scan W,
      sta_bssid_set = False,
      sta_bssid = replicate 6 0,
      sta_channel = 0,
      sta_listen_interval = 3,
      sta_sort_method = ws_by_signal W,
      sta_threshold = (ws_auth_wpa2_psk W, - 99),
      sta_pmf = (True, False),
      sta_sae_pwe_h2e = 3,
      sta_failure_retry_cnt = 1\<rparr>"

subsection \<open>The calls\<close>

text \<open>The two sources of events whose handlers are attached, for any event of theirs.\<close>

datatype event_base = WifiEvents | IpEvents

datatype wifi_call =
    NetifInit
  | CreateDefaultSta
  | WifiInit wifi_init_config
  | WifiStart
  | RegisterHandler event_base
  | SetMode u32
  | SetConfig u32 sta_config
  | WifiConnect

text \<open>
  \<open>ok\<close> says which of the calls to ESP-IDF succeed, by their number in the sequence. The result is the
  sequence of calls made: up to the first that fails for the calls that are checked.
\<close>

fun try_calls :: "(nat \<Rightarrow> bool) \<Rightarrow> nat \<Rightarrow> wifi_call list \<Rightarrow> wifi_call list \<times> bool" where
  "try_calls ok n [] = ([], True)"
| "try_calls ok n (c # cs) =
     (if ok n then let (made, all_ok) = try_calls ok (n + 1) cs in (c # made, all_ok) else ([c], False))"

definition attach_event :: "event_base \<Rightarrow> wifi_call" where
  "attach_event base = RegisterHandler base"

definition configure :: "wifi_sys \<Rightarrow> (nat \<Rightarrow> bool) \<Rightarrow> nat \<Rightarrow> wifi_call list \<times> bool" where
  "configure W ok n = try_calls ok n [SetMode (ws_mode_sta W), SetConfig (ws_if_sta W) (station W)]"

definition wifi_init :: "wifi_sys \<Rightarrow> (nat \<Rightarrow> bool) \<Rightarrow> wifi_call list" where
  "wifi_init W ok =
     (let (made, all_ok) =
        try_calls ok 0 [NetifInit, CreateDefaultSta, WifiInit (init_config W), WifiStart,
          attach_event WifiEvents, attach_event IpEvents]
      in if all_ok then made @ fst (configure W ok 6) @ [WifiStart, WifiConnect] else made)"

lemma try_calls_prefix: "\<exists>rest. cs = fst (try_calls ok n cs) @ rest"
  by (induction ok n cs rule: try_calls.induct) (auto split: prod.splits)

lemma try_calls_subset: "set (fst (try_calls ok n cs)) \<subseteq> set cs"
  by (metis try_calls_prefix Un_upper1 set_append)

lemma try_calls_all: "snd (try_calls ok n cs) \<longleftrightarrow> (\<forall>i<length cs. ok (n + i))"
proof (induction cs arbitrary: n)
  case (Cons c cs)
  have "(\<forall>i<length (c # cs). ok (n + i)) \<longleftrightarrow> ok n \<and> (\<forall>i<length cs. ok (n + 1 + i))"
    by (auto simp: less_Suc_eq_0_disj)
  then show ?case using Cons [of "n + 1"] by (auto split: prod.splits)
qed simp

text \<open>The wifi is connected unless one of the first six calls fails, whatever the configuration says.\<close>

lemma wifi_connects: "WifiConnect \<in> set (wifi_init W ok) \<longleftrightarrow> (\<forall>i<6. ok i)"
proof -
  let ?cs = "[NetifInit, CreateDefaultSta, WifiInit (init_config W), WifiStart, attach_event WifiEvents, attach_event IpEvents]"
  have "WifiConnect \<notin> set (fst (try_calls ok 0 ?cs))"
    by (auto simp: attach_event_def simp del: try_calls.simps dest!: subsetD [OF try_calls_subset])
  moreover have "snd (try_calls ok 0 ?cs) \<longleftrightarrow> (\<forall>i<6. ok i)" by (simp only: try_calls_all) (simp add: eval_nat_numeral)
  ultimately show ?thesis by (auto simp: wifi_init_def attach_event_def Let_def case_prod_unfold simp del: try_calls.simps)
qed

text \<open>
  What ESP-IDF is told of the network: the name and the password, as far as they fit, padded with NUL. A
  name or password without NUL that fits is read back whole.
\<close>

lemma fixed_roundtrip: "length s \<le> N \<Longrightarrow> 0 \<notin> set s \<Longrightarrow> takeWhile (\<lambda>b. b \<noteq> 0) (fixed N s) = s"
  by (simp add: fixed_padded takeWhile_append takeWhile_replicate)

lemma wifi_set_config:
  assumes "SetConfig i c \<in> set (wifi_init W ok)"
  shows "i = ws_if_sta W \<and> c = station W"
proof -
  have "SetConfig i c \<notin> set (fst (try_calls ok 0 [NetifInit, CreateDefaultSta, WifiInit (init_config W), WifiStart,
      attach_event WifiEvents, attach_event IpEvents]))"
    by (auto simp: attach_event_def simp del: try_calls.simps dest!: subsetD [OF try_calls_subset])
  then have "SetConfig i c \<in> set (fst (configure W ok 6))"
    using assms by (auto simp: wifi_init_def Let_def case_prod_unfold simp del: try_calls.simps split: if_splits)
  then show ?thesis
    by (auto simp: configure_def simp del: try_calls.simps dest!: subsetD [OF try_calls_subset])
qed

end
