(* ===== verification/Platform.thy ===== *)
theory Platform
  imports EventGroup Wifi
begin

text \<open>
  The platform (\<^verbatim>\<open>src/platform/mod.rs\<close>, \<^verbatim>\<open>src/platform/wifi.rs\<close>): the two threads that follow the wifi's
  state once it is up. The event handlers run on the system's event task; they store the new
  state and raise an event. The platform task waits for the event, loads the state and starts or stops
  the application.
\<close>

subsection \<open>State\<close>

datatype wifi_state = Uninit | Started | Online | Disconnected

text \<open>The message numbers are constants of the bindings, so parameters.\<close>

definition on_wifi_event :: "u32 \<Rightarrow> u32 \<Rightarrow> i32 \<Rightarrow> wifi_state option" where
  "on_wifi_event sta_start sta_disconnected msg =
     (if ucast msg = sta_start then Some Started
      else if ucast msg = sta_disconnected then Some Disconnected
      else None)"

definition on_ip_event :: "u32 \<Rightarrow> i32 \<Rightarrow> wifi_state option" where
  "on_ip_event sta_got_ip msg = (if ucast msg = sta_got_ip then Some Online else None)"

definition EVENT_WIFI :: u32 where "EVENT_WIFI = push_bit 0 1"
definition EVENT_ALL :: u32 where "EVENT_ALL = EVENT_WIFI"

datatype event_pc = EIdle | ERaise
datatype task_pc = PWaiting | PLoad | PAct wifi_state | PPanicked

text \<open>\<open>pf_apps\<close> counts the application tasks started, \<open>pf_seen\<close> is the state the task last acted on.\<close>

record 'g platform =
  pf_event :: 'g
  pf_state :: wifi_state
  pf_evt :: event_pc
  pf_task :: task_pc
  pf_apps :: nat
  pf_seen :: wifi_state

definition platform_init :: "'g eg_ops \<Rightarrow> 'g platform" where
  "platform_init E = \<lparr>pf_event = eg_init_with E 0, pf_state = Uninit, pf_evt = EIdle, pf_task = PWaiting,
     pf_apps = 0, pf_seen = Uninit\<rparr>"

text \<open>Starting panics when the task cannot be spawned; stopping does nothing.\<close>

definition app_start :: "bool \<Rightarrow> 'g platform \<Rightarrow> 'g platform" where
  "app_start spawned s = (if spawned then s\<lparr>pf_apps := pf_apps s + 1, pf_task := PWaiting\<rparr> else s\<lparr>pf_task := PPanicked\<rparr>)"

definition app_stop :: "'g platform \<Rightarrow> 'g platform" where
  "app_stop s = s\<lparr>pf_task := PWaiting\<rparr>"

definition platform_act :: "bool \<Rightarrow> wifi_state \<Rightarrow> 'g platform \<Rightarrow> 'g platform" where
  "platform_act spawned st s =
     (case st of
        Online \<Rightarrow> app_start spawned (s\<lparr>pf_seen := st\<rparr>)
      | Disconnected \<Rightarrow> app_stop (s\<lparr>pf_seen := st\<rparr>)
      | _ \<Rightarrow> s\<lparr>pf_seen := st, pf_task := PWaiting\<rparr>)"

text \<open>
  The handler that stores a state is either of the two above; both run on the one event task, so one
  handler ends before the next begins.
\<close>

inductive platform_step :: "(i32 \<Rightarrow> wifi_state option) list \<Rightarrow> 'g eg_ops \<Rightarrow> 'g platform \<Rightarrow> 'g platform \<Rightarrow> bool"
  for handlers E where
  pf_store: "pf_evt s = EIdle \<Longrightarrow> handler \<in> set handlers \<Longrightarrow> handler msg = Some st \<Longrightarrow>
    platform_step handlers E s (s\<lparr>pf_state := st, pf_evt := ERaise\<rparr>)"
| pf_raise: "pf_evt s = ERaise \<Longrightarrow>
    platform_step handlers E s (s\<lparr>pf_event := snd (eg_set E EVENT_WIFI (pf_event s)), pf_evt := EIdle\<rparr>)"
| pf_wake: "pf_task s = PWaiting \<Longrightarrow> eg_wait_for_any_and_clear E EVENT_ALL (pf_event s) = Some (events, g) \<Longrightarrow>
    platform_step handlers E s
      (s\<lparr>pf_event := g, pf_task := (if eg_contains events EVENT_WIFI then PLoad else PWaiting)\<rparr>)"
| pf_load: "pf_task s = PLoad \<Longrightarrow> platform_step handlers E s (s\<lparr>pf_task := PAct (pf_state s)\<rparr>)"
| pf_acts: "pf_task s = PAct st \<Longrightarrow> platform_step handlers E s (platform_act spawned st s)"

inductive platform_reach :: "(i32 \<Rightarrow> wifi_state option) list \<Rightarrow> 'g eg_ops \<Rightarrow> 'g platform \<Rightarrow> bool"
  for handlers E where
  platform_reach_init: "platform_reach handlers E (platform_init E)"
| platform_reach_step: "platform_reach handlers E s \<Longrightarrow> platform_step handlers E s s' \<Longrightarrow> platform_reach handlers E s'"

subsection \<open>Invariant\<close>

text \<open>The news is on its way to the platform task.\<close>

definition underway :: "('g \<Rightarrow> u32) \<Rightarrow> 'g platform \<Rightarrow> bool" where
  "underway bits s \<longleftrightarrow> pf_evt s = ERaise \<or> bits (pf_event s) AND EVENT_ALL \<noteq> 0"

definition platform_inv :: "('g \<Rightarrow> u32) \<Rightarrow> 'g platform \<Rightarrow> bool" where
  "platform_inv bits s \<longleftrightarrow>
     underway bits s \<or>
     (case pf_task s of
        PWaiting \<Rightarrow> pf_seen s = pf_state s
      | PLoad \<Rightarrow> True
      | PAct st \<Rightarrow> st = pf_state s
      | PPanicked \<Rightarrow> True)"

lemma event_all_contains: "b AND EVENT_ALL \<noteq> 0 \<Longrightarrow> eg_contains b EVENT_WIFI"
  by (auto simp: eg_contains_def EVENT_ALL_def EVENT_WIFI_def and_one_eq)

lemma event_raised: "(b OR EVENT_WIFI) AND EVENT_ALL \<noteq> 0"
  by (simp add: EVENT_ALL_def EVENT_WIFI_def and_one_eq odd_iff_mod_2_eq_one [symmetric] even_or_iff)

lemma platform_act_fields [simp]:
  "pf_event (platform_act spawned st s) = pf_event s" "pf_state (platform_act spawned st s) = pf_state s"
  "pf_evt (platform_act spawned st s) = pf_evt s" "pf_seen (platform_act spawned st s) = st"
  by (cases st; simp add: platform_act_def app_start_def app_stop_def)+

lemma platform_act_task: "pf_task (platform_act spawned st s) = PWaiting \<or> pf_task (platform_act spawned st s) = PPanicked"
  by (cases st) (simp_all add: platform_act_def app_start_def app_stop_def)

lemma platform_inv_step:
  assumes "eg_laws E bits"
  shows "platform_step handlers E s s' \<Longrightarrow> platform_inv bits s \<Longrightarrow> platform_inv bits s'"
proof (induction rule: platform_step.induct)
  case (pf_store s handler msg st)
  then show ?case by (simp add: platform_inv_def underway_def)
next
  case (pf_raise s)
  then show ?case
    by (simp add: platform_inv_def underway_def eg_ops_spec [OF assms] event_raised)
next
  case (pf_wake s events g)
  have "eg_contains events EVENT_WIFI"
    using eg_wait_any_spec(2) [OF assms pf_wake.hyps(2)] event_all_contains by blast
  then show ?case by (simp add: platform_inv_def)
next
  case (pf_load s)
  then show ?case by (simp add: platform_inv_def underway_def)
next
  case (pf_acts s st spawned)
  then show ?case
    using platform_act_task [of spawned st s] by (auto simp: platform_inv_def underway_def)
qed

lemma platform_reach_inv:
  assumes "eg_laws E bits"
  shows "platform_reach handlers E s \<Longrightarrow> platform_inv bits s"
proof (induction rule: platform_reach.induct)
  case platform_reach_init
  show ?case by (simp add: platform_inv_def platform_init_def)
next
  case (platform_reach_step s s')
  then show ?case using platform_inv_step [OF assms] by blast
qed

lemma platform_run:
  assumes "platform_reach hs E s" "platform_step hs E s s'" "s' = s''"
  shows "platform_reach hs E s''"
  using assms by (blast intro: platform_reach_step)

text \<open>One change of state, from the handler to the application, when both threads are at rest.\<close>

lemma platform_round:
  assumes "eg_laws E bits" "platform_reach hs E s" "pf_evt s = EIdle" "pf_task s = PWaiting"
    and "handler \<in> set hs" "handler msg = Some st"
  shows "\<exists>g. platform_reach hs E (platform_act True st (s\<lparr>pf_state := st, pf_event := g, pf_task := PAct st\<rparr>))
    \<and> bits g AND EVENT_ALL = 0"
proof -
  let ?g1 = "snd (eg_set E EVENT_WIFI (pf_event s))"
  have "bits ?g1 AND EVENT_ALL \<noteq> 0" by (simp add: eg_ops_spec [OF assms(1)] event_raised)
  then obtain events g where w: "eg_wait_for_any_and_clear E EVENT_ALL ?g1 = Some (events, g)"
    using eg_wait_any_spec(1) [OF assms(1), of EVENT_ALL ?g1] by auto
  from eg_wait_any_spec(2) [OF assms(1) this]
  have c: "eg_contains events EVENT_WIFI" and g: "bits g AND EVENT_ALL = 0"
    by (auto intro: event_all_contains simp: word_bw_assocs and.assoc)
  have r1: "platform_reach hs E (s\<lparr>pf_state := st, pf_evt := ERaise\<rparr>)"
    by (rule platform_run [OF assms(2) pf_store [OF assms(3,5,6)]]) simp
  have r2: "platform_reach hs E (s\<lparr>pf_state := st, pf_evt := EIdle, pf_event := ?g1\<rparr>)"
    by (rule platform_run [OF r1 pf_raise]) simp_all
  have r3: "platform_reach hs E (s\<lparr>pf_state := st, pf_evt := EIdle, pf_event := g, pf_task := PLoad\<rparr>)"
    by (rule platform_run [OF r2 pf_wake [of _ _ events g]]) (simp_all add: assms(4) w c)
  have r4: "platform_reach hs E (s\<lparr>pf_state := st, pf_evt := EIdle, pf_event := g, pf_task := PAct st\<rparr>)"
    by (rule platform_run [OF r3 pf_load]) simp_all
  have "s\<lparr>pf_state := st, pf_evt := EIdle, pf_event := g, pf_task := PAct st\<rparr>
      = s\<lparr>pf_state := st, pf_event := g, pf_task := PAct st\<rparr>"
    using assms(3) by simp
  then have "platform_reach hs E (platform_act True st (s\<lparr>pf_state := st, pf_event := g, pf_task := PAct st\<rparr>))"
    using platform_run [OF r4 pf_acts [of _ st _ _ True]] by simp
  then show ?thesis using g by blast
qed

subsection \<open>Properties\<close>

text \<open>C36: no change of the wifi's state is missed: events may be merged, but whenever the handlers are done
  and the platform task would block, what it last acted on is the current state.\<close>

theorem wifi_state_never_missed:
  assumes "eg_laws E bits" "platform_reach handlers E s"
    and "pf_evt s = EIdle" "pf_task s = PWaiting" "eg_wait_for_any_and_clear E EVENT_ALL (pf_event s) = None"
  shows "pf_seen s = pf_state s"
  using platform_reach_inv [OF assms(1,2)] assms(3-5) eg_wait_any_spec(1) [OF assms(1)]
  by (simp add: platform_inv_def underway_def)

definition platform_example :: "(i32 \<Rightarrow> wifi_state option) list" where
  "platform_example = [on_wifi_event 2 5, on_ip_event 0]"

theorem wifi_state_never_missed_witness:
  "\<exists>s :: u32 platform. platform_reach platform_example word_eg s \<and> pf_apps s = 1 \<and> pf_state s = Online \<and> pf_seen s = Online"
proof -
  let ?s = "\<lambda>g. platform_act True Online ((platform_init word_eg)\<lparr>pf_state := Online, pf_event := g, pf_task := PAct Online\<rparr>)"
  have "\<exists>g. platform_reach platform_example word_eg (?s g) \<and> g AND EVENT_ALL = 0"
    by (rule platform_round [OF word_eg_laws platform_reach_init, where handler = "on_ip_event 0" and msg = 0])
      (simp_all add: platform_init_def platform_example_def on_ip_event_def)
  then obtain g where g: "platform_reach platform_example word_eg (?s g)" "g AND EVENT_ALL = 0" by blast
  have "pf_seen (?s g) = pf_state (?s g)"
    by (rule wifi_state_never_missed [OF word_eg_laws g(1)])
      (simp_all add: platform_act_def app_start_def platform_init_def eg_wait_any_spec(1) [OF word_eg_laws] g(2))
  then show ?thesis using g(1)
    by (intro exI [of _ "?s g"]) (simp add: platform_act_def app_start_def platform_init_def)
qed

text \<open>An application task is started each time the wifi is back online, and the old one is not
  stopped: after going online, offline and online again, two have been started.\<close>

theorem reconnect_starts_second_app:
  assumes "eg_laws E bits" "wifi_handler \<in> set handlers" "ip_handler \<in> set handlers"
    and "wifi_handler lost = Some Disconnected" "ip_handler got_ip = Some Online"
  shows "\<exists>s. platform_reach handlers E s \<and> pf_task s = PWaiting \<and> pf_state s = Online \<and> pf_apps s = 2"
proof -
  note act = platform_act_def app_start_def app_stop_def
  obtain g1 where r1: "platform_reach handlers E (platform_act True Online ((platform_init E)\<lparr>pf_state := Online, pf_event := g1, pf_task := PAct Online\<rparr>))"
    using platform_round [OF assms(1) platform_reach_init _ _ assms(3,5)] by (auto simp: platform_init_def)
  let ?s1 = "platform_act True Online ((platform_init E)\<lparr>pf_state := Online, pf_event := g1, pf_task := PAct Online\<rparr>)"
  have s1: "pf_evt ?s1 = EIdle" "pf_task ?s1 = PWaiting" "pf_apps ?s1 = 1" by (simp_all add: act platform_init_def)
  obtain g2 where r2: "platform_reach handlers E (platform_act True Disconnected (?s1\<lparr>pf_state := Disconnected, pf_event := g2, pf_task := PAct Disconnected\<rparr>))"
    using platform_round [OF assms(1) r1 s1(1,2) assms(2,4)] by blast
  let ?s2 = "platform_act True Disconnected (?s1\<lparr>pf_state := Disconnected, pf_event := g2, pf_task := PAct Disconnected\<rparr>)"
  have s2: "pf_evt ?s2 = EIdle" "pf_task ?s2 = PWaiting" "pf_apps ?s2 = 1" using s1 by (simp_all add: act)
  obtain g3 where "platform_reach handlers E (platform_act True Online (?s2\<lparr>pf_state := Online, pf_event := g3, pf_task := PAct Online\<rparr>))"
    using platform_round [OF assms(1) r2 s2(1,2) assms(3,5)] by blast
  then show ?thesis using s2(3) by (intro exI conjI) (assumption, simp_all add: act)
qed

theorem reconnect_starts_second_app_witness:
  "\<exists>s :: u32 platform. platform_reach platform_example word_eg s \<and> pf_task s = PWaiting \<and> pf_state s = Online \<and> pf_apps s = 2"
  by (rule reconnect_starts_second_app [OF word_eg_laws,
      where wifi_handler = "on_wifi_event 2 5" and ip_handler = "on_ip_event 0" and lost = 5 and got_ip = 0])
    (simp_all add: platform_example_def on_ip_event_def on_wifi_event_def)

end
