(* ===== verification/Boot.thy ===== *)
theory Boot
  imports Platform
begin

text \<open>
  The start of the firmware (\<^verbatim>\<open>app_main\<close> of \<^verbatim>\<open>src/main.rs\<close> and what it calls): the order of its effects, and
  which failures end it.
\<close>

datatype boot_call =
    UartInstall
  | UartUseDriver
  | SetLogger
  | SetMaxLevel
  | PrintLogo
  | LogLine string
  | SpawnStats
  | InitEventGroup
  | EventLoopCreate
  | NvsFlashInit
  | WifiCall wifi_call
  | SpawnPlatform

text \<open>A part of the boot makes calls and ends or panics; \<open>ok\<close> says which calls succeed.\<close>

type_synonym boot = "boot_call list \<times> unit outcome"

fun boot_then :: "boot \<Rightarrow> boot \<Rightarrow> boot" where
  "boot_then (calls, Ok _) (calls', r) = (calls @ calls', r)"
| "boot_then (calls, Panic e) _ = (calls, Panic e)"

definition effect :: "boot_call \<Rightarrow> boot" where
  "effect call = ([call], Ok ())"

definition expect :: "(boot_call \<Rightarrow> bool) \<Rightarrow> boot_call \<Rightarrow> boot" where
  "expect ok call = ([call], if ok call then Ok () else Panic UnwrapFailed)"

text \<open>An error that is only logged.\<close>

definition logged :: "(boot_call \<Rightarrow> bool) \<Rightarrow> boot_call \<Rightarrow> string \<Rightarrow> boot" where
  "logged ok call message = (if ok call then [call] else [call, LogLine message], Ok ())"

definition init_uart0 :: "(boot_call \<Rightarrow> bool) \<Rightarrow> boot" where
  "init_uart0 ok = boot_then (expect ok UartInstall) (effect UartUseDriver)"

definition log_init :: "(boot_call \<Rightarrow> bool) \<Rightarrow> boot" where
  "log_init ok = boot_then (expect ok SetLogger) (effect SetMaxLevel)"

definition system_init :: "(boot_call \<Rightarrow> bool) \<Rightarrow> boot" where
  "system_init ok = boot_then (init_uart0 ok) (boot_then (log_init ok) (effect PrintLogo))"

text \<open>The task monitor's start is commented out.\<close>

definition top_start :: boot where
  "top_start = ([], Ok ())"

definition stats_start :: "(boot_call \<Rightarrow> bool) \<Rightarrow> boot" where
  "stats_start ok = expect ok SpawnStats"

definition eventloop_init :: "(boot_call \<Rightarrow> bool) \<Rightarrow> boot" where
  "eventloop_init ok = logged ok EventLoopCreate ''esp_event_loop_create_default failed''"

definition nvs_init :: "(boot_call \<Rightarrow> bool) \<Rightarrow> boot" where
  "nvs_init ok = logged ok NvsFlashInit ''nvs_flash_init failed''"

definition platform_boot :: "wifi_sys \<Rightarrow> (boot_call \<Rightarrow> bool) \<Rightarrow> (nat \<Rightarrow> bool) \<Rightarrow> boot" where
  "platform_boot W ok wifi_ok =
     boot_then (effect InitEventGroup)
    (boot_then (eventloop_init ok)
    (boot_then (nvs_init ok)
    (boot_then (map WifiCall (wifi_init W wifi_ok), Ok ())
               (expect ok SpawnPlatform))))"

definition app_main :: "wifi_sys \<Rightarrow> (boot_call \<Rightarrow> bool) \<Rightarrow> (nat \<Rightarrow> bool) \<Rightarrow> boot" where
  "app_main W ok wifi_ok =
     boot_then (system_init ok)
    (boot_then (effect (LogLine ''System initialized''))
    (boot_then top_start
    (boot_then (stats_start ok)
    (boot_then (platform_boot W ok wifi_ok)
               (effect (LogLine ''Platform initialized''))))))"

definition fatal :: "boot_call list" where
  "fatal = [UartInstall, SetLogger, SpawnStats, SpawnPlatform]"

lemmas boot_defs = app_main_def platform_boot_def nvs_init_def eventloop_init_def stats_start_def top_start_def
  system_init_def log_init_def init_uart0_def logged_def expect_def effect_def

subsection \<open>Properties\<close>

text \<open>The boot ends normally exactly if the console, the logger and its two tasks could be made, whatever the
  wifi does; nothing is logged before the logger is set; and the event group that the wifi handlers raise
  is initialised before the first call that could attach one, so raising an event cannot panic.\<close>

lemma boot_ends: "snd (app_main W ok wifi_ok) = Ok () \<longleftrightarrow> (\<forall>call\<in>set fatal. ok call)"
  by (simp add: boot_defs fatal_def)

theorem boot_order:
  "(snd (app_main W ok wifi_ok) = Ok () \<longleftrightarrow> (\<forall>call\<in>set fatal. ok call))
   \<and> (\<forall>call\<in>set (takeWhile (\<lambda>c. c \<noteq> SetLogger) (fst (app_main W ok wifi_ok))). \<forall>line. call \<noteq> LogLine line)
   \<and> (\<forall>call\<in>set (takeWhile (\<lambda>c. c \<noteq> InitEventGroup) (fst (app_main W ok wifi_ok))). \<forall>c. call \<noteq> WifiCall c)"
  by (simp add: boot_ends) (auto simp: boot_defs takeWhile_append split: if_splits)

end
