(* ===== verification/TaskMonitor.thy ===== *)
theory TaskMonitor
  imports Format
begin

text \<open>
  The task monitor (\<^verbatim>\<open>src/system/task/top.rs\<close>): a table of the FreeRTOS tasks with the share of the
  processor that each used since the last round. What FreeRTOS says of its tasks, and the constants of
  its header, are parameters.
\<close>

subsection \<open>What FreeRTOS reports\<close>

text \<open>\<^verbatim>\<open>TaskStatus\<close>, around \<^verbatim>\<open>TaskStatus_t\<close>; the name is the memory from the name pointer on.\<close>

record task_status =
  st_number :: u32
  st_current_state :: u32
  st_core :: i32
  st_runtime :: u32
  st_priority :: u32
  st_stack_base :: usize
  st_headroom :: u32
  st_name_memory :: "u8 list"

record rtos_consts =
  tsk_no_affinity :: u32
  e_running :: u32
  e_ready :: u32
  e_blocked :: u32
  e_suspended :: u32
  e_deleted :: u32

definition consts_distinct :: "rtos_consts \<Rightarrow> bool" where
  "consts_distinct K \<longleftrightarrow> distinct [e_running K, e_ready K, e_blocked K, e_suspended K, e_deleted K]"

datatype task_state = TSReady | TSRunning | TSBlocked | TSSuspended | TSDeleted | TSInvalid

text \<open>A \<^verbatim>\<open>match\<close> tries its patterns in order.\<close>

definition task_state_from :: "rtos_consts \<Rightarrow> u32 \<Rightarrow> task_state" where
  "task_state_from K v =
     (if v = e_ready K then TSReady
      else if v = e_running K then TSRunning
      else if v = e_blocked K then TSBlocked
      else if v = e_suspended K then TSSuspended
      else if v = e_deleted K then TSDeleted
      else TSInvalid)"

definition status_state :: "rtos_consts \<Rightarrow> task_status \<Rightarrow> task_state" where
  "status_state K t = task_state_from K (st_current_state t)"

datatype core_affinity = AnyCore | Pinned u32

definition status_affinity :: "rtos_consts \<Rightarrow> task_status \<Rightarrow> core_affinity" where
  "status_affinity K t = (if st_core t = tsk_no_affinity K then AnyCore else Pinned (st_core t))"

text \<open>The conversion from an \<^verbatim>\<open>i32\<close>: what is not negative is a core.\<close>

definition core_affinity_from :: "i32 \<Rightarrow> core_affinity" where
  "core_affinity_from v = (if sint v < 0 then AnyCore else Pinned v)"

text \<open>A task's name, if it is ASCII: \<open>from_ascii\<close> is the conversion of the \<^verbatim>\<open>ascii\<close> crate.\<close>

definition status_name :: "(u8 list \<Rightarrow> string option) \<Rightarrow> task_status \<Rightarrow> string" where
  "status_name from_ascii t =
     (case from_ascii (takeWhile (\<lambda>b. b \<noteq> 0) (st_name_memory t)) of Some s \<Rightarrow> s | None \<Rightarrow> [])"

subsection \<open>Snapshots\<close>

definition MAX_TOP_TASKS :: nat where
  "MAX_TOP_TASKS = 32"

record system_state =
  ss_elapsed :: u32
  ss_tasks :: "task_status list"

text \<open>
  \<^verbatim>\<open>uxTaskGetSystemState\<close> takes the capacity of the buffer and the elapsed time's initial value, and gives
  the number of tasks, what it wrote, and the elapsed time. \<^verbatim>\<open>set_len\<close> beyond what was written is
  undefined behaviour, here \<^const>\<open>None\<close>.
\<close>

type_synonym state_call = "u32 \<Rightarrow> u32 \<Rightarrow> u32 \<times> task_status list \<times> u32"

definition get_system_state :: "state_call \<Rightarrow> system_state option" where
  "get_system_state call =
     (case call (of_nat MAX_TOP_TASKS) 0 of
        (ntasks, written, elapsed) \<Rightarrow>
          if unat ntasks \<le> MAX_TOP_TASKS \<and> unat ntasks \<le> length written
          then Some \<lparr>ss_elapsed = elapsed, ss_tasks = take (unat ntasks) written\<rparr>
          else None)"

text \<open>FreeRTOS documents that a buffer that is too small gives 0 and is left alone.\<close>

definition state_call_laws :: "state_call \<Rightarrow> task_status list \<Rightarrow> u32 \<Rightarrow> bool" where
  "state_call_laws call tasks uptime \<longleftrightarrow> length tasks < 2 ^ 32 \<and>
     (\<forall>cap elapsed. call cap elapsed =
        (if length tasks \<le> unat cap then (of_nat (length tasks), tasks, uptime) else (0, [], elapsed)))"

subsection \<open>Text\<close>

text \<open>\<^verbatim>\<open>LowerHex\<close> of the stack's address.\<close>

definition stack_base_text :: "usize \<Rightarrow> string" where
  "stack_base_text v = text_base 16 (unat v)"

fun affinity_text :: "core_affinity \<Rightarrow> string" where
  "affinity_text AnyCore = ''*''"
| "affinity_text (Pinned core) = decimal core"

fun state_text :: "task_state \<Rightarrow> string" where
  "state_text TSReady = ''ready''"
| "state_text TSRunning = ''running''"
| "state_text TSBlocked = ''blocked''"
| "state_text TSSuspended = ''suspend''"
| "state_text TSDeleted = ''deleted''"
| "state_text TSInvalid = []"

text \<open>The cells of a row.\<close>

record cells =
  ce_id :: string
  ce_state :: string
  ce_affinity :: string
  ce_priority :: string
  ce_name :: string
  ce_cpu :: string
  ce_stack :: string
  ce_headroom :: string

definition print_task :: "cells \<Rightarrow> string" where
  "print_task c =
     pad_left 4 (ce_id c) @ ''  '' @ pad_right 7 (ce_state c) @ ''  '' @ pad_left 3 (ce_affinity c) @ ''  '' @
     pad_left 4 (ce_priority c) @ ''  '' @ pad_right 16 (ce_name c) @ ''  '' @ pad_left 4 (ce_cpu c) @ ''  '' @
     pad_left 8 (ce_stack c) @ ''  '' @ pad_left 8 (ce_headroom c)"

definition header_cells :: cells where
  "header_cells = \<lparr>ce_id = ''ID'', ce_state = ''STATE'', ce_affinity = ''AFF'', ce_priority = ''PRIO'', ce_name = ''NAME'',
     ce_cpu = ''CPU%'', ce_stack = ''STACK'', ce_headroom = ''HEADROOM''\<rparr>"

definition task_cells :: "rtos_consts \<Rightarrow> (u8 list \<Rightarrow> string option) \<Rightarrow> task_status \<Rightarrow> u32 \<Rightarrow> cells" where
  "task_cells K from_ascii t cpu =
     \<lparr>ce_id = decimal (st_number t), ce_state = state_text (status_state K t),
      ce_affinity = affinity_text (status_affinity K t), ce_priority = decimal (st_priority t),
      ce_name = status_name from_ascii t, ce_cpu = decimal cpu, ce_stack = stack_base_text (st_stack_base t),
      ce_headroom = decimal (st_headroom t)\<rparr>"

subsection \<open>Rounds\<close>

definition prev_ticks :: "system_state \<Rightarrow> task_status \<Rightarrow> u32" where
  "prev_ticks prev t =
     (case find (\<lambda>t'. st_number t' = st_number t) (ss_tasks prev) of Some t' \<Rightarrow> st_runtime t' | None \<Rightarrow> 0)"

definition cpu_pct :: "profile \<Rightarrow> system_state \<Rightarrow> system_state \<Rightarrow> task_status \<Rightarrow> u32 outcome" where
  "cpu_pct p prev now t =
     bind_outcome (sub_word p (ss_elapsed now) (ss_elapsed prev)) (\<lambda>elapsed.
     bind_outcome (sub_word p (st_runtime t) (prev_ticks prev t)) (\<lambda>ticks.
     bind_outcome (mul_word p ticks 100) (\<lambda>scaled. div_word scaled elapsed)))"

fun print_rows ::
    "profile \<Rightarrow> rtos_consts \<Rightarrow> (u8 list \<Rightarrow> string option) \<Rightarrow> system_state \<Rightarrow> system_state \<Rightarrow> task_status list \<Rightarrow>
     string outcome" where
  "print_rows p K from_ascii prev now [] = Ok []"
| "print_rows p K from_ascii prev now (t # ts) =
     bind_outcome (cpu_pct p prev now t) (\<lambda>cpu.
     bind_outcome (print_rows p K from_ascii prev now ts) (\<lambda>rest.
       Ok (print_task (task_cells K from_ascii t cpu) @ [CHR 0x0A] @ rest)))"

text \<open>One round: the text of the screen and the state that the next round compares with.\<close>

definition screen_text :: "string \<Rightarrow> string" where
  "screen_text rows =
     CHR 0x1B # ''[s'' @ CHR 0x1B # ''[0;0H'' @ CHR 0x1B # ''[104;30m'' @ print_task header_cells
       @ CHR 0x1B # ''[0m'' @ [CHR 0x0A] @ rows @ CHR 0x1B # ''[u''"

definition monitor_round ::
    "profile \<Rightarrow> rtos_consts \<Rightarrow> (u8 list \<Rightarrow> string option) \<Rightarrow> system_state \<Rightarrow> system_state \<Rightarrow> string outcome" where
  "monitor_round p K from_ascii prev now =
     bind_outcome (print_rows p K from_ascii prev now (ss_tasks now)) (\<lambda>rows.
Ok (screen_text rows))"

fun monitor_rounds ::
    "profile \<Rightarrow> rtos_consts \<Rightarrow> (u8 list \<Rightarrow> string option) \<Rightarrow> state_call list \<Rightarrow> system_state \<Rightarrow> string outcome option" where
  "monitor_rounds p K from_ascii [] prev = Some (Ok [])"
| "monitor_rounds p K from_ascii (call # calls) prev =
     Option.bind (get_system_state call) (\<lambda>now.
       case monitor_round p K from_ascii prev now of
         Panic e \<Rightarrow> Some (Panic e)
       | Ok screen \<Rightarrow> map_option (\<lambda>r. bind_outcome r (\<lambda>rest. Ok (screen @ rest))) (monitor_rounds p K from_ascii calls now))"

fun monitor_task ::
    "profile \<Rightarrow> rtos_consts \<Rightarrow> (u8 list \<Rightarrow> string option) \<Rightarrow> state_call list \<Rightarrow> string outcome option" where
  "monitor_task p K from_ascii [] = Some (Ok [])"
| "monitor_task p K from_ascii (call # calls) =
     Option.bind (get_system_state call) (monitor_rounds p K from_ascii calls)"

subsection \<open>Lemmas\<close>

lemma get_system_state_spec:
  assumes "state_call_laws call tasks uptime"
  shows "get_system_state call = Some (if length tasks \<le> MAX_TOP_TASKS then \<lparr>ss_elapsed = uptime, ss_tasks = tasks\<rparr>
    else \<lparr>ss_elapsed = 0, ss_tasks = []\<rparr>)"
  using assms by (auto simp: get_system_state_def state_call_laws_def MAX_TOP_TASKS_def unat_of_nat)

text \<open>Wrapped or not, the difference of two counters is the number of ticks between them.\<close>

lemma sub_word_of_nat:
  assumes "n < 2 ^ 32"
  shows "sub_word p (a + of_nat n) (a :: u32) =
    (if p = Dev \<and> 2 ^ 32 \<le> unat a + n then Panic ArithmeticOverflow else Ok (of_nat n))"
proof -
  have n: "unat (of_nat n :: u32) = n" using assms by (simp add: unat_of_nat)
  have "a + of_nat n < a \<longleftrightarrow> 2 ^ 32 \<le> unat a + n"
    using n unat_bounds(3) [of a] assms
    by (auto simp: word_less_nat_alt unat_word_ariths mod_if)
  then show ?thesis by (simp add: sub_word_def)
qed

lemma cpu_pct_share:
  assumes "ss_elapsed now = ss_elapsed prev + of_nat E" "0 < E" "E * 100 < 2 ^ 32"
    and "st_runtime t = prev_ticks prev t + of_nat used" "used \<le> E"
  shows "cpu_pct p prev now t =
    (if p = Dev \<and> (2 ^ 32 \<le> unat (ss_elapsed prev) + E \<or> 2 ^ 32 \<le> unat (prev_ticks prev t) + used)
     then Panic ArithmeticOverflow else Ok (of_nat (used * 100 div E)))"
proof -
  have less: "E < 2 ^ 32" "used < 2 ^ 32" "used * 100 < 2 ^ 32" using assms by simp_all
  have of_nat: "unat (of_nat m :: u32) = m" if "m < 2 ^ 32" for m using that by (simp add: unat_of_nat)
  note nat = of_nat [OF less(1)] of_nat [OF less(2)] of_nat [OF less(3)]
  have mul: "mul_word p (of_nat used :: u32) 100 = Ok (of_nat (used * 100))"
    using nat(2) less(3) by (simp add: mul_word_def)
  have nonzero: "(of_nat E :: u32) \<noteq> 0" using nat(1) assms(2) by (metis less_numeral_extra(3) unat_0)
  have "unat ((of_nat (used * 100) :: u32) div of_nat E) = used * 100 div E"
    using nat(1,3) unfolding unat_div by metis
  moreover have "unat (of_nat (used * 100 div E) :: u32) = used * 100 div E"
    using less(3) by (intro of_nat) (meson div_le_dividend le_less_trans)
  ultimately have "(of_nat (used * 100) :: u32) div of_nat E = of_nat (used * 100 div E)"
    by (simp only: word_unat_eq_iff)
  with nonzero have "div_word (of_nat (used * 100) :: u32) (of_nat E) = Ok (of_nat (used * 100 div E))"
    by (simp add: div_word_def)
  then show ?thesis
    using sub_word_of_nat [OF less(1), of p "ss_elapsed prev"] sub_word_of_nat [OF less(2), of p "prev_ticks prev t"]
      assms(1,4) mul by (cases p) (auto simp: cpu_pct_def)
qed

definition row_text ::
    "rtos_consts \<Rightarrow> (u8 list \<Rightarrow> string option) \<Rightarrow> (task_status \<Rightarrow> u32) \<Rightarrow> task_status \<Rightarrow> string" where
  "row_text K from_ascii cpu t = print_task (task_cells K from_ascii t (cpu t)) @ [CHR 0x0A]"

lemma print_rows_shares:
  assumes "\<And>t. t \<in> set ts \<Longrightarrow> cpu_pct p prev now t = (if bad t then Panic ArithmeticOverflow else Ok (cpu t))"
  shows "print_rows p K from_ascii prev now ts =
    (if \<exists>t\<in>set ts. bad t then Panic ArithmeticOverflow else Ok (concat (map (row_text K from_ascii cpu) ts)))"
  using assms by (induction ts) (auto simp: row_text_def)

text \<open>The rows line up with the header as long as no value is wider than its column.\<close>

lemma length_stack_base_text: "length (stack_base_text v) \<le> 8"
  using unat_bounds(3) [of v] by (simp add: stack_base_text_def length_text_base)

lemma length_state_text: "length (state_text s) \<le> 7"
  by (cases s) simp_all

lemma print_task_aligned:
  assumes "unat (st_number t) < 10 ^ 4" "unat (st_priority t) < 10 ^ 4" "unat cpu < 10 ^ 4" "unat (st_headroom t) < 10 ^ 8"
    and "status_affinity K t = AnyCore \<or> unat (st_core t) < 10 ^ 3" "length (status_name from_ascii t) \<le> 16"
  shows "length (print_task (task_cells K from_ascii t cpu)) = length (print_task header_cells)"
proof -
  have "length (affinity_text (status_affinity K t)) \<le> 3"
    using assms(5) length_decimal [of 3 "st_core t"] by (auto simp: status_affinity_def)
  then show ?thesis
    using length_decimal [of 4 "st_number t"] length_decimal [of 4 "st_priority t"] length_decimal [of 4 cpu]
      length_decimal [of 8 "st_headroom t"] length_state_text [of "status_state K t"]
      length_stack_base_text [of "st_stack_base t"] assms
    by (simp add: print_task_def task_cells_def header_cells_def length_pad max_def)
qed

text \<open>Where the two ways to an affinity agree.\<close>

lemma affinity_from_agrees:
  assumes "tsk_no_affinity K = 0x7FFFFFFF"
  shows "status_affinity K t = core_affinity_from (st_core t) \<longleftrightarrow> 0 \<le> sint (st_core t) \<and> st_core t \<noteq> 0x7FFFFFFF"
  using assms by (auto simp: status_affinity_def core_affinity_from_def)

subsection \<open>Properties\<close>

text \<open>A round shows of each task the percentage of the interval's ticks that it used, rounded down and at
  most 100: in the release profile also when a counter wrapped around in the interval, while in the dev
  profile the round in which one wraps panics.\<close>

theorem monitor_round_shares:
  assumes "state_call_laws call tasks uptime" "length tasks \<le> MAX_TOP_TASKS"
    and "uptime = ss_elapsed prev + of_nat E" "0 < E" "E * 100 < 2 ^ 32"
    and "\<forall>t\<in>set tasks. st_runtime t = prev_ticks prev t + of_nat (used t) \<and> used t \<le> E"
  shows "\<exists>now. get_system_state call = Some now \<and> ss_tasks now = tasks
    \<and> monitor_round p K from_ascii prev now =
      (if p = Dev \<and> (\<exists>t\<in>set tasks. 2 ^ 32 \<le> unat (ss_elapsed prev) + E \<or> 2 ^ 32 \<le> unat (prev_ticks prev t) + used t)
       then Panic ArithmeticOverflow
       else Ok (screen_text (concat (map (row_text K from_ascii (\<lambda>t. of_nat (used t * 100 div E))) tasks))))
    \<and> (\<forall>t\<in>set tasks. used t * 100 div E \<le> 100)"
proof -
  let ?now = "\<lparr>ss_elapsed = uptime, ss_tasks = tasks\<rparr>"
  let ?bad = "\<lambda>t. p = Dev \<and> (2 ^ 32 \<le> unat (ss_elapsed prev) + E \<or> 2 ^ 32 \<le> unat (prev_ticks prev t) + used t)"
  have "cpu_pct p prev ?now t = (if ?bad t then Panic ArithmeticOverflow else Ok (of_nat (used t * 100 div E)))"
    if "t \<in> set tasks" for t
    using cpu_pct_share [of ?now prev E t "used t" p] assms(3-6) that by simp
  from print_rows_shares [of tasks p prev ?now ?bad, OF this]
  have "monitor_round p K from_ascii prev ?now = (if \<exists>t\<in>set tasks. ?bad t then Panic ArithmeticOverflow
      else Ok (screen_text (concat (map (row_text K from_ascii (\<lambda>t. of_nat (used t * 100 div E))) tasks))))"
    by (simp add: monitor_round_def)
  moreover have "used t * 100 div E \<le> 100" if "t \<in> set tasks" for t
  proof -
    have "used t * 100 div E \<le> E * 100 div E" using assms(6) that by (intro div_le_mono mult_le_mono1) simp
    then show ?thesis using assms(4) by simp
  qed
  ultimately show ?thesis using get_system_state_spec [OF assms(1)] assms(2) by auto
qed

text \<open>A tick of one microsecond and two tasks, one of which wrapped its counter.\<close>

definition example_status :: "u32 \<Rightarrow> u32 \<Rightarrow> task_status" where
  "example_status n ticks = \<lparr>st_number = n, st_current_state = 1, st_core = 0, st_runtime = ticks, st_priority = 5,
     st_stack_base = 0x3FFB0000, st_headroom = 512, st_name_memory = [105, 100, 108, 101, 0]\<rparr>"

definition example_call :: "task_status list \<Rightarrow> u32 \<Rightarrow> state_call" where
  "example_call tasks uptime = (\<lambda>cap elapsed.
     if length tasks \<le> unat cap then (of_nat (length tasks), tasks, uptime) else (0, [], elapsed))"

definition example_prev :: system_state where
  "example_prev = \<lparr>ss_elapsed = 5000, ss_tasks = [example_status 1 (- 100), example_status 2 7]\<rparr>"

definition example_consts :: rtos_consts where
  "example_consts = \<lparr>tsk_no_affinity = 0x7FFFFFFF, e_running = 0, e_ready = 1, e_blocked = 2, e_suspended = 3, e_deleted = 4\<rparr>"

theorem monitor_round_shares_witness:
  "(\<exists>now. get_system_state (example_call [example_status 1 150, example_status 2 257] 6000) = Some now
      \<and> monitor_round Release example_consts (\<lambda>_. None) example_prev now =
        Ok (screen_text (concat (map (row_text example_consts (\<lambda>_. None) (\<lambda>_. 25)) (ss_tasks now)))))
    \<and> (\<exists>now. get_system_state (example_call [example_status 1 150, example_status 2 257] 6000) = Some now
      \<and> monitor_round Dev example_consts (\<lambda>_. None) example_prev now = Panic ArithmeticOverflow)"
proof -
  let ?tasks = "[example_status 1 150, example_status 2 257]"
  have laws: "state_call_laws (example_call ?tasks 6000) ?tasks 6000" by (simp add: state_call_laws_def example_call_def)
  have small: "length ?tasks \<le> MAX_TOP_TASKS" by (simp add: MAX_TOP_TASKS_def)
  have up: "6000 = ss_elapsed example_prev + of_nat 1000" by (simp add: example_prev_def)
  have used: "\<forall>t\<in>set ?tasks. st_runtime t = prev_ticks example_prev t + of_nat 250 \<and> 250 \<le> (1000 :: nat)"
    by (simp add: prev_ticks_def example_prev_def example_status_def)
  have wraps: "\<exists>t\<in>set ?tasks. 2 ^ 32 \<le> unat (ss_elapsed example_prev) + 1000 \<or> 2 ^ 32 \<le> unat (prev_ticks example_prev t) + 250"
    by (simp add: prev_ticks_def example_prev_def example_status_def)
  note round = monitor_round_shares [OF laws small up _ _ used, simplified, of _ example_consts "\<lambda>_. None"]
  show ?thesis using round [of Release] round [of Dev] wraps by fastforce
qed

text \<open>After a round with more tasks than fit, the next one takes the ticks since the start for the interval: in
  the dev profile it panics as soon as one task has used \<open>2 ^ 32 / 100\<close> of them.\<close>

lemma monitor_panics_after_full_round:
  assumes "state_call_laws full many uptime" "MAX_TOP_TASKS < length many"
    and "state_call_laws call tasks uptime'" "length tasks \<le> MAX_TOP_TASKS" "uptime' \<noteq> 0"
    and "t \<in> set tasks" "2 ^ 32 \<le> unat (st_runtime t) * 100"
  shows "monitor_task Dev K from_ascii [full, call] = Some (Panic ArithmeticOverflow)"
proof -
  let ?prev = "\<lparr>ss_elapsed = 0, ss_tasks = []\<rparr>" and ?now = "\<lparr>ss_elapsed = uptime', ss_tasks = tasks\<rparr>"
  let ?bad = "\<lambda>t. 2 ^ 32 \<le> unat (st_runtime t) * 100"
  have "cpu_pct Dev ?prev ?now t = (if ?bad t then Panic ArithmeticOverflow else Ok (st_runtime t * 100 div uptime'))" for t
    using assms(5) by (simp add: cpu_pct_def sub_word_def mul_word_def div_word_def prev_ticks_def)
  from print_rows_shares [of tasks Dev ?prev ?now ?bad, OF this]
  have "monitor_round Dev K from_ascii ?prev ?now = Panic ArithmeticOverflow"
    using assms(6,7) by (auto simp: monitor_round_def)
  then show ?thesis
    using get_system_state_spec [OF assms(1)] get_system_state_spec [OF assms(3)] assms(2,4) by simp
qed

end
