(* ===== verification/StreamBuffer.thy ===== *)
theory StreamBuffer
  imports Heap Waker TwoSided
begin

text \<open>
  The byte stream between a task and an interrupt (\<^verbatim>\<open>src/sync/streambuffer.rs\<close>): a header with two positions,
  in one allocation with its bytes. No module of the crate includes the file, and its \<^verbatim>\<open>read_internal\<close> uses a
  name that it does not define, which is a parameter here. Between two writes the reader may be anywhere.
\<close>

subsection \<open>State\<close>

definition STREAM_TX_ALIVE :: u32 where "STREAM_TX_ALIVE = 1"
definition STREAM_RX_ALIVE :: u32 where "STREAM_RX_ALIVE = 2"
definition HEADER_SIZE :: nat where "HEADER_SIZE = 20"
definition HEADER_ALIGN :: nat where "HEADER_ALIGN = 4"

record stream_header =
  sh_notify :: waker_set
  sh_reader :: usize
  sh_writer :: usize
  sh_flags :: u32
  sh_length :: usize

text \<open>The header, and the bytes behind it.\<close>

record stream_shared =
  ss_header :: stream_header
  ss_buffer :: "u8 list"

subsection \<open>Allocation and end\<close>

definition stream_layout :: "profile \<Rightarrow> usize \<Rightarrow> nat outcome" where
  "stream_layout p capacity =
     bind_outcome (add_word p (of_nat HEADER_SIZE) capacity) (\<lambda>bytes.
       if unat bytes \<le> 2 ^ 31 - 1 - (HEADER_ALIGN - 1) then Ok (unat bytes) else Panic UnwrapFailed)"

text \<open>\<open>fresh\<close> is what the allocated bytes hold: they are not initialised.\<close>

definition stream_alloc ::
    "profile \<Rightarrow> (nat \<Rightarrow> nat) \<Rightarrow> u8 list \<Rightarrow> usize \<Rightarrow> stream_shared memory \<Rightarrow>
     ((malloc_error + nat) \<times> stream_shared memory) outcome" where
  "stream_alloc p malloc fresh capacity m =
     bind_outcome (stream_layout p capacity) (\<lambda>bytes.
       let header = \<lparr>sh_notify = waker_set_new, sh_reader = 0, sh_writer = 0,
             sh_flags = STREAM_TX_ALIVE OR STREAM_RX_ALIVE, sh_length = capacity\<rparr>
       in Ok (box_alloc malloc bytes \<lparr>ss_header = header, ss_buffer = fresh\<rparr> m))"

text \<open>Sender and receiver are two copies of the pointer.\<close>

definition stream_channel ::
    "profile \<Rightarrow> (nat \<Rightarrow> nat) \<Rightarrow> u8 list \<Rightarrow> usize \<Rightarrow> stream_shared memory \<Rightarrow>
     ((malloc_error + nat \<times> nat) \<times> stream_shared memory) outcome" where
  "stream_channel p malloc fresh capacity m =
     bind_outcome (stream_alloc p malloc fresh capacity m) (\<lambda>(r, m').
       Ok (case r of Inl e \<Rightarrow> Inl e | Inr ptr \<Rightarrow> Inr (ptr, ptr), m'))"

definition stream_dealloc :: "profile \<Rightarrow> nat \<Rightarrow> stream_shared memory \<Rightarrow> stream_shared memory outcome option" where
  "stream_dealloc p ptr m =
     Option.bind (box_deref ptr m) (\<lambda>sh.
       case stream_layout p (sh_length (ss_header sh)) of
         Panic e \<Rightarrow> Some (Panic e)
       | Ok bytes \<Rightarrow> map_option Ok (drop_free bytes ptr m))"

definition stream_drop_side ::
    "profile \<Rightarrow> u32 \<Rightarrow> nat \<Rightarrow> stream_shared memory \<Rightarrow> stream_shared memory outcome option" where
  "stream_drop_side p flags ptr m =
     Option.bind (box_deref ptr m) (\<lambda>sh.
       let (freed, left) = clear_side flags (sh_flags (ss_header sh))
       in Option.bind (box_deref_mut ptr (sh\<lparr>ss_header := (ss_header sh)\<lparr>sh_flags := left\<rparr>\<rparr>) m) (\<lambda>m'.
            if freed then stream_dealloc p ptr m' else Some (Ok m')))"

definition stream_drop_rx :: "profile \<Rightarrow> nat \<Rightarrow> stream_shared memory \<Rightarrow> stream_shared memory outcome option" where
  "stream_drop_rx p = stream_drop_side p STREAM_RX_ALIVE"

definition stream_drop_tx :: "profile \<Rightarrow> nat \<Rightarrow> stream_shared memory \<Rightarrow> stream_shared memory outcome option" where
  "stream_drop_tx p = stream_drop_side p STREAM_TX_ALIVE"

subsection \<open>Writing\<close>

text \<open>A copy out of the bytes of the buffer would be undefined behaviour, here \<^const>\<open>None\<close>.\<close>

definition stream_copy :: "u8 list \<Rightarrow> nat \<Rightarrow> nat \<Rightarrow> u8 list \<Rightarrow> u8 list option" where
  "stream_copy data at nbytes buffer =
     (if region_in buffer (at, nbytes) then Some (store_region buffer (at, nbytes) (take nbytes data)) else None)"

definition stream_poll_write ::
    "profile \<Rightarrow> raw_waker \<Rightarrow> task_ptr \<Rightarrow> slots \<Rightarrow> u8 list \<Rightarrow> stream_shared \<Rightarrow> (nat poll \<times> stream_shared) outcome option" where
  "stream_poll_write p cx current slots data sh =
     (let header = ss_header sh; reader = sh_reader header; writer = sh_writer header in
      if reader = writer then
        Some (bind_outcome (add_task p cx current slots (sh_notify header)) (\<lambda>notify.
          Ok (Pending, sh\<lparr>ss_header := header\<lparr>sh_notify := notify\<rparr>\<rparr>)))
      else
        case (if writer < reader then sub_word p reader writer else sub_word p (sh_length header) writer) of
          Panic e \<Rightarrow> Some (Panic e)
        | Ok capacity \<Rightarrow>
            let nbytes = min (unat capacity) (length data)
            in map_option (\<lambda>buffer.
                 bind_outcome (add_word p writer (of_nat nbytes)) (\<lambda>next.
                 bind_outcome (rem_nat (unat next) (unat (sh_length header))) (\<lambda>writer'.
                   Ok (Ready nbytes, sh\<lparr>ss_header := header\<lparr>sh_writer := of_nat writer'\<rparr>, ss_buffer := buffer\<rparr>))))
                 (stream_copy data (unat writer) nbytes (ss_buffer sh)))"

text \<open>
  \<^verbatim>\<open>write\<close> polls until its data is written. Before each poll the reader may move: \<open>moves\<close> are the positions
  it is at. The result is the data not yet written, empty when \<^verbatim>\<open>write\<close> returns.
\<close>

fun stream_write ::
    "profile \<Rightarrow> raw_waker \<Rightarrow> task_ptr \<Rightarrow> slots \<Rightarrow> usize list \<Rightarrow> u8 list \<Rightarrow> stream_shared \<Rightarrow>
     (u8 list \<times> stream_shared) outcome option" where
  "stream_write p cx current slots [] data sh = Some (Ok (data, sh))"
| "stream_write p cx current slots (reader # moves) data sh =
     (if data = [] then Some (Ok ([], sh))
      else Option.bind (stream_poll_write p cx current slots data (sh\<lparr>ss_header := (ss_header sh)\<lparr>sh_reader := reader\<rparr>\<rparr>))
        (\<lambda>polled. case polled of
            Panic e \<Rightarrow> Some (Panic e)
          | Ok (Pending, sh') \<Rightarrow> stream_write p cx current slots moves data sh'
          | Ok (Ready nbytes, sh') \<Rightarrow> stream_write p cx current slots moves (drop nbytes data) sh'))"

subsection \<open>Reading\<close>

text \<open>
  \<^verbatim>\<open>read_internal\<close> loads both positions and then copies out of a pair \<^verbatim>\<open>slices\<close> that nothing defines: the pair is
  a parameter. The result is the number of bytes and what \<^verbatim>\<open>out\<close> then holds; the positions stay.
\<close>

definition stream_read_internal :: "u8 list \<times> u8 list \<Rightarrow> u8 list \<Rightarrow> nat \<times> u8 list" where
  "stream_read_internal slices out =
     (let copy_len = min (length out) (length (fst slices));
          first = take copy_len (fst slices);
          total_bytes = copy_len;
          out1 = drop copy_len out;
          copy_len1 = min (length out1) (length (snd slices));
          out2 = take copy_len1 (snd slices) @ drop copy_len1 out1
      in (total_bytes + copy_len1, first @ out2))"

definition stream_read_from_isr ::
    "profile \<Rightarrow> (task_ptr \<Rightarrow> bool) \<Rightarrow> slots \<Rightarrow> u8 list \<times> u8 list \<Rightarrow> u8 list \<Rightarrow> stream_shared \<Rightarrow>
     ((nat, infallible) isr_result \<times> u8 list \<times> stream_shared) outcome" where
  "stream_read_from_isr p notify slots slices out sh =
     (case stream_read_internal slices out of
        (bytes, out') \<Rightarrow>
          if 0 < bytes then
            bind_outcome (wake_from_isr p notify slots (sh_notify (ss_header sh))) (\<lambda>(result, _, rest).
              Ok (isr_map (\<lambda>_. bytes) result, out', sh\<lparr>ss_header := (ss_header sh)\<lparr>sh_notify := rest\<rparr>\<rparr>))
          else Ok (isr_ok bytes False, out', sh))"

text \<open>The two copies fill \<^verbatim>\<open>out\<close> from the front with the two slices, as far as it goes.\<close>

lemma stream_read_internal_spec:
  "stream_read_internal (s0, s1) out =
     (let n = min (length out) (length (s0 @ s1)) in (n, take n (s0 @ s1) @ drop n out))"
  by (auto simp: stream_read_internal_def Let_def min_def not_le add.commute)

text \<open>A read moves neither position, so whatever it was given to read from, the same bytes are unread after it.\<close>

lemma stream_read_keeps_positions:
  assumes "stream_read_from_isr p notify slots slices out sh = Ok (r, out', sh')"
  shows "sh_reader (ss_header sh') = sh_reader (ss_header sh)" "sh_writer (ss_header sh') = sh_writer (ss_header sh)"
    "ss_buffer sh' = ss_buffer sh"
  using assms by (auto simp: stream_read_from_isr_def return_ok split: prod.splits if_splits)

subsection \<open>The unread bytes\<close>

text \<open>Equal positions mean a full buffer, so it is never empty.\<close>

definition stream_wf :: "stream_shared \<Rightarrow> bool" where
  "stream_wf sh \<longleftrightarrow> length (ss_buffer sh) = unat (sh_length (ss_header sh))
     \<and> sh_writer (ss_header sh) < sh_length (ss_header sh) \<and> sh_reader (ss_header sh) < sh_length (ss_header sh)
     \<and> unat (sh_length (ss_header sh)) < 2 ^ 31"

definition stream_unread :: "stream_shared \<Rightarrow> u8 list" where
  "stream_unread sh =
     (let r = unat (sh_reader (ss_header sh)); w = unat (sh_writer (ss_header sh)) in
      if w \<le> r then drop r (ss_buffer sh) @ take w (ss_buffer sh) else take (w - r) (drop r (ss_buffer sh)))"

lemma sub_word_le: "b \<le> a \<Longrightarrow> sub_word p a b = Ok (a - b) \<and> unat (a - b) = unat a - unat b"
  by (auto simp: sub_word_def unat_sub)

lemma stream_poll_write_full:
  assumes "sh_reader (ss_header sh) = sh_writer (ss_header sh)" "add_task p cx current slots (sh_notify (ss_header sh)) = Ok bits"
  shows "stream_poll_write p cx current slots data sh =
    Some (Ok (Pending, sh\<lparr>ss_header := (ss_header sh)\<lparr>sh_notify := bits\<rparr>\<rparr>))"
  using assms by (simp add: stream_poll_write_def)

lemma stream_poll_write_spec:
  assumes wf: "stream_wf sh" and ne: "sh_reader (ss_header sh) \<noteq> sh_writer (ss_header sh)"
  shows "\<exists>n sh'. stream_poll_write p cx current slots data sh = Some (Ok (Ready n, sh'))
    \<and> n \<le> length data \<and> (data \<noteq> [] \<longrightarrow> 0 < n) \<and> stream_wf sh'
    \<and> sh_reader (ss_header sh') = sh_reader (ss_header sh)
    \<and> stream_unread sh' = stream_unread sh @ take n data"
proof -
  define r w len where "r = unat (sh_reader (ss_header sh))" "w = unat (sh_writer (ss_header sh))"
    "len = unat (sh_length (ss_header sh))"
  have b: "length (ss_buffer sh) = len" "w < len" "r < len" "len < 2 ^ 31" "r \<noteq> w"
    using wf ne by (auto simp: stream_wf_def r_w_len_def word_less_nat_alt word_unat_eq_iff)
  define cap where "cap = (if w < r then r - w else len - w)"
  define n where "n = min cap (length data)"
  have n: "n \<le> length data" "w + n \<le> len" "w < r \<Longrightarrow> w + n \<le> r" "data \<noteq> [] \<Longrightarrow> 0 < n"
    using b by (auto simp: n_def cap_def split: if_splits)
  define buf where "buf = store_region (ss_buffer sh) (w, n) (take n data)"
  define w' where "w' = (w + n) mod len"
  define sh' where "sh' = sh\<lparr>ss_header := (ss_header sh)\<lparr>sh_writer := of_nat w'\<rparr>, ss_buffer := buf\<rparr>"
  have buf: "buf = take w (ss_buffer sh) @ take n data @ drop (w + n) (ss_buffer sh)" "length buf = len"
    using n(1,2) b(1,2) by (simp_all add: buf_def store_region_def min_absorb1 min_absorb2)
  obtain d where d: "(if sh_writer (ss_header sh) < sh_reader (ss_header sh)
        then sub_word p (sh_reader (ss_header sh)) (sh_writer (ss_header sh))
        else sub_word p (sh_length (ss_header sh)) (sh_writer (ss_header sh))) = Ok d" "unat d = cap"
  proof (cases "w < r")
    case True
    then show ?thesis using that sub_word_le [of "sh_writer (ss_header sh)" "sh_reader (ss_header sh)" p]
      by (simp add: cap_def r_w_len_def word_less_nat_alt word_le_nat_alt)
  next
    case False
    then show ?thesis using that sub_word_le [of "sh_writer (ss_header sh)" "sh_length (ss_header sh)" p] b(2)
      by (simp add: cap_def r_w_len_def word_less_nat_alt word_le_nat_alt)
  qed
  have "add_word p (sh_writer (ss_header sh)) (of_nat n) = Ok (sh_writer (ss_header sh) + of_nat n)"
    "unat (sh_writer (ss_header sh) + of_nat n) = w + n"
    using n(2) b(4) by (simp_all add: add_word_def r_w_len_def unat_of_nat unat_word_ariths)
  then have poll: "stream_poll_write p cx current slots data sh = Some (Ok (Ready n, sh'))"
    using d ne n(1,2) b(1,2)
    by (simp add: stream_poll_write_def Let_def stream_copy_def region_in_def sh'_def buf_def w'_def n_def r_w_len_def)
  have w': "w' = (if w + n = len then 0 else w + n)" "w' < len" using n(2) b(2) by (auto simp: w'_def)
  then have uw: "unat (sh_writer (ss_header sh')) = w'" using b(4) by (simp add: sh'_def unat_of_nat)
  have "stream_wf sh'"
    using wf b(4) w'(2) buf(2) by (simp add: stream_wf_def sh'_def word_less_nat_alt unat_of_nat r_w_len_def)
  moreover have "stream_unread sh' = stream_unread sh @ take n data"
    using b n(1,2,3) uw w'(1) buf(1)
    by (cases "w < r") (auto simp: stream_unread_def Let_def sh'_def drop_take min_absorb2 r_w_len_def [symmetric])
  ultimately show ?thesis using poll n(1,4) by (auto simp: sh'_def)
qed

text \<open>A writer that finds the buffer full makes no progress until the reader moves.\<close>

lemma stream_write_blocks:
  assumes "n < 32" "sh_writer (ss_header sh) = pos" "data \<noteq> []"
  shows "\<exists>sh'. stream_write p (raw_waker_new (nth_id n)) current slots (replicate k pos) data sh = Some (Ok (data, sh'))"
  using assms(2)
proof (induction k arbitrary: sh)
  case 0
  then show ?case by simp
next
  case (Suc k)
  let ?sh = "sh\<lparr>ss_header := (ss_header sh)\<lparr>sh_reader := pos\<rparr>\<rparr>"
  let ?sh' = "?sh\<lparr>ss_header := (ss_header ?sh)\<lparr>sh_notify := bits_add n (sh_notify (ss_header ?sh))\<rparr>\<rparr>"
  have "stream_poll_write p (raw_waker_new (nth_id n)) current slots data ?sh = Some (Ok (Pending, ?sh'))"
    using stream_poll_write_full [of ?sh p _ current slots, OF _ add_task_own [OF assms(1)]] Suc.prems by simp
  then show ?case using Suc.IH [of ?sh'] Suc.prems assms(3) by simp
qed

lemma stream_alloc_spec:
  assumes "stream_channel p malloc fresh capacity m = Ok (Inr (tx, rx), m')"
  shows "rx = tx \<and> mem_frees m' = mem_frees m \<and> (\<exists>bytes. stream_layout p capacity = Ok bytes)
    \<and> mem_live m' tx = Some \<lparr>ss_header = \<lparr>sh_notify = waker_set_new, sh_reader = 0, sh_writer = 0,
        sh_flags = STREAM_TX_ALIVE OR STREAM_RX_ALIVE, sh_length = capacity\<rparr>, ss_buffer = fresh\<rparr>"
proof -
  obtain bytes where b: "stream_layout p capacity = Ok bytes"
    using assms by (auto simp: stream_channel_def stream_alloc_def return_ok)
  show ?thesis using assms b
    by (cases "alloc_layout malloc bytes") (auto simp: stream_channel_def stream_alloc_def box_alloc_def Let_def)
qed

lemma stream_layout_pos:
  assumes "stream_layout p capacity = Ok bytes" "unat capacity < 2 ^ 32 - HEADER_SIZE"
  shows "bytes \<noteq> 0"
proof -
  have "unat (of_nat HEADER_SIZE + capacity) = HEADER_SIZE + unat capacity"
    using assms(2) by (simp add: HEADER_SIZE_def unat_word_ariths)
  then show ?thesis using assms(1)
    by (auto simp: stream_layout_def return_ok add_word_def HEADER_SIZE_def split: if_splits)
qed

text \<open>Whichever side goes first, the second one frees the allocation.\<close>

lemma stream_freed_once:
  assumes "stream_channel p malloc fresh capacity m = Ok (Inr (tx, rx), m')" "unat capacity < 2 ^ 32 - HEADER_SIZE"
    and "first = stream_drop_tx p tx \<and> second = stream_drop_rx p rx \<or> first = stream_drop_rx p rx \<and> second = stream_drop_tx p tx"
  shows "\<exists>m1 m2. first m' = Some (Ok m1) \<and> mem_frees m1 = mem_frees m \<and> mem_live m1 tx \<noteq> None
    \<and> second m1 = Some (Ok m2) \<and> mem_frees m2 = mem_frees m @ [tx] \<and> mem_live m2 tx = None"
proof -
  obtain bytes where b: "rx = tx" "mem_frees m' = mem_frees m" "stream_layout p capacity = Ok bytes" "bytes \<noteq> 0"
    "mem_live m' tx = Some \<lparr>ss_header = \<lparr>sh_notify = waker_set_new, sh_reader = 0, sh_writer = 0,
      sh_flags = STREAM_TX_ALIVE OR STREAM_RX_ALIVE, sh_length = capacity\<rparr>, ss_buffer = fresh\<rparr>"
    using stream_alloc_spec [OF assms(1)] stream_layout_pos [OF _ assms(2)] by blast
  then show ?thesis using assms(3) second_side_frees
    by (auto simp: stream_drop_tx_def stream_drop_rx_def stream_drop_side_def box_deref_def box_deref_mut_def side_bit_def
        case_prod_unfold STREAM_TX_ALIVE_def STREAM_RX_ALIVE_def stream_dealloc_def drop_free_def free_layout_def)
qed

subsection \<open>Properties\<close>

text \<open>In every well-formed state a poll of \<^verbatim>\<open>write\<close> returns without touching memory outside the buffer: if
  the unread bytes fill the buffer it registers and waits, and otherwise it appends a
  prefix of the data to them, not empty unless the data is.\<close>

theorem stream_write_appends:
  assumes "stream_wf sh" "n < 32"
  shows "\<exists>polled sh'. stream_poll_write p (raw_waker_new (nth_id n)) current slots data sh = Some (Ok (polled, sh'))
    \<and> stream_wf sh' \<and> sh_reader (ss_header sh') = sh_reader (ss_header sh)
    \<and> (case polled of
         Pending \<Rightarrow> length (stream_unread sh) = length (ss_buffer sh) \<and> stream_unread sh' = stream_unread sh
           \<and> n \<in> waker_ids (sh_notify (ss_header sh'))
       | Ready taken \<Rightarrow> taken \<le> length data \<and> (data \<noteq> [] \<longrightarrow> 0 < taken) \<and> stream_unread sh' = stream_unread sh @ take taken data)"
proof (cases "sh_reader (ss_header sh) = sh_writer (ss_header sh)")
  case True
  let ?sh' = "sh\<lparr>ss_header := (ss_header sh)\<lparr>sh_notify := bits_add n (sh_notify (ss_header sh))\<rparr>\<rparr>"
  have "stream_poll_write p (raw_waker_new (nth_id n)) current slots data sh = Some (Ok (Pending, ?sh'))"
    using stream_poll_write_full [OF True add_task_own [OF assms(2)]] .
  moreover have "stream_wf ?sh'" "stream_unread ?sh' = stream_unread sh"
    using assms(1) by (simp_all add: stream_wf_def stream_unread_def Let_def)
  moreover have "length (stream_unread sh) = length (ss_buffer sh)"
    using assms(1) True by (auto simp: stream_unread_def stream_wf_def Let_def word_less_nat_alt)
  moreover have "n \<in> waker_ids (sh_notify (ss_header ?sh'))" using ws.ids_add [OF assms(2)] by simp
  ultimately show ?thesis by auto
next
  case False
  obtain taken sh' where "stream_poll_write p (raw_waker_new (nth_id n)) current slots data sh = Some (Ok (Ready taken, sh'))"
    "taken \<le> length data" "data \<noteq> [] \<longrightarrow> 0 < taken" "stream_wf sh'"
    "sh_reader (ss_header sh') = sh_reader (ss_header sh)" "stream_unread sh' = stream_unread sh @ take taken data"
    using stream_poll_write_spec [OF assms(1) False] by blast
  then show ?thesis by (intro exI [of _ "Ready taken"] exI [of _ sh']) simp
qed

theorem stream_write_appends_witness:
  "\<exists>polled sh'. stream_poll_write Dev (raw_waker_new (nth_id 3)) 7 empty_slots [1, 2, 3]
      \<lparr>ss_header = \<lparr>sh_notify = 0, sh_reader = 1, sh_writer = 2, sh_flags = 3, sh_length = 4\<rparr>, ss_buffer = [9, 8, 7, 6]\<rparr>
    = Some (Ok (polled, sh')) \<and> stream_wf sh'"
  using stream_write_appends [of "\<lparr>ss_header = \<lparr>sh_notify = 0, sh_reader = 1, sh_writer = 2, sh_flags = 3, sh_length = 4\<rparr>,
      ss_buffer = [9, 8, 7, 6]\<rparr>" 3 Dev 7 empty_slots "[1, 2, 3]"]
  by (auto simp: stream_wf_def)

text \<open>Where the size wraps, no memory is allocated for the header that is then written.\<close>

lemma stream_layout_wraps: "stream_layout Release (- 20) = Ok 0" "stream_layout Dev (- 20) = Panic ArithmeticOverflow"
  by (simp_all add: stream_layout_def HEADER_SIZE_def add_word_def)

text \<open>A new stream counts as full: a writer waits until the reader has moved past bytes that were never written.\<close>

lemma new_stream_is_full:
  assumes "stream_channel p malloc fresh capacity m = Ok (Inr (tx, rx), m')" "n < 32" "data \<noteq> []"
  shows "\<exists>sh sh'. box_deref tx m' = Some sh \<and> sh_reader (ss_header sh) = 0
    \<and> stream_write p (raw_waker_new (nth_id n)) current slots (replicate k 0) data sh = Some (Ok (data, sh'))"
  using stream_alloc_spec [OF assms(1)] stream_write_blocks [OF assms(2) _ assms(3), of _ 0 p current slots k]
  by (auto simp: box_deref_def)

end
