(* ===== verification/HeapBuffers.thy ===== *)
theory HeapBuffers
  imports Heap
begin

text \<open>
  The other owners of heap memory: boxes as raw pointers and of unknown type (\<^verbatim>\<open>src/system/heap/boxed.rs\<close>), and
  two modules that the crate leaves out, raw arrays (\<^verbatim>\<open>heap/array.rs\<close>) and buffers for DMA (\<^verbatim>\<open>heap/dma.rs\<close>).
\<close>

subsection \<open>Boxes in other forms\<close>

text \<open>A raw pointer is the address of the box; making one ends the box without its destructor.\<close>

definition box_into_raw :: "nat \<Rightarrow> nat" where "box_into_raw ptr = ptr"
definition box_from_raw :: "nat \<Rightarrow> nat" where "box_from_raw ptr = ptr"
definition box_into_pin :: "nat \<Rightarrow> nat" where "box_into_pin ptr = ptr"

definition box_pin :: "(nat \<Rightarrow> nat) \<Rightarrow> nat \<Rightarrow> 'a \<Rightarrow> 'a memory \<Rightarrow> (malloc_error + nat) \<times> 'a memory" where
  "box_pin malloc sz value m = map_prod (map_sum id box_into_pin) id (box_alloc malloc sz value m)"

definition box_drop :: "nat \<Rightarrow> nat \<Rightarrow> 'a memory \<Rightarrow> 'a memory option" where
  "box_drop sz ptr m = drop_free sz ptr m"

text \<open>A box of unknown type keeps the destructor of its type, here by the size that it frees.\<close>

record 'm untyped_box =
  ub_ptr :: nat
  ub_drop :: "nat \<Rightarrow> 'm \<Rightarrow> 'm option"

definition erase_type :: "nat \<Rightarrow> nat \<Rightarrow> 'a memory untyped_box" where
  "erase_type sz ptr = \<lparr>ub_ptr = box_into_raw ptr, ub_drop = drop_free sz\<rparr>"

definition untyped_drop :: "'a memory untyped_box \<Rightarrow> 'a memory \<Rightarrow> 'a memory option" where
  "untyped_drop b m = ub_drop b (ub_ptr b) m"

lemma untyped_drop_erased: "untyped_drop (erase_type sz ptr) m = box_drop sz ptr m"
  by (simp add: untyped_drop_def erase_type_def box_drop_def box_into_raw_def)

text \<open>However a box is passed on, what it owns is freed once.\<close>

lemma box_life:
  assumes "box_alloc malloc sz value m = (Inr ptr, m')" "sz \<noteq> 0"
  shows "box_deref (box_from_raw (box_into_raw ptr)) m' = Some value"
    and "\<exists>m''. box_drop sz ptr m' = Some m'' \<and> mem_frees m'' = mem_frees m @ [ptr] \<and> untyped_drop (erase_type sz ptr) m' = Some m''
      \<and> box_into_inner sz (box_into_raw ptr) m' = Some (value, m'') \<and> box_drop sz ptr m'' = None"
  using assms
  by (auto simp: box_alloc_def box_deref_def box_from_raw_def box_into_raw_def box_drop_def drop_free_def untyped_drop_def
      erase_type_def box_into_inner_def free_layout_def split: sum.splits)

subsection \<open>Raw arrays\<close>

text \<open>The elements of an array may be uninitialised.\<close>

record heap_array =
  ha_ptr :: nat
  ha_len :: nat

text \<open>\<^verbatim>\<open>Layout::array\<close> rejects a size beyond \<^verbatim>\<open>isize\<close>; \<open>sz\<close> and \<open>align\<close> are those of an element.\<close>

definition array_layout :: "nat \<Rightarrow> nat \<Rightarrow> nat \<Rightarrow> nat outcome" where
  "array_layout sz align len = (if sz * len \<le> 2 ^ 31 - align then Ok (sz * len) else Panic UnwrapFailed)"

definition array_alloc ::
    "(nat \<Rightarrow> nat) \<Rightarrow> nat \<Rightarrow> nat \<Rightarrow> nat \<Rightarrow> 'a option list memory \<Rightarrow>
     ((malloc_error + heap_array) \<times> 'a option list memory) outcome" where
  "array_alloc malloc sz align len m =
     bind_outcome (array_layout sz align len) (\<lambda>bytes.
       Ok (case box_alloc malloc bytes (replicate len None) m of
             (Inl e, m') \<Rightarrow> (Inl e, m')
           | (Inr ptr, m') \<Rightarrow> (Inr \<lparr>ha_ptr = ptr, ha_len = len\<rparr>, m')))"

definition array_dealloc ::
    "nat \<Rightarrow> nat \<Rightarrow> heap_array \<Rightarrow> 'a option list memory \<Rightarrow> 'a option list memory option outcome" where
  "array_dealloc sz align a m =
     bind_outcome (array_layout sz align (ha_len a)) (\<lambda>bytes. Ok (drop_free bytes (ha_ptr a) m))"

definition array_deref :: "heap_array \<Rightarrow> 'a option list memory \<Rightarrow> 'a option list option" where
  "array_deref a m =
     Option.bind (box_deref (ha_ptr a) m) (\<lambda>xs. if ha_len a \<le> length xs then Some (take (ha_len a) xs) else None)"

definition array_deref_mut :: "heap_array \<Rightarrow> 'a option list \<Rightarrow> 'a option list memory \<Rightarrow> 'a option list memory option" where
  "array_deref_mut a xs m =
     Option.bind (array_deref a m) (\<lambda>old. if length xs = length old then box_deref_mut (ha_ptr a) xs m else None)"

lemma array_life:
  assumes "array_alloc malloc sz align len m = Ok (Inr a, m')" "length xs = len" "sz * len \<noteq> 0"
  shows "ha_len a = len" "array_deref a m' = Some (replicate len None)"
    and "\<exists>m1. array_deref_mut a xs m' = Some m1"
    and "array_deref_mut a xs m' = Some m1 \<Longrightarrow> array_deref a m1 = Some xs
      \<and> (\<exists>m2. array_dealloc sz align a m1 = Ok (Some m2) \<and> mem_frees m2 = mem_frees m @ [ha_ptr a])"
  using assms
  by (auto simp: array_alloc_def array_layout_def box_alloc_def array_deref_def box_deref_def array_deref_mut_def
      box_deref_mut_def array_dealloc_def drop_free_def free_layout_def split: if_splits sum.splits)

subsection \<open>Buffers for DMA\<close>

datatype dma_alloc_error = DmaAllocError nat

record dma_buffer =
  db_ptr :: nat
  db_len :: nat

text \<open>\<open>caps_malloc\<close> is \<^verbatim>\<open>heap_caps_malloc\<close> for memory that DMA can reach.\<close>

definition dma_alloc ::
    "(nat \<Rightarrow> nat) \<Rightarrow> nat \<Rightarrow> u8 option list memory \<Rightarrow> (dma_alloc_error + dma_buffer) \<times> u8 option list memory" where
  "dma_alloc caps_malloc sz m =
     (let ptr = caps_malloc sz in
      if ptr = 0 then (Inl (DmaAllocError sz), m)
      else (Inr \<lparr>db_ptr = ptr, db_len = sz\<rparr>, m\<lparr>mem_live := (mem_live m)(ptr \<mapsto> replicate sz None)\<rparr>))"

text \<open>Reading a byte that was not initialised is undefined behaviour.\<close>

definition dma_bytes :: "dma_buffer \<Rightarrow> u8 option list memory \<Rightarrow> u8 list option" where
  "dma_bytes b m =
     Option.bind (mem_live m (db_ptr b)) (\<lambda>bytes.
       if db_len b \<le> length bytes \<and> None \<notin> set (take (db_len b) bytes) then Some (map the (take (db_len b) bytes)) else None)"

definition dma_bytes_mut :: "dma_buffer \<Rightarrow> u8 list \<Rightarrow> u8 option list memory \<Rightarrow> u8 option list memory option" where
  "dma_bytes_mut b new m =
     Option.bind (mem_live m (db_ptr b)) (\<lambda>bytes.
       if length new = db_len b \<and> db_len b \<le> length bytes
       then Some (m\<lparr>mem_live := (mem_live m)(db_ptr b \<mapsto> map Some new @ drop (db_len b) bytes)\<rparr>) else None)"

definition dma_zeroed :: "dma_buffer \<Rightarrow> u8 option list memory \<Rightarrow> (dma_buffer \<times> u8 option list memory) option" where
  "dma_zeroed b m = map_option (Pair b) (dma_bytes_mut b (replicate (db_len b) 0) m)"

definition dma_drop :: "dma_buffer \<Rightarrow> u8 option list memory \<Rightarrow> u8 option list memory option" where
  "dma_drop b m =
     (if mem_live m (db_ptr b) = None then None
      else Some (m\<lparr>mem_live := (mem_live m)(db_ptr b := None), mem_frees := mem_frees m @ [db_ptr b]\<rparr>))"

lemma dma_life:
  assumes "dma_alloc caps_malloc sz m = (Inr b, m')"
  shows "db_len b = sz" "0 < sz \<Longrightarrow> dma_bytes b m' = None"
    and "\<exists>m1. dma_zeroed b m' = Some (b, m1)"
    and "dma_zeroed b m' = Some (b, m1) \<Longrightarrow> dma_bytes b m1 = Some (replicate sz 0)
      \<and> (\<exists>m2. dma_drop b m1 = Some m2 \<and> mem_frees m2 = mem_frees m @ [db_ptr b])"
  using assms
  by (auto simp: dma_alloc_def dma_bytes_def dma_bytes_mut_def dma_zeroed_def dma_drop_def Let_def split: if_splits)

end
