(* ===== verification/Spec2Isabelle.thy ===== *)
theory Spec2Isabelle
  imports Playback Handover SharedThreads LockedQueue DacWait RingBufferSpsc ChannelWait TaskMutex CriticalMutex TaskIds UdpCallback Logger TaskSpawn Boot
    TaskMonitor StreamBuffer HeapBuffers
begin

text \<open>
  \<^bold>\<open>A verification library for the bark firmware (ESP32, Rust, \<^verbatim>\<open>no_std\<close>).\<close>

  The program receives audio packets from a multicast group and plays them on the on-board DAC. The
  network thread of lwIP calls back into the program with each datagram; the callback aligns it and puts
  it into a bounded channel. The application task takes datagrams from the channel, parses them, and
  keeps a stream for the newest session: audio packets go into the stream's packet queue, ordered by
  sequence number, and once enough have arrived a stream task is started on the other core. The stream
  task takes one packet per turn, or silence, converts the samples to signed bytes and writes them to a
  ring buffer; the DMA interrupt of the DAC takes the frames from the ring. Tasks wait for one another
  through waker sets, which are bits over a fixed registry of tasks.

  \<^bold>\<open>Theories and sources\<close> (paths are under \<^verbatim>\<open>src/src/\<close>).

  \<^item> \<open>Prelude\<close>, \<open>Format\<close>: machine integers, the two compilation profiles, \<open>outcome\<close>, a result or a panic, and
    the text of numbers and padded values.
  \<^item> \<open>BoundedFifo\<close>, \<open>WakeSet\<close>, \<open>TwoSided\<close>: the interfaces as locales, a bounded FIFO (and one that is read
    in place), a set of tasks to wake, and state that the last of its owners frees, with what a client
    derives from their laws. \<open>RingBuffer\<close>, \<open>Waker\<close> and \<open>TwoSided\<close> interpret them on the code's operations.
  \<^item> \<open>RingBuffer\<close>, \<open>RingBufferSpsc\<close> (\<^verbatim>\<open>sync/ringbuffer.rs\<close>): the ring buffer, one call at a time, and with one
    writer and one reader interleaved at each atomic access and each element copied.
  \<^item> \<open>IsrResult\<close> (\<^verbatim>\<open>sync/isr.rs\<close>), \<open>Registry\<close> (\<^verbatim>\<open>system/task/registry.rs\<close>), \<open>Waker\<close> (\<^verbatim>\<open>system/task/waker.rs\<close>): what
    an interrupt hands back, the slots of the running tasks, wakers and waker sets. \<open>TaskIds\<close>: the ids that are
    handed out, as a typing judgement.
  \<^item> \<open>TaskMutex\<close>, \<open>LockedQueue\<close>, \<open>CriticalMutex\<close> (\<^verbatim>\<open>sync/mutex.rs\<close>): the asynchronous mutex as a step relation
    over all its tasks, the data behind it with the packet queue (\<^verbatim>\<open>app/queue.rs\<close>) as that data, and the mutex
    over a spinlock.
  \<^item> \<open>Channel\<close>, \<open>ChannelWait\<close> (\<^verbatim>\<open>sync/queue.rs\<close>): the two-sided channel over a FreeRTOS queue, one call at a
    time, and a receiver and a sender that run at once.
  \<^item> \<open>EventGroup\<close> (\<^verbatim>\<open>sync/eventgroup.rs\<close>), \<open>UdpCallback\<close> (\<^verbatim>\<open>platform/net/udp.rs\<close>), \<open>Wifi\<close>, \<open>Platform\<close>
    (\<^verbatim>\<open>platform/mod.rs\<close>, \<^verbatim>\<open>platform/wifi.rs\<close>): event groups and the two protocols that use them, taking a
    receive callback away from the network thread, and following the state of the wifi, once it was brought
    up with its configuration.
  \<^item> \<open>Net\<close> (\<^verbatim>\<open>platform/net.rs\<close>), \<open>Protocol\<close> (\<^verbatim>\<open>app/protocol.rs\<close>): addresses and errors of lwIP; the receive
    callback, the receive loop, and the resources of the socket.
  \<^item> \<open>Heap\<close> (\<^verbatim>\<open>system/heap.rs\<close>, \<^verbatim>\<open>heap/boxed.rs\<close>, \<^verbatim>\<open>heap/arc.rs\<close>), \<open>SharedThreads\<close> (\<^verbatim>\<open>heap/arc.rs\<close>), \<open>TaskSpawn\<close>
    (\<^verbatim>\<open>system/task.rs\<close>, \<^verbatim>\<open>system/task/execute.rs\<close>): owned and counted boxes over a store, counted boxes whose
    handles several threads use at once, and a task from its spawning to the line it logs at its end.
  \<^item> \<open>HeapBuffers\<close> (\<^verbatim>\<open>heap/boxed.rs\<close>, \<^verbatim>\<open>heap/array.rs\<close>, \<^verbatim>\<open>heap/dma.rs\<close>), \<open>StreamBuffer\<close> (\<^verbatim>\<open>sync/streambuffer.rs\<close>):
    raw and untyped boxes, raw arrays, DMA buffers and the byte stream; the last three files are in no
    module of the crate.
  \<^item> \<open>Boot\<close> (\<^verbatim>\<open>main.rs\<close>, \<^verbatim>\<open>system/mod.rs\<close>, \<^verbatim>\<open>system/uart.rs\<close>, \<^verbatim>\<open>platform/eventloop.rs\<close>, \<^verbatim>\<open>platform/nvs.rs\<close>): the order
    of the effects of \<^verbatim>\<open>app_main\<close>.
  \<^item> \<open>Stats\<close> (\<^verbatim>\<open>stats.rs\<close>), \<open>LogBuffer\<close>, \<open>Logger\<close> (\<^verbatim>\<open>system/log.rs\<close>, \<^verbatim>\<open>system/panic.rs\<close>), \<open>TaskMonitor\<close> (\<^verbatim>\<open>system/task/top.rs\<close>): the event
    counters, the log line from its record to ESP-IDF, and the table of the running tasks.
  \<^item> \<open>Timing\<close> (\<^verbatim>\<open>app/timing.rs\<close>), \<open>PacketQueue\<close> (\<^verbatim>\<open>app/queue.rs\<close>), \<open>Stream\<close> (\<^verbatim>\<open>app/stream.rs\<close>, \<^verbatim>\<open>app/mod.rs\<close>):
    the estimates, the window of packets, and the receiver with its streams and their tasks.
  \<^item> \<open>AppTask\<close> (\<^verbatim>\<open>app/mod.rs\<close>): the application task over socket and receiver, and a session from the view of
    its queue, where the results on packets and streams meet.
  \<^item> \<open>Convint\<close>, \<open>RunStream\<close> (\<^verbatim>\<open>app/stream.rs\<close>), \<open>Dac\<close> (\<^verbatim>\<open>platform/dac.rs\<close>): the conversion of a sample, the body
    of a stream task, and the DAC with its interrupt; \<open>DacWait\<close>: the writer and the interrupt at the same time.
  \<^item> \<open>Handover\<close> (\<^verbatim>\<open>app/stream.rs\<close>, \<^verbatim>\<open>platform/dac.rs\<close>): the one DAC passing from the task of a session to that of the
    next.
  \<^item> \<open>EndToEnd\<close>: a session from the packets the receiver takes to the frames that are played.
  \<^item> \<open>Firmware\<close>, \<open>Playback\<close>: all the threads around the state they share (the receive callback, the application
    task with its restarts, the stream tasks and the report of the counters), composed of the steps of the
    theories above, and a session in that system, from the datagrams to the DMA buffers.

  \<^bold>\<open>How the code is read.\<close> A struct is a record, an enum a datatype, an integer a word of its width.
  Checked arithmetic, indexing and \<^verbatim>\<open>unwrap\<close> give a \<open>Panic\<close>; arithmetic that overflows panics in the \<open>Dev\<close>
  profile and wraps in the \<open>Release\<close> profile, so the definitions take the profile as an argument and the
  theorems hold for both unless they name one. \<^verbatim>\<open>Result\<close> is a sum, \<^verbatim>\<open>Option\<close> an option, and \<^verbatim>\<open>Poll\<close> the type
  \<open>poll\<close>. Access to freed memory is \<open>None\<close> in \<open>Heap\<close> and its clients, so that a result \<open>Some\<close> is memory
  safety. Shared state that threads or interrupts change at the same time is a step relation (ring
  buffer, registry, mutex and the data behind it, channel, DAC writer, receive callback, platform, firmware) or a run of
  steps of numbered threads (\<open>SharedThreads\<close>); an asynchronous function is its polls, with the
  interrupts between two polls given as a schedule (\<open>dac_write\<close>, \<open>stream_loop\<close>). Notifications of tasks
  are returned as the list of notified tasks. In \<open>Stream\<close>, \<open>AppTask\<close>, \<open>Handover\<close> and \<open>Firmware\<close> an operation on the
  shared packet queue is one step from the moment the lock of the queue is held: \<open>LockedQueue\<close> shows that the lock
  makes it so, and a task that waits for the lock, which \<open>TaskMutex\<close> shows may be for good, has not taken its step.
  A panic restarts the device; a state after one is not considered.

  \<^bold>\<open>Parameters.\<close> What is not under \<^verbatim>\<open>src/\<close> is an argument: \<^verbatim>\<open>malloc\<close>; the queue, event group and task creation
  of FreeRTOS (\<open>rtos_laws\<close>, \<open>eg_laws\<close>); lwIP and ESP-IDF calls by their results (\<open>bind_env\<close>, \<open>dac_driver\<close>); the
  containers of \<^verbatim>\<open>heapless\<close> (\<open>deque_laws\<close> and the history buffers); the packet accessors and buffers of
  \<^verbatim>\<open>bark_protocol\<close> and \<^verbatim>\<open>esp_pbuf\<close> (\<open>pbuf_laws\<close>). Each law is what their documentation states, and each
  theorem that uses one has a witness with a concrete instance.

  \<^bold>\<open>What is shown.\<close>

  \<^item> The whole: from the boot on and under any interleaving of the threads, the packets handled are the valid
    ones of the datagrams that were queued, in order, but for those left in the queue of an application task that
    ended; each broadcast among them is answered; the counters of the network and of the stream tasks are exact
    (modulo 2 to the 32nd). What is heard of a session is the samples of the first packet handled under each
    number while it was in the window, in order, with silence for the missing ones.
  \<^item> Ring buffer: a FIFO under every interleaving of writer and reader, without a data race on a slot, and
    equal to the sequential model when one side runs alone.
  \<^item> Packets: the queue implements a window over sequence numbers, first arrival first; popping gives the
    packets in order with gaps, and so does the shared queue of a session between the receiver and its
    task, whatever other tasks and packets come in between, within the bounds on the numbers that the theorems state. The queue's operations are whole although its lock is
    taken, and its memory read and written, in steps. Defects beyond the bounds, at the ends of the number range are stated as theorems.
  \<^item> Streams: the counted queue is memory-safe in every reachable state of receiver and tasks; a task whose
    DAC works ends at its next turn when its stream has been replaced, and not before; a new session is heard only if the old task ends before the new one
    opens the DAC, and is silent for good otherwise; the count is exact when several threads clone and drop at
    once, and a thread that sees it at one stays alone; playback starts after the configured
    number of packets; audio of an older session enters the newer stream.
  \<^item> Playing: the conversion equals the rounded IEEE value on \<open>[-1, 1]\<close> and wraps above; the interrupt fills
    its buffer with the oldest frames and then silence; \<^verbatim>\<open>write\<close> loses, repeats and reorders nothing and
    returns; a waiting writer is woken by the next interrupt even if one came before it registered; a whole
    stream is played in order, and a task that returns has given the DAC back, on every path.
  \<^item> Network: a datagram that comes is queued or counted as dropped, without a panic; the receive loop ends with the first
    valid packet or waits; the socket is set up completely or not at all; the application task answers every
    broadcast and ends only with its socket, and a single reply that cannot be sent ends it and with it every
    stream task at its next turn, even if a reconnection has started another application task; a
    call of the callback leaves its flags as they were; the callback is quiesced
    soundly if unregistering excludes calls in progress, and otherwise can be entered after its end.
  \<^item> Tasks: registrations are unique; \<^verbatim>\<open>wake_all\<close> is exact; the channel is a FIFO under every
    interleaving and frees its state once, a waiting receiver is woken by the next send that completes,
    but sends that fill the queue while it is about to wait stop it for good; the mutex excludes, its waiters are known, and one
    wake-up can be lost; a spawned task leaves neither its closure nor its registration behind; the platform task acts on the last state; ids and
    wakers stay in range; the boot initialises what its handlers use before it attaches them.
  \<^item> Diagnostics: a log record gives one C string of at most 299 bytes and never panics; the task monitor
    shows shares of at most 100 percent, and panics in the dev profile when a counter wraps.

  \<^bold>\<open>Loops and bounds.\<close> Loops over indices are structural recursion. The growth of the deque in \<open>pq_expand\<close>, the
  draining of a queue in \<open>drain\<close> and the receive loop \<open>protocol_receive\<close> are partial functions, proved to
  return \<open>Some\<close> from the laws of the container. \<open>dac_write\<close> and \<open>stream_loop\<close> recurse over the schedule of
  interrupts and turns: a schedule that is too short leaves the task suspended, and \<open>dac_write_returns\<close>
  says how long is enough (as many rounds as frames, one more if the ring starts full).

  \<^bold>\<open>What is not modelled.\<close> Memory orderings weaker than sequential consistency; the names of the ESP-IDF constants,
  which are parameters; the text of the statistics and of the logo; the
  bindings and accessors that only give a pointer or a field; the build script. \<open>Firmware\<close> has one application
  task at a time: the second one that a reconnection starts while the first runs (\<open>reconnect_starts_second_app\<close> of
  \<open>Platform\<close>) would bind a second socket to the port, which is up to lwIP.
\<close>

end
